(* ===== verification/Haggle_Prelude.thy ===== *)
theory Haggle_Prelude
  imports Main "HOL-Library.Word" "HOL-Library.Monad_Syntax"
begin

text \<open>
  The types and generic lemmas shared by the theories of this development.

  A C \<open>char\<close> is an HOL \<^typ>\<open>char\<close> (both have 256 values), a buffer of characters is a
  \<^typ>\<open>string\<close>, an \<open>unsigned char\<close> is a byte \<^typ>\<open>8 word\<close>, and the unsigned integers of the
  sources keep their width as words.  Undefined behaviour of the C code (a dereference of
  \<open>NULL\<close> or of freed memory, an access outside an array, a division by zero, a loop that does not
  end) is the value \<open>None\<close> of an option, so that a theorem stating \<open>Some\<close> also states its absence.
\<close>

unbundle bit_operations_syntax

type_synonym byte = "8 word"
type_synonym u16 = "16 word"
type_synonym u32 = "32 word"
type_synonym u64 = "64 word"

named_theorems defined_simps \<open>equations that show an operation defined on valid arguments\<close>
named_theorems frame_simps \<open>what an operation leaves unchanged\<close>

section \<open>Error codes\<close>

text \<open>The error codes of \<open>error.h\<close> that the functions of the library return.\<close>

definition HAGGLE_ERROR :: int where "HAGGLE_ERROR = -100"
definition HAGGLE_ALLOC_ERROR :: int where "HAGGLE_ALLOC_ERROR = -99"
definition HAGGLE_SOCKET_ERROR :: int where "HAGGLE_SOCKET_ERROR = -98"
definition HAGGLE_PARAM_ERROR :: int where "HAGGLE_PARAM_ERROR = -95"
definition HAGGLE_INTERNAL_ERROR :: int where "HAGGLE_INTERNAL_ERROR = -94"
definition HAGGLE_EVENT_LOOP_ERROR :: int where "HAGGLE_EVENT_LOOP_ERROR = -93"
definition HAGGLE_FILE_ERROR :: int where "HAGGLE_FILE_ERROR = -91"
definition HAGGLE_NO_ERROR :: int where "HAGGLE_NO_ERROR = 0"

section \<open>Characters and bytes\<close>

definition byte_of_char :: "char \<Rightarrow> byte" where
  "byte_of_char c = of_char c"

definition char_of_byte :: "byte \<Rightarrow> char" where
  "char_of_byte b = char_of (uint b)"

lemma uint_of_char_byte: "uint (of_char c :: byte) = of_char c"
  by (simp add: of_char_def uint_word_of_int_eq unsigned_of_int take_bit_int_eq_self_iff
      flip: of_int_of_char)

lemma byte_of_char_of_byte [simp]: "byte_of_char (char_of_byte b) = b"
proof -
  have "uint b mod 256 = uint b" using uint_lt2p [of b] by (intro mod_pos_pos_trivial) simp_all
  then show ?thesis
    by (simp only: byte_of_char_def char_of_byte_def word_uint_eq_iff uint_of_char_byte of_char_of)
qed

lemma char_of_byte_of_char [simp]: "char_of_byte (byte_of_char c) = c"
  by (simp add: byte_of_char_def char_of_byte_def uint_of_char_byte)

text \<open>The string that a buffer of characters holds ends before the first zero character.\<close>

definition c_string :: "string \<Rightarrow> string" where
  "c_string s = takeWhile (\<lambda>c. c \<noteq> CHR 0x00) s"

lemma c_string_append_nul [simp]: "CHR 0x00 \<notin> set s \<Longrightarrow> c_string (s @ CHR 0x00 # r) = s"
  by (auto simp: c_string_def takeWhile_append)

section \<open>Words and their bytes\<close>

text \<open>The \<open>n\<close> low bytes of a word, the most significant first.\<close>

definition be_bytes :: "nat \<Rightarrow> 'a::len word \<Rightarrow> byte list" where
  "be_bytes n w = map (\<lambda>i. ucast (drop_bit (8 * (n - 1 - i)) w)) [0..<n]"

text \<open>The bytes of a 32-bit integer in the memory of a little-endian host, and the integer they hold.\<close>

definition le_bytes :: "u32 \<Rightarrow> byte list" where
  "le_bytes w = rev (be_bytes 4 w)"

definition le_word :: "byte list \<Rightarrow> u32" where
  "le_word bs = word_rcat (rev bs)"

text \<open>\<open>htonl\<close> and \<open>ntohl\<close> of such a host, and \<open>htons\<close> and \<open>ntohs\<close>.\<close>

definition htonl :: "u32 \<Rightarrow> u32" where
  "htonl w = le_word (be_bytes 4 w)"

definition ntohl :: "u32 \<Rightarrow> u32" where
  "ntohl w = word_rcat (le_bytes w)"

definition le_bytes16 :: "u16 \<Rightarrow> byte list" where
  "le_bytes16 w = rev (be_bytes 2 w)"

definition le_word16 :: "byte list \<Rightarrow> u16" where
  "le_word16 bs = word_rcat (rev bs)"

definition htons :: "u16 \<Rightarrow> u16" where
  "htons w = le_word16 (be_bytes 2 w)"

definition ntohs :: "u16 \<Rightarrow> u16" where
  "ntohs w = word_rcat (le_bytes16 w)"

lemma bit_word_rcat:
  fixes ws :: "byte list"
  shows "bit (word_rcat ws :: 'b::len word) n \<longleftrightarrow>
     n < LENGTH('b) \<and> n div 8 < length ws \<and> bit (rev ws ! (n div 8)) (n mod 8)"
  using bit_horner_sum_uint_exp_iff [of "rev ws" n] by (simp add: word_rcat_def bit_simps)

lemma length_be_bytes [simp]: "length (be_bytes n w) = n"
  by (simp add: be_bytes_def)

lemma length_le_bytes [simp]: "length (le_bytes w) = 4"
  by (simp add: le_bytes_def)

lemma word_rcat_be_bytes:
  fixes w :: "'a::len word"
  assumes "LENGTH('a) = 8 * n"
  shows "word_rcat (be_bytes n w) = w"
proof (rule bit_word_eqI)
  fix i assume i: "i < LENGTH('a)"
  then have "i div 8 < n" using assms by (simp add: div_less_iff_less_mult mult.commute)
  then have "rev (be_bytes n w) ! (i div 8) = ucast (drop_bit (8 * (i div 8)) w)"
    by (simp add: be_bytes_def rev_nth Suc_diff_Suc)
  then show "bit (word_rcat (be_bytes n w) :: 'a word) i = bit w i"
    using i \<open>i div 8 < n\<close> by (simp add: bit_word_rcat bit_simps)
qed

lemma word_rcat_inj_bytes:
  "length bs = 4 \<Longrightarrow> be_bytes 4 (word_rcat bs :: u32) = bs"
  by (intro nth_equalityI bit_word_eqI)
    (auto simp: be_bytes_def bit_simps bit_word_rcat rev_nth)

lemma le_word_le_bytes [simp]: "le_word (le_bytes w) = w"
  by (simp add: le_word_def le_bytes_def word_rcat_be_bytes)

lemma le_bytes_htonl [simp]: "le_bytes (htonl w) = be_bytes 4 w"
  using word_rcat_inj_bytes [of "rev (be_bytes 4 w)"]
  by (simp add: le_bytes_def htonl_def le_word_def)

lemma ntohl_htonl [simp]: "ntohl (htonl w) = w"
  by (simp add: ntohl_def word_rcat_be_bytes)

lemma word_rcat_inj_bytes16:
  "length bs = 2 \<Longrightarrow> be_bytes 2 (word_rcat bs :: u16) = bs"
  by (intro nth_equalityI bit_word_eqI)
    (auto simp: be_bytes_def bit_simps bit_word_rcat rev_nth)

lemma length_le_bytes16 [simp]: "length (le_bytes16 w) = 2"
  by (simp add: le_bytes16_def)

lemma le_bytes16_htons [simp]: "le_bytes16 (htons w) = be_bytes 2 w"
  using word_rcat_inj_bytes16 [of "rev (be_bytes 2 w)"]
  by (simp add: le_bytes16_def htons_def le_word16_def)

lemma ntohs_le_word16_be [simp]: "ntohs (le_word16 (be_bytes 2 w)) = w"
  by (simp add: htons_def [symmetric] ntohs_def word_rcat_be_bytes)

lemma ntohl_le_word_be [simp]: "ntohl (le_word (be_bytes 4 w)) = w"
  by (simp add: htonl_def [symmetric])

section \<open>Arrays of fixed-size elements\<close>

lemma length_concat_const: "(\<And>x. length (f x) = n) \<Longrightarrow> length (concat (map f xs)) = n * length xs"
  by (induction xs) auto

lemma take_drop_concat:
  "(\<And>x. length (f x) = n) \<Longrightarrow> i < length xs \<Longrightarrow> take n (drop (n * i) (concat (map f xs) @ ys)) = f (xs ! i)"
proof (induction xs arbitrary: i)
  case (Cons x xs)
  then show ?case by (cases i) auto
qed simp

section \<open>Blocks of bytes\<close>

text \<open>
  A block of memory as the list of its bytes, \<open>None\<close> for one that was not written; a string is read up to its terminator, and
  \<open>strcpy\<close> beyond the end of the block is undefined.
\<close>

fun read_string :: "char option list \<Rightarrow> string option" where
  "read_string (Some c # cs) = (if c = CHR 0x00 then Some [] else map_option (Cons c) (read_string cs))"
| "read_string _ = None"

lemma read_string_map [simp]:
  "CHR 0x00 \<notin> set s \<Longrightarrow> read_string (map Some s @ Some CHR 0x00 # r) = Some s"
  by (induction s) auto

definition strcpy :: "char option list \<Rightarrow> string \<Rightarrow> char option list option" where
  "strcpy block s =
     (if length s + 1 \<le> length block then Some (map Some (s @ [CHR 0x00]) @ drop (length s + 1) block) else None)"

lemma strcpy_read: "CHR 0x00 \<notin> set s \<Longrightarrow> length s < length block \<Longrightarrow> strcpy block s \<bind> read_string = Some s"
  by (simp add: strcpy_def)

end
