(* ===== verification/Base64.thy ===== *)
theory Base64
  imports Haggle_Prelude
begin

text \<open>
  The base64 codec of \<open>src/src/libhaggle/base64.c\<close> (the copy in \<open>src/src/utils/base64.c\<close> differs
  in \<open>restrict\<close> qualifiers only).  Buffers are lists of characters, an output buffer is the list
  of the characters written to it, a \<open>size_t\<close> that only counts the elements of a list is a
  \<^typ>\<open>nat\<close>, and the length computations that can wrap around are done on 64-bit words.
  The decoder is related to a specification that reads the text, newlines removed, in groups of
  four characters.
\<close>

section \<open>The encoder\<close>

definition to_uchar :: "char \<Rightarrow> int" where
  "to_uchar ch = of_char ch"

definition b64str :: string where
  "b64str = ''ABCDEFGHIJKLMNOPQRSTUVWXYZabcdefghijklmnopqrstuvwxyz0123456789+/''"

text \<open>The loop of \<open>base64_encode\<close>: the characters it writes and the space left in the output.\<close>

fun base64_encode_loop :: "string \<Rightarrow> nat \<Rightarrow> string \<times> nat" where
  "base64_encode_loop inp outlen =
     (if inp = [] \<or> outlen = 0 then ([], outlen)
      else
        let o1 = b64str ! nat (drop_bit 2 (to_uchar (inp ! 0)) AND 0x3f) in
        if outlen = 1 then ([o1], 0)
        else
          let inlen = length inp - 1;
              o2 = b64str ! nat ((push_bit 4 (to_uchar (inp ! 0))
                      + (if inlen \<noteq> 0 then drop_bit 4 (to_uchar (inp ! 1)) else 0)) AND 0x3f) in
          if outlen = 2 then ([o1, o2], 0)
          else
            let (o3, inlen) =
                  (if inlen \<noteq> 0
                   then let inlen = inlen - 1 in
                     (b64str ! nat ((push_bit 2 (to_uchar (inp ! 1))
                        + (if inlen \<noteq> 0 then drop_bit 6 (to_uchar (inp ! 2)) else 0)) AND 0x3f), inlen)
                   else (CHR ''='', inlen)) in
            if outlen = 3 then ([o1, o2, o3], 0)
            else
              let o4 = (if inlen \<noteq> 0 then b64str ! nat (to_uchar (inp ! 2) AND 0x3f) else CHR ''='') in
              if outlen = 4 then ([o1, o2, o3, o4], 0)
              else
                let (w, left) = base64_encode_loop (drop 3 inp) (outlen - 4) in
                ([o1, o2, o3, o4] @ w, left))"

declare base64_encode_loop.simps [simp del]

definition base64_encode :: "string \<Rightarrow> nat \<Rightarrow> string" where
  "base64_encode inp outlen =
     (let (w, left) = base64_encode_loop inp outlen in if left \<noteq> 0 then w @ [CHR 0x00] else w)"

definition BASE64_LENGTH :: "u64 \<Rightarrow> u64" where
  "BASE64_LENGTH inlen = ((inlen + 2) div 3) * 4"

text \<open>
  \<open>base64_encode_alloc\<close>: the contents of \<open>*out\<close> (\<open>None\<close> for \<open>NULL\<close>) and the returned size.  The
  flag says whether the \<open>malloc\<close> succeeds.
\<close>

definition base64_encode_alloc :: "bool \<Rightarrow> string \<Rightarrow> string option \<times> u64" where
  "base64_encode_alloc malloc_ok inp =
     (let inlen = of_nat (length inp);
          outlen = 1 + BASE64_LENGTH inlen in
      if inlen > outlen then (None, 0)
      else if \<not> malloc_ok then (None, outlen)
      else (Some (base64_encode inp (unat outlen)), outlen - 1))"

section \<open>The decoder\<close>

text \<open>The macro \<open>B64\<close> and the table \<open>b64\<close> it fills.\<close>

definition B64 :: "char \<Rightarrow> int" where
  "B64 c =
     (if c = CHR ''A'' then 0 else if c = CHR ''B'' then 1
      else if c = CHR ''C'' then 2 else if c = CHR ''D'' then 3
      else if c = CHR ''E'' then 4 else if c = CHR ''F'' then 5
      else if c = CHR ''G'' then 6 else if c = CHR ''H'' then 7
      else if c = CHR ''I'' then 8 else if c = CHR ''J'' then 9
      else if c = CHR ''K'' then 10 else if c = CHR ''L'' then 11
      else if c = CHR ''M'' then 12 else if c = CHR ''N'' then 13
      else if c = CHR ''O'' then 14 else if c = CHR ''P'' then 15
      else if c = CHR ''Q'' then 16 else if c = CHR ''R'' then 17
      else if c = CHR ''S'' then 18 else if c = CHR ''T'' then 19
      else if c = CHR ''U'' then 20 else if c = CHR ''V'' then 21
      else if c = CHR ''W'' then 22 else if c = CHR ''X'' then 23
      else if c = CHR ''Y'' then 24 else if c = CHR ''Z'' then 25
      else if c = CHR ''a'' then 26 else if c = CHR ''b'' then 27
      else if c = CHR ''c'' then 28 else if c = CHR ''d'' then 29
      else if c = CHR ''e'' then 30 else if c = CHR ''f'' then 31
      else if c = CHR ''g'' then 32 else if c = CHR ''h'' then 33
      else if c = CHR ''i'' then 34 else if c = CHR ''j'' then 35
      else if c = CHR ''k'' then 36 else if c = CHR ''l'' then 37
      else if c = CHR ''m'' then 38 else if c = CHR ''n'' then 39
      else if c = CHR ''o'' then 40 else if c = CHR ''p'' then 41
      else if c = CHR ''q'' then 42 else if c = CHR ''r'' then 43
      else if c = CHR ''s'' then 44 else if c = CHR ''t'' then 45
      else if c = CHR ''u'' then 46 else if c = CHR ''v'' then 47
      else if c = CHR ''w'' then 48 else if c = CHR ''x'' then 49
      else if c = CHR ''y'' then 50 else if c = CHR ''z'' then 51
      else if c = CHR ''0'' then 52 else if c = CHR ''1'' then 53
      else if c = CHR ''2'' then 54 else if c = CHR ''3'' then 55
      else if c = CHR ''4'' then 56 else if c = CHR ''5'' then 57
      else if c = CHR ''6'' then 58 else if c = CHR ''7'' then 59
      else if c = CHR ''8'' then 60 else if c = CHR ''9'' then 61
      else if c = CHR ''+'' then 62 else if c = CHR ''/'' then 63
      else -1)"

definition b64_table :: "int list" where
  "b64_table = map (\<lambda>n. B64 (char_of n)) [0::nat..<256]"

definition b64 :: "int \<Rightarrow> int" where
  "b64 n = b64_table ! nat n"

definition isbase64 :: "char \<Rightarrow> bool" where
  "isbase64 ch \<longleftrightarrow> 0 \<le> b64 (to_uchar ch)"

record base64_decode_context =
  ctx_i :: nat
  ctx_buf :: string

definition base64_decode_ctx_init :: "base64_decode_context \<Rightarrow> base64_decode_context" where
  "base64_decode_ctx_init ctx = ctx\<lparr>ctx_i := 0\<rparr>"

text \<open>The copying loop of \<open>get_4\<close>: newlines are skipped, the others go to the buffer.\<close>

fun get_4_copy :: "base64_decode_context \<Rightarrow> string \<Rightarrow> base64_decode_context \<times> string" where
  "get_4_copy ctx [] = (ctx, [])"
| "get_4_copy ctx (c # p) =
     (if c \<noteq> CHR 0x0A
      then let ctx = ctx\<lparr>ctx_buf := (ctx_buf ctx)[ctx_i ctx := c], ctx_i := ctx_i ctx + 1\<rparr> in
           if ctx_i ctx = 4 then (ctx, p) else get_4_copy ctx p
      else get_4_copy ctx p)"

text \<open>
  \<open>get_4\<close> returns the context, the characters reached through the returned pointer, the remaining
  input and \<open>*n_non_newline\<close>.  A context whose index lies outside its four-character buffer has
  not been initialised; using it is undefined.
\<close>

definition get_4 :: "base64_decode_context \<Rightarrow> string
    \<Rightarrow> (base64_decode_context \<times> string \<times> string \<times> nat) option" where
  "get_4 ctx inp =
     (if ctx_i ctx > 4 then None
      else
        let ctx = (if ctx_i ctx = 4 then ctx\<lparr>ctx_i := 0\<rparr> else ctx) in
        if ctx_i ctx = 0 \<and> 4 \<le> length inp \<and> CHR 0x0A \<notin> set (take 4 inp)
        then Some (ctx, inp, drop 4 inp, 4)
        else let (ctx, p) = get_4_copy ctx inp in Some (ctx, ctx_buf ctx, p, ctx_i ctx))"

text \<open>
  \<open>decode_4\<close> on the characters at \<open>in\<close>, of which \<open>inlen\<close> may be read: whether it succeeds, the
  characters it writes and the space left.
\<close>

definition decode_4 :: "string \<Rightarrow> nat \<Rightarrow> nat \<Rightarrow> bool \<times> string \<times> nat" where
  "decode_4 inp inlen outleft =
     (if inlen < 2 then (False, [], outleft)
      else if \<not> isbase64 (inp ! 0) \<or> \<not> isbase64 (inp ! 1) then (False, [], outleft)
      else
        let (out, outleft) =
              (if outleft \<noteq> 0
               then ([char_of (push_bit 2 (b64 (to_uchar (inp ! 0)))
                        OR drop_bit 4 (b64 (to_uchar (inp ! 1))))], outleft - 1)
               else ([], outleft)) in
        if inlen = 2 then (False, out, outleft)
        else if inp ! 2 = CHR ''='' then
          (if inlen \<noteq> 4 then (False, out, outleft)
           else if inp ! 3 \<noteq> CHR ''='' then (False, out, outleft)
           else (True, out, outleft))
        else if \<not> isbase64 (inp ! 2) then (False, out, outleft)
        else
          let (out, outleft) =
                (if outleft \<noteq> 0
                 then (out @ [char_of ((push_bit 4 (b64 (to_uchar (inp ! 1))) AND 0xf0)
                        OR drop_bit 2 (b64 (to_uchar (inp ! 2))))], outleft - 1)
                 else (out, outleft)) in
          if inlen = 3 then (False, out, outleft)
          else if inp ! 3 = CHR ''='' then
            (if inlen \<noteq> 4 then (False, out, outleft) else (True, out, outleft))
          else if \<not> isbase64 (inp ! 3) then (False, out, outleft)
          else
            let (out, outleft) =
                  (if outleft \<noteq> 0
                   then (out @ [char_of ((push_bit 6 (b64 (to_uchar (inp ! 2))) AND 0xc0)
                          OR b64 (to_uchar (inp ! 3)))], outleft - 1)
                   else (out, outleft)) in
            (True, out, outleft))"

text \<open>
  The inner loop of \<open>base64_decode\<close>: the remaining input, the output, the space left and
  \<open>outleft_save\<close> when \<open>decode_4\<close> fails.
\<close>

function decode_inner :: "string \<Rightarrow> string \<Rightarrow> nat \<Rightarrow> string \<times> string \<times> nat \<times> nat" where
  "decode_inner inp out outleft =
     (let (ok, w, left) = decode_4 inp (length inp) outleft in
      if ok then decode_inner (drop 4 inp) (out @ w) left
      else (inp, out @ w, left, outleft))"
  by pat_completeness auto

lemma decode_4_ok_length:
  assumes "decode_4 inp inlen outleft = (True, w, left)"
  shows "4 \<le> inlen"
  using assms by (auto simp: decode_4_def Let_def split: if_splits prod.splits)

termination decode_inner
proof (relation "measure (\<lambda>(inp, out, outleft). length inp)", goal_cases)
  case 1
  then show ?case by simp
next
  case (2 inp out outleft x ok y w left)
  then have "4 \<le> length inp"
    by (metis decode_4_ok_length)
  then show ?case by simp
qed

declare decode_inner.simps [simp del]

lemma decode_inner_length: "decode_inner inp out outleft = (inp', out', left, save) \<Longrightarrow> length inp' \<le> length inp"
proof (induction inp out outleft rule: decode_inner.induct)
  case (1 inp out outleft)
  obtain ok w l where d: "decode_4 inp (length inp) outleft = (ok, w, l)"
    by (metis prod_cases3)
  show ?case
  proof (cases ok)
    case True
    with "1.prems" d have "decode_inner (drop 4 inp) (out @ w) l = (inp', out', left, save)"
      by (simp add: decode_inner.simps [of inp])
    with "1.IH" d True have "length inp' \<le> length (drop 4 inp)" by auto
    then show ?thesis by simp
  next
    case False
    with "1.prems" d show ?thesis by (simp add: decode_inner.simps [of inp])
  qed
qed

lemma get_4_copy_length: "get_4_copy ctx inp = (ctx', p) \<Longrightarrow> length p \<le> length inp - 1"
  by (induction ctx inp rule: get_4_copy.induct) (fastforce simp: Let_def split: if_splits)+

lemma get_4_length: "get_4 ctx inp = Some (ctx', q, inp', n) \<Longrightarrow> length inp' \<le> length inp - 1"
  by (auto simp: get_4_def Let_def split: if_splits prod.splits dest: get_4_copy_length)

lemma get_4_copy_Nil_bound: "get_4 ctx [] = Some (ctx', q, inp', n) \<Longrightarrow> n < 4"
  by (auto simp: get_4_def Let_def split: if_splits)

text \<open>
  The outer loop: the context, the output, the space left and the final \<open>inlen\<close>, whose being 0
  is the result of \<open>base64_decode\<close>.
\<close>

function base64_decode_loop :: "bool \<Rightarrow> base64_decode_context \<Rightarrow> string \<Rightarrow> string \<Rightarrow> nat
    \<Rightarrow> (base64_decode_context \<times> string \<times> nat \<times> nat) option" where
  "base64_decode_loop flush_ctx ctx inp out outleft =
     (let (inp', out', outleft', save) =
            (if ctx_i ctx = 0 \<and> \<not> flush_ctx then decode_inner inp out outleft
             else (inp, out, outleft, outleft)) in
      if inp' = [] \<and> \<not> flush_ctx then Some (ctx, out', outleft', 0)
      else if inp' \<noteq> [] \<and> hd inp' = CHR 0x0A
      then base64_decode_loop flush_ctx ctx (tl inp') out' outleft'
      else
        let out' = take (length out' - (save - outleft')) out' in
        (case get_4 ctx inp' of
           None \<Rightarrow> None
         | Some (ctx', non_nl, rest, n) \<Rightarrow>
             if n = 0 \<or> (n < 4 \<and> \<not> flush_ctx) then Some (ctx', out', save, 0)
             else
               (let (ok, w, left) = decode_4 non_nl n save in
                if \<not> ok then Some (ctx', out' @ w, left, n)
                else base64_decode_loop flush_ctx ctx' rest (out' @ w) left)))"
  by pat_completeness auto
termination
proof (relation "measure (\<lambda>(fl, ctx, inp, out, outleft). length inp)", goal_cases)
  case 1
  then show ?case by simp
next
  case (2 fl ctx inp out outleft x inp' y out' z outleft' save)
  then have "length inp' \<le> length inp"
    by (auto split: if_splits dest: decode_inner_length [OF sym])
  with 2 show ?case by (cases inp') auto
next
  case (3 fl ctx inp out outleft x inp' y out' z outleft' save out'' x2 ctx' w non_nl v rest n u ok t ww left)
  then have len: "length inp' \<le> length inp"
    by (auto split: if_splits dest: decode_inner_length [OF sym])
  have n4: "4 \<le> n" using 3 by (metis decode_4_ok_length)
  have g: "get_4 ctx inp' = Some (ctx', non_nl, rest, n)" using 3 by simp
  have "inp' \<noteq> []" using g n4 get_4_copy_Nil_bound by fastforce
  moreover have "length rest \<le> length inp' - 1" using g by (rule get_4_length)
  ultimately have "length rest < length inp'" by (cases inp') auto
  with len show ?case by simp
qed

declare base64_decode_loop.simps [simp del]

text \<open>\<open>base64_decode\<close>: the context, the output and the returned flag.\<close>

definition base64_decode :: "base64_decode_context \<Rightarrow> string \<Rightarrow> nat
    \<Rightarrow> (base64_decode_context \<times> string \<times> bool) option" where
  "base64_decode ctx inp outlen =
     (let flush_ctx = (length inp = 0) in
      case base64_decode_loop flush_ctx ctx inp [] outlen of
        None \<Rightarrow> None
      | Some (ctx', out, outleft, inlen) \<Rightarrow> Some (ctx', take (outlen - outleft) out, inlen = 0))"

text \<open>
  \<open>base64_decode_alloc\<close>: the returned flag and the data stored through \<open>*out\<close> with its length
  (\<open>None\<close> for \<open>NULL\<close>).
\<close>

definition base64_decode_alloc :: "bool \<Rightarrow> base64_decode_context \<Rightarrow> string
    \<Rightarrow> (base64_decode_context \<times> bool \<times> string option) option" where
  "base64_decode_alloc malloc_ok ctx inp =
     (let needlen = 3 * (length inp div 4) + 2 in
      if \<not> malloc_ok then Some (ctx, True, None)
      else
        case base64_decode ctx inp needlen of
          None \<Rightarrow> None
        | Some (ctx', out, ok) \<Rightarrow>
            if \<not> ok then Some (ctx', False, None) else Some (ctx', True, Some out))"

section \<open>The specification of the text format\<close>

text \<open>The value of a group of four characters, by the arithmetic of RFC 3548.\<close>

definition decode_quad :: "char \<Rightarrow> char \<Rightarrow> char \<Rightarrow> char \<Rightarrow> string option" where
  "decode_quad a b c d =
     (let x = B64 a; y = B64 b; z = B64 c; w = B64 d;
          b0 = char_of (4 * x + y div 16);
          b1 = char_of (16 * (y mod 16) + z div 4);
          b2 = char_of (64 * (z mod 4) + w) in
      if x < 0 \<or> y < 0 then None
      else if c = CHR ''='' then (if d = CHR ''='' then Some [b0] else None)
      else if z < 0 then None
      else if d = CHR ''='' then Some [b0, b1]
      else if w < 0 then None
      else Some [b0, b1, b2])"

text \<open>The bytes of the full groups of a text without newlines, and the characters left over.\<close>

fun decode_text :: "string \<Rightarrow> (string \<times> string) option" where
  "decode_text (a # b # c # d # r) =
     (case decode_quad a b c d of
        None \<Rightarrow> None
      | Some w \<Rightarrow> map_option (\<lambda>(ws, rest). (w @ ws, rest)) (decode_text r))"
| "decode_text r = Some ([], r)"

text \<open>The text of a byte string.\<close>

fun encode_text :: "string \<Rightarrow> string" where
  "encode_text [] = []"
| "encode_text [a] =
     (let x = nat (of_char a) in
      [b64str ! (x div 4), b64str ! (16 * (x mod 4)), CHR ''='', CHR ''=''])"
| "encode_text [a, b] =
     (let x = nat (of_char a); y = nat (of_char b) in
      [b64str ! (x div 4), b64str ! (16 * (x mod 4) + y div 16), b64str ! (4 * (y mod 16)), CHR ''=''])"
| "encode_text (a # b # c # r) =
     (let x = nat (of_char a); y = nat (of_char b); z = nat (of_char c) in
      [b64str ! (x div 4), b64str ! (16 * (x mod 4) + y div 16),
       b64str ! (4 * (y mod 16) + z div 64), b64str ! (z mod 64)] @ encode_text r)"

definition no_newlines :: "string \<Rightarrow> string" where
  "no_newlines s = filter (\<lambda>c. c \<noteq> CHR 0x0A) s"

text \<open>The characters waiting in a context.\<close>

definition pending :: "base64_decode_context \<Rightarrow> string" where
  "pending ctx = (if ctx_i ctx = 4 then [] else take (ctx_i ctx) (ctx_buf ctx))"

definition wf_ctx :: "base64_decode_context \<Rightarrow> bool" where
  "wf_ctx ctx \<longleftrightarrow> ctx_i ctx \<le> 4 \<and> length (ctx_buf ctx) = 4"

section \<open>Bit arithmetic\<close>

lemma of_char_bounds [simp]: "0 \<le> (of_char c :: int)" "(of_char c :: int) < 256"
  by (metis of_nat_0_le_iff of_nat_of_char)
    (metis nat_of_char_less_256 of_nat_less_iff of_nat_numeral of_nat_of_char)

lemma and_63_eq: "(x::int) AND 63 = x mod 64"
  using take_bit_eq_mask [of 6 x] by (simp add: take_bit_eq_mod mask_eq_exp_minus_1)

lemma push_bit_or_add:
  fixes x y :: int
  assumes "0 \<le> y" "y < 2 ^ n"
  shows "push_bit n x OR y = push_bit n x + y"
proof (rule disjunctive_add [symmetric])
  fix m
  have "take_bit n y = y" using assms by (simp add: take_bit_int_eq_self)
  then have "bit y m \<Longrightarrow> m < n" by (metis bit_take_bit_iff)
  then show "\<not> bit (push_bit n x) m \<or> \<not> bit y m"
    by (auto simp: bit_push_bit_iff)
qed

lemma push_bit_and_mask:
  fixes x :: int
  shows "push_bit n x AND push_bit n (mask m) = push_bit n (x mod 2 ^ m)"
  by (simp add: take_bit_eq_mod flip: push_bit_and take_bit_eq_mask)

lemma byte_0_eq:
  assumes "0 \<le> y" "y < (64::int)"
  shows "push_bit 2 x OR drop_bit 4 y = 4 * x + y div 16"
proof -
  have "y div 16 < 4" "0 \<le> y div 16" using assms by auto
  then show ?thesis
    using push_bit_or_add [of "y div 16" 2 x] by (simp add: drop_bit_eq_div push_bit_eq_mult)
qed

lemma byte_1_eq:
  assumes "0 \<le> z" "z < (64::int)"
  shows "(push_bit 4 y AND 0xf0) OR drop_bit 2 z = 16 * (y mod 16) + z div 4"
proof -
  have m: "push_bit 4 y AND 0xf0 = push_bit 4 (y mod 16)"
    using push_bit_and_mask [of 4 y 4] by (simp add: mask_eq_exp_minus_1 push_bit_eq_mult)
  have "z div 4 < 16" "0 \<le> z div 4" using assms by auto
  then show ?thesis
    using push_bit_or_add [of "z div 4" 4 "y mod 16"]
    by (simp add: drop_bit_eq_div m) (simp add: push_bit_eq_mult)
qed

lemma byte_2_eq:
  assumes "0 \<le> w" "w < (64::int)"
  shows "(push_bit 6 z AND 0xc0) OR w = 64 * (z mod 4) + w"
proof -
  have m: "push_bit 6 z AND 0xc0 = push_bit 6 (z mod 4)"
    using push_bit_and_mask [of 6 z 2] by (simp add: mask_eq_exp_minus_1 push_bit_eq_mult)
  show ?thesis
    using assms push_bit_or_add [of w 6 "z mod 4"] by (simp add: m) (simp add: push_bit_eq_mult)
qed

section \<open>The alphabet\<close>

lemma B64_b64str_all: "\<forall>n \<in> set [0..<64]. B64 (b64str ! n) = int n \<and> b64str ! n \<noteq> CHR ''='' \<and> b64str ! n \<noteq> CHR 0x0A \<and> b64str ! n \<noteq> CHR 0x00"
  by (simp add: upt_rec B64_def b64str_def)

lemma B64_b64str [simp]: "n < 64 \<Longrightarrow> B64 (b64str ! n) = int n"
  and b64str_neq [simp]: "n < 64 \<Longrightarrow> b64str ! n \<noteq> CHR ''=''"  "n < 64 \<Longrightarrow> b64str ! n \<noteq> CHR 0x0A"
    "n < 64 \<Longrightarrow> b64str ! n \<noteq> CHR 0x00"
  using B64_b64str_all by auto

lemma B64_special [simp]: "B64 (CHR ''='') = -1" "B64 (CHR 0x0A) = -1"
  by (simp_all add: B64_def)

lemma B64_less [simp]: "B64 c < 64"
  by (simp add: B64_def)

lemma b64_to_uchar [simp]: "b64 (to_uchar c) = B64 c"
proof -
  have "nat (of_char c) < 256" by (simp add: nat_less_iff)
  moreover have "nat (of_char c) = of_char c" by (metis nat_int of_nat_of_char)
  ultimately show ?thesis
    by (simp add: b64_def b64_table_def to_uchar_def)
qed

lemma isbase64_iff: "isbase64 c \<longleftrightarrow> 0 \<le> B64 c"
  by (simp add: isbase64_def)

lemma length_b64str [simp]: "length b64str = 64"
  by (simp add: b64str_def)

lemma isbase64_alphabet: "isbase64 c \<longleftrightarrow> c \<in> set b64str"
proof
  assume "c \<in> set b64str"
  then obtain n where "n < 64" "c = b64str ! n"
    by (auto simp: in_set_conv_nth)
  then show "isbase64 c" by (simp add: isbase64_iff)
next
  assume "isbase64 c"
  then show "c \<in> set b64str"
    by (auto simp: isbase64_iff B64_def b64str_def split: if_splits)
qed

section \<open>The encoder writes the text of its input\<close>

lemma shift_mod_64:
  fixes x t m k :: nat
  assumes "t < k" "k * m = 64"
  shows "(int x * int k + int t) mod 64 = int (k * (x mod m) + t)"
proof -
  have "x mod m < m" using assms(2) by (cases m) auto
  then have "k * (x mod m) + t < k * Suc (x mod m)" "k * Suc (x mod m) \<le> 64"
    using assms by (auto simp del: mult_Suc_right simp flip: assms(2)) (simp add: assms(1))
  then have lt: "k * (x mod m) + t < 64" by linarith
  have "x * k + t = (x div m) * 64 + (k * (x mod m) + t)"
    using assms(2) by (metis add.assoc add_mult_distrib2 div_mult_mod_eq mult.assoc mult.commute)
  then have "(x * k + t) mod 64 = k * (x mod m) + t"
    using lt by (simp only: mod_mult_self3 mod_less)
  then show ?thesis by (metis of_nat_add of_nat_mult of_nat_numeral zmod_int)
qed

lemma of_char_int: obtains x :: nat where "of_char a = int x" "x < 256"
  by (metis nat_of_char_less_256 of_nat_of_char)

lemma enc_idx_1: "nat (drop_bit 2 (to_uchar a) AND 0x3f) = nat (of_char a) div 4"
proof -
  obtain x :: nat where x: "of_char a = int x" "x < 256" by (rule of_char_int)
  then have "0 \<le> int x div 4" "int x div 4 < 64" by auto
  then have "int x div 4 mod 64 = int x div 4" by (rule mod_pos_pos_trivial)
  then show ?thesis
    using x by (simp add: to_uchar_def and_63_eq drop_bit_eq_div nat_div_distrib)
qed

lemma enc_idx_2:
  "nat ((push_bit 4 (to_uchar a) + drop_bit 4 (to_uchar b)) AND 0x3f)
     = 16 * (nat (of_char a) mod 4) + nat (of_char b) div 16"
proof -
  obtain x y where xy: "of_char a = int x" "x < 256" "of_char b = int y" "y < 256" by (metis of_char_int)
  then have "(int x * 16 + int (y div 16)) mod 64 = int (16 * (x mod 4) + y div 16)"
    using shift_mod_64 [of "y div 16" 16 4 x] by simp
  then show ?thesis
    using xy by (simp add: to_uchar_def and_63_eq drop_bit_eq_div push_bit_eq_mult nat_eq_iff of_nat_div)
qed

lemma enc_idx_2': "nat ((push_bit 4 (to_uchar a) + 0) AND 0x3f) = 16 * (nat (of_char a) mod 4)"
  using enc_idx_2 [of a "CHR 0x00"] by (simp add: to_uchar_def)

lemma enc_idx_3:
  "nat ((push_bit 2 (to_uchar a) + drop_bit 6 (to_uchar b)) AND 0x3f)
     = 4 * (nat (of_char a) mod 16) + nat (of_char b) div 64"
proof -
  obtain x y where xy: "of_char a = int x" "x < 256" "of_char b = int y" "y < 256" by (metis of_char_int)
  then have "(int x * 4 + int (y div 64)) mod 64 = int (4 * (x mod 16) + y div 64)"
    using shift_mod_64 [of "y div 64" 4 16 x] by simp
  then show ?thesis
    using xy by (simp add: to_uchar_def and_63_eq drop_bit_eq_div push_bit_eq_mult nat_eq_iff of_nat_div)
qed

lemma enc_idx_3': "nat ((push_bit 2 (to_uchar a) + 0) AND 0x3f) = 4 * (nat (of_char a) mod 16)"
  using enc_idx_3 [of a "CHR 0x00"] by (simp add: to_uchar_def)

lemma enc_idx_4: "nat (to_uchar a AND 0x3f) = nat (of_char a) mod 64"
  by (simp add: to_uchar_def and_63_eq nat_mod_distrib)

lemmas enc_idx = enc_idx_1 enc_idx_2 enc_idx_2' enc_idx_3 enc_idx_3' enc_idx_4

lemma base64_encode_loop_eq:
  "base64_encode_loop inp outlen = (take outlen (encode_text inp), outlen - length (encode_text inp))"
proof (induction inp arbitrary: outlen rule: encode_text.induct)
  case 1
  show ?case by (simp add: base64_encode_loop.simps)
next
  case (2 a)
  show ?case by (subst base64_encode_loop.simps)
      (auto simp: Let_def enc_idx enc_idx_2' [simplified] base64_encode_loop.simps [of "[]"] take_Cons split: nat.splits)
next
  case (3 a b)
  show ?case by (subst base64_encode_loop.simps)
      (auto simp: Let_def enc_idx enc_idx_3' [simplified] base64_encode_loop.simps [of "[]"] take_Cons split: nat.splits)
next
  case (4 a b c r)
  show ?case by (subst base64_encode_loop.simps)
      (auto simp: Let_def enc_idx 4 [simplified] take_Cons split: nat.splits)
qed

lemma decode_quad_Some_length: "decode_quad a b c d = Some w \<Longrightarrow> length w \<le> 3"
  by (auto simp: decode_quad_def Let_def split: if_splits)

lemma decode_4_quad:
  assumes "decode_quad a b c d = Some w"
  shows "decode_4 (a # b # c # d # r) 4 outleft = (True, take outleft w, outleft - length w)"
  using assms
  by (auto simp: decode_quad_def decode_4_def Let_def isbase64_iff byte_0_eq byte_1_eq byte_2_eq not_less take_Cons
      split: if_splits nat.splits)

lemma decode_4_quad_None:
  assumes "decode_quad a b c d = None"
  shows "\<not> fst (decode_4 (a # b # c # d # r) n outleft)"
  using assms
  by (auto simp: decode_quad_def decode_4_def Let_def isbase64_iff not_less not_le split: if_splits)

lemma decode_4_True_quad:
  assumes "decode_4 inp n outleft = (True, w, left)" "4 \<le> n" "4 \<le> length inp"
  obtains a b c d r where "inp = a # b # c # d # r" "decode_4 inp 4 outleft = (True, w, left)"
    "decode_quad a b c d \<noteq> None"
proof -
  obtain a b c d r where inp: "inp = a # b # c # d # r"
    using assms(3) by (auto simp: numeral_eq_Suc Suc_le_length_iff)
  have "decode_4 inp 4 outleft = (True, w, left)"
    using assms(1,2) unfolding inp
    by (auto simp: decode_4_def Let_def split: if_splits prod.splits)
  moreover have "decode_quad a b c d \<noteq> None"
    using assms(1) decode_4_quad_None [of a b c d r n outleft] inp by fastforce
  ultimately show ?thesis using that inp by blast
qed

lemma decode_4_short: "n < 4 \<Longrightarrow> \<not> fst (decode_4 inp n outleft)"
  by (auto simp: decode_4_def Let_def split: prod.splits)

lemma decode_4_left: "decode_4 inp n outleft = (ok, w, left) \<Longrightarrow> left + length w = outleft"
  by (auto simp: decode_4_def Let_def split: if_splits prod.splits)

lemma decode_4_newline: "decode_4 (CHR 0x0A # r) n outleft = (False, [], outleft)"
  by (simp add: decode_4_def isbase64_iff)
section \<open>The decoder implements the specification\<close>

lemma no_newlines_simps [simp]:
  "no_newlines [] = []"
  "no_newlines (c # s) = (if c = CHR 0x0A then no_newlines s else c # no_newlines s)"
  "no_newlines (s @ t) = no_newlines s @ no_newlines t"
  by (simp_all add: no_newlines_def)

lemma no_newlines_id [simp]: "CHR 0x0A \<notin> set s \<Longrightarrow> no_newlines s = s"
  by (auto simp: no_newlines_def filter_id_conv)

lemma decode_4_empty: "decode_4 inp 0 outleft = (False, [], outleft)"
  by (simp add: decode_4_def)

lemma decode_text_short: "length s < 4 \<Longrightarrow> decode_text s = Some ([], s)"
  by (cases s rule: decode_text.cases) auto

lemma decode_quad_no_newline: "decode_quad a b c d \<noteq> None \<Longrightarrow> CHR 0x0A \<notin> {a, b, c, d}"
  by (auto simp: decode_quad_def Let_def split: if_splits)

text \<open>What the inner loop has done when it stops.\<close>

lemma decode_inner_spec:
  assumes "decode_inner inp out outleft = (inp', out', left', save)"
  shows "\<exists>ws w. decode_text (no_newlines inp) = map_option (\<lambda>(v, r). (ws @ v, r)) (decode_text (no_newlines inp'))
      \<and> out' = out @ take outleft ws @ w \<and> left' + length w = save \<and> save = outleft - length ws
      \<and> (inp' = [] \<or> hd inp' = CHR 0x0A \<longrightarrow> w = [])"
  using assms
proof (induction inp out outleft rule: decode_inner.induct)
  case (1 inp out outleft)
  obtain ok w left where d: "decode_4 inp (length inp) outleft = (ok, w, left)"
    by (metis prod_cases3)
  show ?case
  proof (cases ok)
    case True
    have d': "decode_4 inp (length inp) outleft = (True, w, left)" using d True by simp
    have "4 \<le> length inp" using d' by (rule decode_4_ok_length)
    with d' obtain a b c e r where inp: "inp = a # b # c # e # r"
      and d4: "decode_4 inp 4 outleft = (True, w, left)" and q: "decode_quad a b c e \<noteq> None"
      by (metis decode_4_True_quad order_refl)
    obtain v where v: "decode_quad a b c e = Some v" using q by blast
    have w: "w = take outleft v" "left = outleft - length v"
      using decode_4_quad [OF v, of r outleft] d4 inp by auto
    have nn: "no_newlines inp = [a, b, c, e] @ no_newlines r"
      using decode_quad_no_newline [OF q] inp by auto
    have "decode_inner (drop 4 inp) (out @ w) left = (inp', out', left', save)"
      using "1.prems" d' by (simp add: decode_inner.simps [of inp])
    then have rec: "decode_inner r (out @ w) left = (inp', out', left', save)"
      by (simp add: inp)
    obtain ws w' where IH: "decode_text (no_newlines r)
          = map_option (\<lambda>(v, r). (ws @ v, r)) (decode_text (no_newlines inp'))"
      "out' = (out @ w) @ take left ws @ w'" "left' + length w' = save" "save = left - length ws"
      "inp' = [] \<or> hd inp' = CHR 0x0A \<longrightarrow> w' = []"
      using "1.IH" [of "(ok, w, left)" ok "(w, left)" w left] d True rec inp by auto
    have "decode_text (no_newlines inp)
        = map_option (\<lambda>(u, r). ((v @ ws) @ u, r)) (decode_text (no_newlines inp'))"
      using IH(1) v by (simp add: nn option.map_comp comp_def case_prod_unfold)
    moreover have "out' = out @ take outleft (v @ ws) @ w'" using IH(2) w by simp
    moreover have "save = outleft - length (v @ ws)" using IH(4) w by simp
    ultimately show ?thesis using IH(3,5) by blast
  next
    case False
    then have r: "inp' = inp" "out' = out @ w" "left' = left" "save = outleft"
      using "1.prems" d by (simp_all add: decode_inner.simps [of inp])
    have "inp = [] \<or> hd inp = CHR 0x0A \<longrightarrow> w = []"
      using d by (cases inp) (auto simp: decode_4_newline decode_4_empty)
    then show ?thesis
      using r decode_4_left [OF d]
      by (intro exI [of _ "[]"] exI [of _ w]) (auto simp: option.map_ident case_prod_unfold)
  qed
qed

lemma take_Suc_list_update: "i < length xs \<Longrightarrow> take (Suc i) (xs[i := c]) = take i xs @ [c]"
  by (simp add: take_Suc_conv_app_nth)

lemma get_4_copy_spec:
  assumes "get_4_copy ctx inp = (ctx', p)" "ctx_i ctx < 4" "length (ctx_buf ctx) = 4"
  shows "length (ctx_buf ctx') = 4 \<and> ctx_i ctx' \<le> 4
      \<and> take (ctx_i ctx') (ctx_buf ctx') @ no_newlines p = take (ctx_i ctx) (ctx_buf ctx) @ no_newlines inp
      \<and> (ctx_i ctx' < 4 \<longrightarrow> p = [])"
  using assms
proof (induction ctx inp rule: get_4_copy.induct)
  case (1 ctx)
  then show ?case by auto
next
  case (2 ctx c inp)
  show ?case
  proof (cases "c = CHR 0x0A")
    case True
    with 2 show ?thesis by simp
  next
    case False
    let ?ctx = "ctx\<lparr>ctx_buf := (ctx_buf ctx)[ctx_i ctx := c], ctx_i := ctx_i ctx + 1\<rparr>"
    have t: "take (ctx_i ?ctx) (ctx_buf ?ctx) = take (ctx_i ctx) (ctx_buf ctx) @ [c]"
      using 2(4,5) by (simp add: take_Suc_list_update)
    show ?thesis
    proof (cases "ctx_i ?ctx = 4")
      case True
      then have e: "ctx' = ?ctx" "p = inp" using 2(3) False by (simp_all add: Let_def)
      show ?thesis using e t True 2(5) False by simp
    next
      case ne: False
      then have "get_4_copy ?ctx inp = (ctx', p)" "ctx_i ?ctx < 4" "length (ctx_buf ?ctx) = 4"
        using 2(3,4,5) False by (simp_all add: Let_def)
      then show ?thesis using 2(1) [OF False refl ne] t False by simp
    qed
  qed
qed

lemma get_4_spec:
  assumes "wf_ctx ctx"
  obtains ctx' q rest n where "get_4 ctx inp = Some (ctx', q, rest, n)" "wf_ctx ctx'" "n \<le> 4"
    "n < 4 \<longrightarrow> rest = [] \<and> pending ctx' = pending ctx @ no_newlines inp \<and> length (pending ctx') = n"
    "n = 4 \<longrightarrow> (\<exists>a b c d r. q = a # b # c # d # r
       \<and> pending ctx @ no_newlines inp = a # b # c # d # no_newlines rest \<and> pending ctx' = [])"
proof -
  define ctx1 where "ctx1 = (if ctx_i ctx = 4 then ctx\<lparr>ctx_i := 0\<rparr> else ctx)"
  have c1: "ctx_i ctx1 < 4" "length (ctx_buf ctx1) = 4" "pending ctx = take (ctx_i ctx1) (ctx_buf ctx1)"
    using assms by (auto simp: ctx1_def wf_ctx_def pending_def)
  show ?thesis
  proof (cases "ctx_i ctx1 = 0 \<and> 4 \<le> length inp \<and> CHR 0x0A \<notin> set (take 4 inp)")
    case True
    then obtain a b c d r where inp: "inp = a # b # c # d # r"
      by (auto simp: numeral_eq_Suc Suc_le_length_iff)
    have "get_4 ctx inp = Some (ctx1, inp, drop 4 inp, 4)"
      using assms True by (simp add: get_4_def Let_def wf_ctx_def flip: ctx1_def)
    moreover have "no_newlines inp = a # b # c # d # no_newlines r" using True inp by auto
    ultimately show ?thesis
      using True c1 inp by (intro that [of ctx1 inp "drop 4 inp" 4]) (auto simp: wf_ctx_def pending_def)
  next
    case False
    obtain ctx' p where g: "get_4_copy ctx1 inp = (ctx', p)" by fastforce
    note sp = get_4_copy_spec [OF g c1(1,2)]
    have r: "get_4 ctx inp = Some (ctx', ctx_buf ctx', p, ctx_i ctx')"
      using assms False g by (auto simp: get_4_def Let_def wf_ctx_def simp flip: ctx1_def)
    show ?thesis
    proof (rule that [OF r])
      show "wf_ctx ctx'" "ctx_i ctx' \<le> 4" using sp by (auto simp: wf_ctx_def)
      show "ctx_i ctx' < 4 \<longrightarrow> p = [] \<and> pending ctx' = pending ctx @ no_newlines inp \<and> length (pending ctx') = ctx_i ctx'"
        using sp c1 by (auto simp: pending_def)
      show "ctx_i ctx' = 4 \<longrightarrow> (\<exists>a b c d r. ctx_buf ctx' = a # b # c # d # r
         \<and> pending ctx @ no_newlines inp = a # b # c # d # no_newlines p \<and> pending ctx' = [])"
      proof
        assume i4: "ctx_i ctx' = 4"
        obtain a b c d where "ctx_buf ctx' = [a, b, c, d]"
          using sp by (auto simp: numeral_eq_Suc length_Suc_conv)
        then show "\<exists>a b c d r. ctx_buf ctx' = a # b # c # d # r
         \<and> pending ctx @ no_newlines inp = a # b # c # d # no_newlines p \<and> pending ctx' = []"
          using sp i4 c1(3) by (auto simp: pending_def)
      qed
    qed
  qed
qed

lemma decode_text_group:
  "decode_text (a # b # c # d # s) = None \<longleftrightarrow>
     decode_quad a b c d = None \<or> decode_text s = None"
  by (auto split: option.splits)

text \<open>
  One pass of the outer loop: it stops with the context holding the rest of the text, it meets a
  bad group, or it goes on with the rest of the input after a prefix of the bytes.
\<close>

text \<open>The inner loop, or its being skipped when the context holds characters.\<close>

lemma decode_inner_or_skip:
  assumes "(if ctx_i ctx = 0 then decode_inner inp out outleft else (inp, out, outleft, outleft)) = (inp', out', left', save)"
  shows "length inp' \<le> length inp"
    and "\<exists>ws w. decode_text (pending ctx @ no_newlines inp)
        = map_option (\<lambda>(v, r). (ws @ v, r)) (decode_text (pending ctx @ no_newlines inp'))
      \<and> out' = out @ take outleft ws @ w \<and> left' + length w = save \<and> save = outleft - length ws
      \<and> (inp' = [] \<or> hd inp' = CHR 0x0A \<longrightarrow> w = [])"
proof -
  show "length inp' \<le> length inp" using assms decode_inner_length by (auto split: if_splits)
  show "\<exists>ws w. decode_text (pending ctx @ no_newlines inp)
        = map_option (\<lambda>(v, r). (ws @ v, r)) (decode_text (pending ctx @ no_newlines inp'))
      \<and> out' = out @ take outleft ws @ w \<and> left' + length w = save \<and> save = outleft - length ws
      \<and> (inp' = [] \<or> hd inp' = CHR 0x0A \<longrightarrow> w = [])"
  proof (cases "ctx_i ctx = 0")
    case True
    then show ?thesis
      using decode_inner_spec [of inp out outleft inp' out' left' save] assms by (simp add: pending_def)
  next
    case False
    then show ?thesis
      using assms by (intro exI [of _ "[]"]) (auto simp: option.map_ident case_prod_unfold)
  qed
qed

text \<open>What \<open>get_4\<close> and \<open>decode_4\<close> do with the next group of characters.\<close>

lemma get_4_decode:
  assumes wf: "wf_ctx ctx" and "inp \<noteq> []"
  obtains
    (short) ctx' q rest n where "get_4 ctx inp = Some (ctx', q, rest, n)" "wf_ctx ctx'" "n < 4"
      "decode_text (pending ctx @ no_newlines inp) = Some ([], pending ctx')"
  | (invalid) ctx' q rest where "get_4 ctx inp = Some (ctx', q, rest, 4)" "wf_ctx ctx'"
      "decode_text (pending ctx @ no_newlines inp) = None" "\<And>save. \<exists>w l. decode_4 q 4 save = (False, w, l)"
  | (group) ctx' q rest v where "get_4 ctx inp = Some (ctx', q, rest, 4)" "wf_ctx ctx'" "length rest < length inp"
      "decode_text (pending ctx @ no_newlines inp)
         = map_option (\<lambda>(u, r). (v @ u, r)) (decode_text (pending ctx' @ no_newlines rest))"
      "\<And>save. decode_4 q 4 save = (True, take save v, save - length v)"
proof -
  obtain ctx' q rest n where g: "get_4 ctx inp = Some (ctx', q, rest, n)" "wf_ctx ctx'" "n \<le> 4"
    and lt: "n < 4 \<longrightarrow> rest = [] \<and> pending ctx' = pending ctx @ no_newlines inp \<and> length (pending ctx') = n"
    and eq: "n = 4 \<longrightarrow> (\<exists>a b c d r. q = a # b # c # d # r
       \<and> pending ctx @ no_newlines inp = a # b # c # d # no_newlines rest \<and> pending ctx' = [])"
    by (rule get_4_spec [OF wf, of inp]) (rule that, assumption+)
  show thesis
  proof (cases "n < 4")
    case True
    then have "pending ctx @ no_newlines inp = pending ctx'" "length (pending ctx') < 4" using lt by auto
    then have "decode_text (pending ctx @ no_newlines inp) = Some ([], pending ctx')" by (simp only: decode_text_short)
    then show thesis using short g(1,2) True by blast
  next
    case False
    then obtain a b c d r where q: "q = a # b # c # d # r" "n = 4"
      and p: "pending ctx @ no_newlines inp = a # b # c # d # no_newlines rest" "pending ctx' = []"
      using eq g(3) by auto
    show thesis
    proof (cases "decode_quad a b c d")
      case None
      then have "\<exists>w l. decode_4 q 4 save = (False, w, l)" for save
        using decode_4_quad_None [OF None] q(1) by (metis fst_conv surj_pair)
      then show thesis using invalid g(1,2) q(2) p(1) None by simp
    next
      case (Some v)
      have "length rest < length inp" using get_4_length [OF g(1)] assms(2) by (cases inp) auto
      then show thesis
        using group [of ctx' q rest v] g(1,2) q p Some decode_4_quad [OF Some] by simp
    qed
  qed
qed

lemma decode_loop_step:
  fixes ctx inp out outleft
  assumes wf: "wf_ctx ctx"
  defines "s \<equiv> pending ctx @ no_newlines inp"
  obtains
    (stop) ctx' ws rest where "decode_text s = Some (ws, rest)" "wf_ctx ctx'" "pending ctx' = rest"
      "base64_decode_loop False ctx inp out outleft
         = Some (ctx', out @ take outleft ws, outleft - length ws, 0)"
  | (bad) ctx' out' left' where "decode_text s = None" "wf_ctx ctx'"
      "base64_decode_loop False ctx inp out outleft = Some (ctx', out', left', 4)"
  | (more) ctx' rest ws where "wf_ctx ctx'" "length rest < length inp"
      "decode_text s = map_option (\<lambda>(v, r). (ws @ v, r)) (decode_text (pending ctx' @ no_newlines rest))"
      "base64_decode_loop False ctx inp out outleft
         = base64_decode_loop False ctx' rest (out @ take outleft ws) (outleft - length ws)"
proof -
  obtain inp' out' left' save where
    i: "(if ctx_i ctx = 0 then decode_inner inp out outleft else (inp, out, outleft, outleft))
          = (inp', out', left', save)"
    by (metis prod_cases4)
  note len = decode_inner_or_skip(1) [OF i]
  obtain ws w where ws: "decode_text s = map_option (\<lambda>(v, r). (ws @ v, r)) (decode_text (pending ctx @ no_newlines inp'))"
      "out' = out @ take outleft ws @ w" "left' + length w = save" "save = outleft - length ws"
      "inp' = [] \<or> hd inp' = CHR 0x0A \<longrightarrow> w = []"
    using decode_inner_or_skip(2) [OF i] unfolding s_def by blast
  have kept_out: "take (length out' - (save - left')) out' = out @ take outleft ws"
  proof -
    have "length out' - (save - left') = length (out @ take outleft ws)" using ws(2,3) by simp
    then show ?thesis using ws(2) by (metis append.assoc append_eq_conv_conj)
  qed
  have unfold: "base64_decode_loop False ctx inp out outleft =
     (if inp' = [] then Some (ctx, out', left', 0)
      else if hd inp' = CHR 0x0A then base64_decode_loop False ctx (tl inp') out' left'
      else
        (case get_4 ctx inp' of
           None \<Rightarrow> None
         | Some (ctx', non_nl, rest, n) \<Rightarrow>
             if n = 0 \<or> (n < 4 \<and> \<not> False) then Some (ctx', out @ take outleft ws, save, 0)
             else
               (let (ok, w, left) = decode_4 non_nl n save in
                if \<not> ok then Some (ctx', (out @ take outleft ws) @ w, left, n)
                else base64_decode_loop False ctx' rest ((out @ take outleft ws) @ w) left)))"
    using i kept_out by (subst base64_decode_loop.simps) (simp add: Let_def)
  consider (nil) "inp' = []" | (nl) r where "inp' = CHR 0x0A # r" | (grp) "inp' \<noteq> []" "hd inp' \<noteq> CHR 0x0A"
    by (cases inp') auto
  then show ?thesis
  proof cases
    case nil
    have "length (pending ctx) < 4" using wf by (auto simp: pending_def wf_ctx_def)
    then have "decode_text (pending ctx) = Some ([], pending ctx)" by (rule decode_text_short)
    then show ?thesis
      using nil ws wf unfold by (intro stop [of ws "pending ctx" ctx]) auto
  next
    case nl
    then show ?thesis
      using ws wf unfold len by (intro more [of ctx r ws]) auto
  next
    case grp
    from wf grp(1) show ?thesis
    proof (cases rule: get_4_decode)
      case (short ctx' q rest n)
      then show ?thesis using ws unfold grp by (intro stop [of ws "pending ctx'" ctx']) auto
    next
      case (invalid ctx' q rest)
      obtain w' l' where "decode_4 q 4 save = (False, w', l')" using invalid(4) by blast
      then show ?thesis using invalid ws(1) unfold grp by (intro bad [of ctx']) auto
    next
      case (group ctx' q rest v)
      have "decode_text s = map_option (\<lambda>(u, r). ((ws @ v) @ u, r)) (decode_text (pending ctx' @ no_newlines rest))"
        using ws(1) group(4) by (simp add: option.map_comp comp_def case_prod_unfold)
      then show ?thesis
        using group unfold grp ws(4) len by (intro more [of ctx' rest "ws @ v"]) auto
    qed
  qed
qed

theorem base64_decode_loop_spec:
  assumes "wf_ctx ctx"
  shows "case decode_text (pending ctx @ no_newlines inp) of
      Some (ws, rest) \<Rightarrow> \<exists>ctx'. base64_decode_loop False ctx inp out outleft
          = Some (ctx', out @ take outleft ws, outleft - length ws, 0)
          \<and> wf_ctx ctx' \<and> pending ctx' = rest
    | None \<Rightarrow> \<exists>ctx' out' left'. base64_decode_loop False ctx inp out outleft = Some (ctx', out', left', 4)
          \<and> wf_ctx ctx'"
  using assms
proof (induction inp arbitrary: ctx out outleft rule: length_induct)
  case (1 inp)
  show ?case
  proof (cases rule: decode_loop_step [OF "1.prems", of inp out outleft, case_names stop bad more])
    case (stop ctx' ws rest)
    then show ?thesis by auto
  next
    case (bad ctx' out' left')
    then show ?thesis by auto
  next
    case (more ctx' rest ws)
    show ?thesis
      using "1.IH" [rule_format, OF more(2,1), of "out @ take outleft ws" "outleft - length ws"]
      unfolding more(3,4) by (auto split: option.splits)
  qed
qed

lemma wf_ctx_init: "length (ctx_buf ctx) = 4 \<Longrightarrow> wf_ctx (base64_decode_ctx_init ctx)"
  and pending_init [simp]: "pending (base64_decode_ctx_init ctx) = []"
  by (simp_all add: wf_ctx_def base64_decode_ctx_init_def pending_def)

text \<open>\<open>base64_decode\<close> on a non-empty input, in terms of the specification.\<close>

lemma base64_decode_Some:
  assumes "wf_ctx ctx" "inp \<noteq> []" "decode_text (pending ctx @ no_newlines inp) = Some (ws, rest)"
  shows "\<exists>ctx'. base64_decode ctx inp outlen = Some (ctx', take outlen ws, True)
      \<and> wf_ctx ctx' \<and> pending ctx' = rest"
proof -
  obtain ctx' where "base64_decode_loop False ctx inp [] outlen
        = Some (ctx', take outlen ws, outlen - length ws, 0)" "wf_ctx ctx'" "pending ctx' = rest"
    using base64_decode_loop_spec [OF assms(1), of inp "[]" outlen] assms(3) by auto
  moreover have "take (outlen - (outlen - length ws)) (take outlen ws) = take outlen ws"
    by (cases "outlen \<le> length ws") auto
  ultimately show ?thesis using assms(2) by (auto simp: base64_decode_def)
qed

lemma base64_decode_None:
  assumes "wf_ctx ctx" "inp \<noteq> []" "decode_text (pending ctx @ no_newlines inp) = None"
  shows "\<exists>ctx' out. base64_decode ctx inp outlen = Some (ctx', out, False) \<and> wf_ctx ctx'"
  using base64_decode_loop_spec [OF assms(1), of inp "[]" outlen] assms(2,3)
  by (auto simp: base64_decode_def)

text \<open>An empty input flushes: it succeeds exactly when nothing is pending.\<close>

lemma base64_decode_flush:
  assumes "wf_ctx ctx"
  shows "\<exists>ctx' out. base64_decode ctx [] outlen = Some (ctx', out, pending ctx = [])
      \<and> (pending ctx = [] \<longrightarrow> out = [])"
proof -
  obtain ctx' q rest n where g: "get_4 ctx [] = Some (ctx', q, rest, n)" "n \<le> 4"
    and lt: "n < 4 \<longrightarrow> rest = [] \<and> pending ctx' = pending ctx @ no_newlines [] \<and> length (pending ctx') = n"
    by (rule get_4_spec [OF assms, of "[]"]) (rule that, assumption+)
  have n: "n < 4" using g(1) by (rule get_4_copy_Nil_bound)
  then have p: "length (pending ctx) = n" using lt by auto
  obtain w l where "decode_4 q n outlen = (False, w, l)"
    using decode_4_short [OF n] by (metis fst_conv surj_pair)
  then have "base64_decode_loop True ctx [] [] outlen
      = (if n = 0 then Some (ctx', [], outlen, 0) else Some (ctx', w, l, n))"
    using g(1) n by (subst base64_decode_loop.simps) (simp add: Let_def)
  then show ?thesis using p by (auto simp: base64_decode_def)
qed

lemma decode_text_append:
  assumes "decode_text s = Some (ws, rest)"
  shows "decode_text (s @ t) = map_option (\<lambda>(v, r). (ws @ v, r)) (decode_text (rest @ t))"
  using assms
proof (induction s arbitrary: ws rest rule: decode_text.induct)
  case (1 a b c d r)
  then obtain w ws' where "decode_quad a b c d = Some w" "decode_text r = Some (ws', rest)" "ws = w @ ws'"
    by (auto split: option.splits)
  with "1.IH" show ?case by (simp add: option.map_comp comp_def case_prod_unfold)
qed (auto simp: option.map_ident case_prod_unfold)

lemma decode_text_append_None: "decode_text s = None \<Longrightarrow> decode_text (s @ t) = None"
  by (induction s rule: decode_text.induct) (auto split: option.splits)

lemma decode_text_length: "decode_text s = Some (ws, rest) \<Longrightarrow> length ws \<le> 3 * (length s div 4)"
proof (induction s arbitrary: ws rest rule: decode_text.induct)
  case (1 a b c d r)
  then obtain w ws' where w: "decode_quad a b c d = Some w" "decode_text r = Some (ws', rest)" "ws = w @ ws'"
    by (auto split: option.splits)
  then have "length ws' \<le> 3 * (length r div 4)" using "1.IH" by blast
  moreover have "length w \<le> 3" using w(1) by (rule decode_quad_Some_length)
  moreover have "(4 + length r) div 4 = Suc (length r div 4)" by simp
  ultimately show ?case using w(3) by simp
qed auto

lemma length_no_newlines: "length (no_newlines s) \<le> length s"
  by (simp add: no_newlines_def)

text \<open>A round trip through the text of a byte string.\<close>

lemma decode_quad_values:
  assumes "n0 < 64" "n1 < 64"
  shows "decode_quad (b64str ! n0) (b64str ! n1) (CHR ''='') (CHR ''='') = Some [char_of (4 * n0 + n1 div 16)]"
    and "n2 < 64 \<Longrightarrow> decode_quad (b64str ! n0) (b64str ! n1) (b64str ! n2) (CHR ''='')
      = Some [char_of (4 * n0 + n1 div 16), char_of (16 * (n1 mod 16) + n2 div 4)]"
    and "n2 < 64 \<Longrightarrow> n3 < 64 \<Longrightarrow> decode_quad (b64str ! n0) (b64str ! n1) (b64str ! n2) (b64str ! n3)
      = Some [char_of (4 * n0 + n1 div 16), char_of (16 * (n1 mod 16) + n2 div 4), char_of (64 * (n2 mod 4) + n3)]"
proof -
  have c: "char_of (int n) = (char_of n :: char)" for n :: nat
    by (metis char_of_nat of_nat_of_char)
  show "decode_quad (b64str ! n0) (b64str ! n1) (CHR ''='') (CHR ''='') = Some [char_of (4 * n0 + n1 div 16)]"
    using assms c [of "4 * n0 + n1 div 16"] by (simp add: decode_quad_def Let_def of_nat_div)
  show "n2 < 64 \<Longrightarrow> decode_quad (b64str ! n0) (b64str ! n1) (b64str ! n2) (CHR ''='')
      = Some [char_of (4 * n0 + n1 div 16), char_of (16 * (n1 mod 16) + n2 div 4)]"
    using assms c [of "4 * n0 + n1 div 16"] c [of "16 * (n1 mod 16) + n2 div 4"]
    by (simp add: decode_quad_def Let_def of_nat_div of_nat_mod)
  show "n2 < 64 \<Longrightarrow> n3 < 64 \<Longrightarrow> decode_quad (b64str ! n0) (b64str ! n1) (b64str ! n2) (b64str ! n3)
      = Some [char_of (4 * n0 + n1 div 16), char_of (16 * (n1 mod 16) + n2 div 4), char_of (64 * (n2 mod 4) + n3)]"
    using assms c [of "4 * n0 + n1 div 16"] c [of "16 * (n1 mod 16) + n2 div 4"] c [of "64 * (n2 mod 4) + n3"]
    by (simp add: decode_quad_def Let_def of_nat_div of_nat_mod)
qed

lemma nat_of_char_int: "nat (of_char c) = of_char c"
  by (metis nat_int of_nat_of_char)

lemma pack_values:
  fixes x y z :: nat
  assumes "x < 256" "y < 256" "z < 256"
  shows "4 * (x div 4) + (16 * (x mod 4) + y div 16) div 16 = x"
    and "16 * ((16 * (x mod 4) + y div 16) mod 16) + (4 * (y mod 16) + z div 64) div 4 = y"
    and "64 * ((4 * (y mod 16) + z div 64) mod 4) + z mod 64 = z"
    and "x div 4 < 64" "16 * (x mod 4) + y div 16 < 64" "4 * (y mod 16) + z div 64 < 64" "z mod 64 < 64"
proof -
  have "y div 16 < 16" "z div 64 < 4" using assms by auto
  then show "4 * (x div 4) + (16 * (x mod 4) + y div 16) div 16 = x"
    and "16 * ((16 * (x mod 4) + y div 16) mod 16) + (4 * (y mod 16) + z div 64) div 4 = y"
    and "64 * ((4 * (y mod 16) + z div 64) mod 4) + z mod 64 = z"
    by simp_all
  have "x mod 4 \<le> 3" "y mod 16 \<le> 15" by auto
  with \<open>y div 16 < 16\<close> \<open>z div 64 < 4\<close> assms
  show "x div 4 < 64" "16 * (x mod 4) + y div 16 < 64" "4 * (y mod 16) + z div 64 < 64" "z mod 64 < 64"
    by auto
qed

lemma decode_encode_text: "decode_text (encode_text xs) = Some (xs, [])"
proof (induction xs rule: encode_text.induct)
  case 1
  show ?case by simp
next
  case (2 a)
  show ?case
    using pack_values [of "of_char a" 0 0] by (simp add: Let_def nat_of_char_int decode_quad_values)
next
  case (3 a b)
  show ?case
    using pack_values [of "of_char a" "of_char b" 0] by (simp add: Let_def nat_of_char_int decode_quad_values)
next
  case (4 a b c r)
  note p = pack_values [of "of_char a" "of_char b" "of_char c", OF nat_of_char_less_256 nat_of_char_less_256 nat_of_char_less_256]
  have "decode_quad (b64str ! (of_char a div 4)) (b64str ! (16 * (of_char a mod 4) + of_char b div 16))
      (b64str ! (4 * (of_char b mod 16) + of_char c div 64)) (b64str ! (of_char c mod 64)) = Some [a, b, c]"
    by (simp only: decode_quad_values(3) [OF p(4-7)] p(1-3) char_of_char)
  with 4 show ?case by (simp add: Let_def nat_of_char_int)
qed

lemma no_newlines_encode_text [simp]: "no_newlines (encode_text xs) = encode_text xs"
proof (induction xs rule: encode_text.induct)
  case (2 a)
  show ?case using pack_values [of "of_char a" 0 0] by (simp add: Let_def nat_of_char_int)
next
  case (3 a b)
  show ?case using pack_values [of "of_char a" "of_char b" 0] by (simp add: Let_def nat_of_char_int)
next
  case (4 a b c r)
  then show ?case
    using pack_values [of "of_char a" "of_char b" "of_char c"] by (simp add: Let_def nat_of_char_int)
qed simp

lemma nul_notin_encode_text [simp]: "CHR 0x00 \<notin> set (encode_text xs)"
proof (induction xs rule: encode_text.induct)
  case (2 a)
  show ?case using pack_values [of "of_char a" 0 0] b64str_neq(3) by (simp add: Let_def nat_of_char_int eq_commute [of "CHR 0x00"])
next
  case (3 a b)
  show ?case using pack_values [of "of_char a" "of_char b" 0] by (simp add: Let_def nat_of_char_int eq_commute [of "CHR 0x00"])
next
  case (4 a b c r)
  then show ?case
    using pack_values [of "of_char a" "of_char b" "of_char c"] by (simp add: Let_def nat_of_char_int eq_commute [of "CHR 0x00"])
qed simp

lemma length_encode_text: "length (encode_text xs) = 4 * ((length xs + 2) div 3)"
proof (induction xs rule: encode_text.induct)
  case (4 a b c r)
  moreover have "(5 + length r) div 3 = Suc (Suc (Suc (length r)) div 3)" by presburger
  ultimately show ?case by (simp add: Let_def)
qed (auto simp: Let_def)

section \<open>Properties of the codec\<close>

lemma base64_decode_fresh:
  assumes "length (ctx_buf ctx) = 4"
  shows "case decode_text (no_newlines s) of
      Some (ws, rest) \<Rightarrow> \<exists>ctx'. base64_decode (base64_decode_ctx_init ctx) s outlen
          = Some (ctx', take outlen ws, True)
    | None \<Rightarrow> \<exists>ctx' out. base64_decode (base64_decode_ctx_init ctx) s outlen = Some (ctx', out, False)"
proof (cases "s = []")
  case True
  then show ?thesis
    using base64_decode_flush [OF wf_ctx_init [OF assms], of outlen] by auto
next
  case False
  then show ?thesis
    using base64_decode_Some [OF wf_ctx_init [OF assms] False, of _ _ outlen]
      base64_decode_None [OF wf_ctx_init [OF assms] False, of outlen]
    by (fastforce split: option.splits)
qed

lemma base64_decode_alloc_spec:
  assumes "length (ctx_buf ctx) = 4"
  shows "\<exists>ctx'. base64_decode_alloc True (base64_decode_ctx_init ctx) s =
    Some (ctx', decode_text (no_newlines s) \<noteq> None, map_option fst (decode_text (no_newlines s)))"
proof (cases "decode_text (no_newlines s)")
  case None
  then show ?thesis
    using base64_decode_fresh [OF assms, of s "3 * (length s div 4) + 2"]
    by (auto simp: base64_decode_alloc_def Let_def)
next
  case (Some p)
  obtain ws rest where p: "p = (ws, rest)" by fastforce
  have "length ws \<le> 3 * (length (no_newlines s) div 4)"
    using Some p decode_text_length by blast
  also have "\<dots> \<le> 3 * (length s div 4)"
    by (simp add: div_le_mono length_no_newlines)
  finally have "take (3 * (length s div 4) + 2) ws = ws" by simp
  then show ?thesis
    using base64_decode_fresh [OF assms, of s "3 * (length s div 4) + 2"] Some p
    by (auto simp: base64_decode_alloc_def Let_def)
qed

text \<open>
  C21: The buffer that \<open>base64_decode_alloc\<close> allocates is always large enough: on a fresh context
  it returns true exactly when every complete group of four characters of the text, newlines removed, is a valid group, and then
  it has written all the bytes of these groups, none cut off.  Up to three characters after the last complete group are not
  looked at: they stay in the context, whatever they are, and do not make the text invalid, contrary to the comment on the function.
\<close>

theorem base64_decode_alloc_exact:
  assumes "length (ctx_buf ctx) = 4"
  shows "\<exists>ctx'. base64_decode_alloc True (base64_decode_ctx_init ctx) s =
    Some (ctx', decode_text (no_newlines s) \<noteq> None, map_option fst (decode_text (no_newlines s)))"
  using assms by (rule base64_decode_alloc_spec)

theorem base64_decode_alloc_exact_witness:
  "\<exists>ctx'. base64_decode_alloc True (base64_decode_ctx_init \<lparr>ctx_i = 7, ctx_buf = ''????''\<rparr>) ''QU\<newline>JD'' =
    Some (ctx', True, Some ''ABC'')"
proof -
  have "decode_text (no_newlines ''QU\<newline>JD'') = Some (''ABC'', [])"
    by code_simp
  then show ?thesis
    using base64_decode_alloc_exact [of "\<lparr>ctx_i = 7, ctx_buf = ''????''\<rparr>" "''QU\<newline>JD''"] by simp
qed

text \<open>
  \<open>base64_encode\<close> writes the text of its input, as many characters of it as the output can
  hold, and a terminating zero if there is room.
\<close>

theorem base64_encode_writes:
  "base64_encode inp outlen = take outlen (encode_text inp @ [CHR 0x00])"
  by (auto simp: base64_encode_def base64_encode_loop_eq)

lemma BASE64_LENGTH_unat:
  assumes "n < 2 ^ 64 - 2"
  shows "unat (1 + BASE64_LENGTH (of_nat n)) = (1 + 4 * ((n + 2) div 3)) mod 2 ^ 64"
proof -
  have "unat (of_nat n + 2 :: u64) = n + 2"
    using assms by (simp add: unat_word_ariths unat_of_nat)
  then have "unat ((of_nat n + 2) div 3 :: u64) = (n + 2) div 3"
    by (simp add: unat_div)
  then show ?thesis
    by (simp add: BASE64_LENGTH_def unat_word_ariths mult.commute mod_simps)
qed

lemma encode_overflow_iff:
  assumes "n < 2 ^ 64"
  shows "(of_nat n :: u64) > 1 + BASE64_LENGTH (of_nat n) \<longleftrightarrow> 2 ^ 64 \<le> 1 + 4 * ((n + 2) div 3)"
proof (cases "n < 2 ^ 64 - 2")
  case True
  define q where "q = (n + 2) div 3"
  have q: "3 * q \<le> n + 2" "n + 2 < 3 * q + 3" unfolding q_def by auto
  have "1 + BASE64_LENGTH (of_nat n) < (of_nat n :: u64) \<longleftrightarrow> (1 + 4 * q) mod 2 ^ 64 < n"
    using BASE64_LENGTH_unat [OF True] assms by (simp add: word_less_nat_alt unat_of_nat q_def)
  also have "\<dots> \<longleftrightarrow> 2 ^ 64 \<le> 1 + 4 * q"
  proof (cases "2 ^ 64 \<le> 1 + 4 * q")
    case ov: True
    have "(1 + 4 * q) mod 2 ^ 64 = 1 + 4 * q - 2 ^ 64"
      using ov q True by (subst le_mod_geq) auto
    then show ?thesis using ov q True by auto
  next
    case False
    then show ?thesis using q by auto
  qed
  finally show ?thesis by (simp add: q_def)
next
  case False
  then consider "n = 2 ^ 64 - 2" | "n = 2 ^ 64 - 1" using assms by fastforce
  then show ?thesis
    by cases (simp_all add: BASE64_LENGTH_def)
qed
lemma base64_encode_alloc_spec:
  assumes "length inp < 2 ^ 64"
  shows "base64_encode_alloc True inp =
    (if 2 ^ 64 \<le> 1 + length (encode_text inp) then (None, 0)
     else (Some (encode_text inp @ [CHR 0x00]), of_nat (length (encode_text inp))))"
proof (cases "2 ^ 64 \<le> 1 + length (encode_text inp)")
  case True
  then show ?thesis
    using encode_overflow_iff [OF assms]
    by (simp add: base64_encode_alloc_def Let_def length_encode_text)
next
  case False
  define m where "m = length (encode_text inp)"
  have m: "1 + m < 2 ^ 64" using False m_def by simp
  have m4: "m = 4 * ((length inp + 2) div 3)" by (simp add: m_def length_encode_text)
  have n: "length inp < 2 ^ 64 - 2"
  proof -
    have "length inp + 2 < 3 * ((length inp + 2) div 3) + 3" by simp
    moreover have "(2::nat) ^ 64 = 18446744073709551616" by simp
    ultimately show ?thesis using m m4 by simp
  qed
  have u: "unat (1 + BASE64_LENGTH (of_nat (length inp))) = 1 + m"
    using BASE64_LENGTH_unat [OF n] m by (simp add: m4)
  then have "1 + BASE64_LENGTH (of_nat (length inp)) = of_nat (1 + m)"
    by (metis of_nat_unat ucast_id)
  then have "1 + BASE64_LENGTH (of_nat (length inp)) - 1 = of_nat m" by simp
  moreover have "base64_encode inp (1 + m) = encode_text inp @ [CHR 0x00]"
    by (simp add: base64_encode_def base64_encode_loop_eq m_def)
  moreover have "\<not> 1 + BASE64_LENGTH (of_nat (length inp)) < (of_nat (length inp) :: u64)"
    using encode_overflow_iff [OF assms] m m4 by simp
  ultimately show ?thesis
    using u False by (simp add: base64_encode_alloc_def Let_def m_def)
qed

text \<open>
  C22: \<open>base64_encode_alloc\<close> reports an input that is too long (\<open>*out\<close> is \<open>NULL\<close>, the result 0)
  exactly when the length of the encoded text and its terminating zero do not fit in a \<open>size_t\<close>,
  although it only compares the wrapped length with \<open>inlen\<close>; otherwise it stores the whole
  zero-terminated text and returns its length.
\<close>

theorem base64_encode_alloc_overflow:
  assumes "length inp < 2 ^ 64"
  shows "base64_encode_alloc True inp =
    (if 2 ^ 64 \<le> 1 + length (encode_text inp) then (None, 0)
     else (Some (encode_text inp @ [CHR 0x00]), of_nat (length (encode_text inp))))"
  using assms by (rule base64_encode_alloc_spec)

theorem base64_encode_alloc_overflow_witness:
  "base64_encode_alloc True ''ABCD'' = (Some (''QUJDRA=='' @ [CHR 0x00]), 8)"
  using base64_encode_alloc_overflow [of "''ABCD''"] by (simp add: b64str_def Let_def)

text \<open>
  C10: the round trip.  Whatever \<open>base64_encode_alloc\<close> produced, with newlines inserted at any
  place, is decoded by \<open>base64_decode_alloc\<close> to the original data.
\<close>

theorem base64_roundtrip:
  assumes "length (ctx_buf ctx) = 4" and "length xs < 2 ^ 64"
    and "base64_encode_alloc True xs = (Some text, n)"
    and "no_newlines s = take (unat n) text"
  shows "\<exists>ctx'. base64_decode_alloc True (base64_decode_ctx_init ctx) s = Some (ctx', True, Some xs)"
proof -
  have fits: "\<not> 2 ^ 64 \<le> 1 + length (encode_text xs)"
    and tx: "text = encode_text xs @ [CHR 0x00]" and n: "n = of_nat (length (encode_text xs))"
    using assms(3) base64_encode_alloc_spec [OF assms(2)] by (auto split: if_splits)
  have "unat n = length (encode_text xs)" using fits by (simp add: n unat_of_nat)
  then have "no_newlines s = encode_text xs" using assms(4) tx by simp
  then show ?thesis
    using base64_decode_alloc_spec [OF assms(1), of s] by (simp add: decode_encode_text)
qed

theorem base64_roundtrip_witness:
  "\<exists>ctx'. base64_decode_alloc True (base64_decode_ctx_init \<lparr>ctx_i = 0, ctx_buf = ''xxxx''\<rparr>)
     ''QUJD\<newline>RA==\<newline>'' = Some (ctx', True, Some ''ABCD'')"
proof -
  have "base64_encode_alloc True ''ABCD'' = (Some (''QUJDRA=='' @ [CHR 0x00]), 8)"
    using base64_encode_alloc_spec [of "''ABCD''"] by (simp add: b64str_def Let_def)
  then show ?thesis
    by (intro base64_roundtrip [of "\<lparr>ctx_i = 0, ctx_buf = ''xxxx''\<rparr>" "''ABCD''" "''QUJDRA=='' @ [CHR 0x00]" 8]) simp_all
qed

text \<open>
  \<open>base64_decode\<close> may be fed in pieces that split the text anywhere, as its comment promises:
  two calls that share the context produce together the bytes that one call on the whole input
  produces, and the second call accepts exactly when the one call does.
\<close>

theorem base64_decode_streaming:
  assumes "wf_ctx ctx" and "a \<noteq> []" and "b \<noteq> []"
    and "base64_decode ctx a outlen = Some (ctx1, out1, True)"
    and "base64_decode ctx (a @ b) outlen = Some (ctx2, out2, ok)"
  shows "\<exists>ctx' out'. base64_decode ctx1 b (outlen - length out1) = Some (ctx', out', ok)
    \<and> (ok \<longrightarrow> out1 @ out' = out2 \<and> pending ctx' = pending ctx2)"
proof (cases "decode_text (pending ctx @ no_newlines a)")
  case None
  then show ?thesis using base64_decode_None [OF assms(1,2) None, of outlen] assms(4) by auto
next
  case (Some p)
  obtain ws rest where p: "decode_text (pending ctx @ no_newlines a) = Some (ws, rest)"
    using Some by (cases p) auto
  have c1: "wf_ctx ctx1" "pending ctx1 = rest" "out1 = take outlen ws"
    using base64_decode_Some [OF assms(1,2) p, of outlen] assms(4) by auto
  have split: "decode_text (pending ctx @ no_newlines (a @ b))
      = map_option (\<lambda>(v, r). (ws @ v, r)) (decode_text (pending ctx1 @ no_newlines b))"
    using decode_text_append [OF p, of "no_newlines b"] c1(2) by simp
  show ?thesis
  proof (cases "decode_text (pending ctx1 @ no_newlines b)")
    case None
    then show ?thesis
      using base64_decode_None [OF c1(1) assms(3) None, of "outlen - length out1"]
        base64_decode_None [OF assms(1), of "a @ b" outlen] split assms(3,5) by auto
  next
    case (Some q)
    obtain v r where q: "decode_text (pending ctx1 @ no_newlines b) = Some (v, r)"
      using Some by (cases q) auto
    have "out2 = take outlen (ws @ v)" "ok" "pending ctx2 = r"
      using base64_decode_Some [OF assms(1), of "a @ b" "ws @ v" r outlen] split q assms(3,5) by auto
    moreover have "take outlen ws @ take (outlen - length out1) v = take outlen (ws @ v)"
      using c1(3) by (cases "outlen \<le> length ws") auto
    ultimately show ?thesis
      using base64_decode_Some [OF c1(1) assms(3) q, of "outlen - length out1"] c1(3) by auto
  qed
qed

definition ctx_QU :: base64_decode_context where
  "ctx_QU = \<lparr>ctx_i = 2, ctx_buf = ''QU??''\<rparr>"

theorem base64_decode_streaming_witness:
  "\<exists>ctx' out'. base64_decode ctx_QU ''JD'' 9 = Some (ctx', out', True) \<and> [] @ out' = ''ABC''
     \<and> pending ctx' = []"
proof -
  have a: "base64_decode \<lparr>ctx_i = 0, ctx_buf = ''????''\<rparr> ''QU'' 9 = Some (ctx_QU, [], True)"
    by (simp add: base64_decode_def base64_decode_loop.simps decode_inner.simps decode_4_def isbase64_iff
        B64_def get_4_def Let_def ctx_QU_def)
  have d: "decode_text (pending \<lparr>ctx_i = 0, ctx_buf = ''????''\<rparr> @ no_newlines ''QUJD'') = Some (''ABC'', [])"
    by code_simp
  obtain c2 where b: "base64_decode \<lparr>ctx_i = 0, ctx_buf = ''????''\<rparr> (''QU'' @ ''JD'') 9 = Some (c2, ''ABC'', True)"
    and p: "pending c2 = []"
    using base64_decode_Some [OF _ _ d, of 9] by (auto simp: wf_ctx_def)
  show ?thesis
    using base64_decode_streaming [OF _ _ _ a b] p by (auto simp: wf_ctx_def)
qed

text \<open>
  C15: What one call of \<open>base64_decode\<close> does on a non-empty input, in any state of the context.  If every complete group of four among the
  pending characters followed by the input, newlines removed, is valid, it returns true, writes as
  many of the bytes as the output can hold, and keeps the incomplete last group in the context for the next call without
  looking at its characters, contrary to the comment on the function; otherwise it returns false.  It never fails to return.
\<close>

theorem base64_decode_implements:
  assumes "wf_ctx ctx" and "inp \<noteq> []"
  shows "case decode_text (pending ctx @ no_newlines inp) of
      Some (ws, rest) \<Rightarrow> \<exists>ctx'. base64_decode ctx inp outlen = Some (ctx', take outlen ws, True)
          \<and> wf_ctx ctx' \<and> pending ctx' = rest
    | None \<Rightarrow> \<exists>ctx' out. base64_decode ctx inp outlen = Some (ctx', out, False) \<and> wf_ctx ctx'"
  using base64_decode_Some [OF assms, of _ _ outlen] base64_decode_None [OF assms, of outlen]
  by (auto split: option.splits)

theorem base64_decode_implements_witness:
  "\<exists>ctx'. base64_decode \<lparr>ctx_i = 4, ctx_buf = ''abcd''\<rparr> ''QUJDR'' 2 = Some (ctx', ''AB'', True)
     \<and> pending ctx' = ''R''"
proof -
  have "decode_text (pending \<lparr>ctx_i = 4, ctx_buf = ''abcd''\<rparr> @ no_newlines ''QUJDR'') = Some (''ABC'', ''R'')"
    by code_simp
  then show ?thesis
    using base64_decode_implements [of "\<lparr>ctx_i = 4, ctx_buf = ''abcd''\<rparr>" "''QUJDR''" 2]
    by (auto simp: wf_ctx_def)
qed

end
