(* ===== verification/SHA1.thy ===== *)
theory SHA1
  imports Haggle_Prelude
begin

text \<open>
  The SHA-1 implementation that \<open>src/src/libhaggle/sha1.c\<close> compiles (the branch
  \<open>SHA1_USE_ALTERNATIVE_IMPLEMENTATION\<close>, selected in \<open>sha1_private.h\<close>): the context, the byte-wise
  input with its 64-bit length counter and its error flags, the padding and the digest.  A pointer
  argument that the code compares with \<open>NULL\<close> is an option, and the caller passes at least \<open>length\<close>
  bytes.  The parameter \<open>len\<close> of \<open>SHA1_Update\<close> is a 32-bit \<open>unsigned int\<close>; in the model it is the length of the data that
  are passed, so an update stands for a call with fewer than \<open>2 ^ 32\<close> bytes (the callers pass names, values and blocks of a file; a
  \<open>size_t\<close> of \<open>2 ^ 32\<close> or more would be cut off by the conversion).  The shift \<open>Message_Block[t * 4] << 24\<close> of a byte promoted to \<open>int\<close> sets the sign bit from
  0x80 on; it is taken to give the bit pattern, as it does in two's complement.  The functions are related to the
  definition of SHA-1 in FIPS PUB 180-1, written over whole messages.
\<close>

section \<open>The context\<close>

record SHA1Context =
  Intermediate_Hash :: "u32 list"
  Length_Low :: u32
  Length_High :: u32
  Message_Block_Index :: nat
  Message_Block :: "byte list"
  Computed :: bool
  Corrupted :: int

definition shaSuccess :: int where "shaSuccess = 0"
definition shaNull :: int where "shaNull = 1"
definition shaStateError :: int where "shaStateError = 3"

definition SHA1CircularShift :: "nat \<Rightarrow> u32 \<Rightarrow> u32" where
  "SHA1CircularShift bits word = push_bit bits word OR drop_bit (32 - bits) word"

definition SHA1Reset :: "SHA1Context option \<Rightarrow> SHA1Context option \<times> int" where
  "SHA1Reset context =
     (case context of
        None \<Rightarrow> (None, shaNull)
      | Some c \<Rightarrow>
          (Some (c\<lparr>Length_Low := 0, Length_High := 0, Message_Block_Index := 0,
             Intermediate_Hash := [0x67452301, 0xEFCDAB89, 0x98BADCFE, 0x10325476, 0xC3D2E1F0],
             Computed := False, Corrupted := 0\<rparr>), shaSuccess))"

section \<open>Processing a block\<close>

text \<open>The array \<open>W\<close>: sixteen words of the block, then the expansion.\<close>

definition block_word :: "byte list \<Rightarrow> nat \<Rightarrow> u32" where
  "block_word b t =
     push_bit 24 (ucast (b ! (t * 4))) OR push_bit 16 (ucast (b ! (t * 4 + 1)))
       OR push_bit 8 (ucast (b ! (t * 4 + 2))) OR ucast (b ! (t * 4 + 3))"

definition W_extend :: "nat \<Rightarrow> u32 list \<Rightarrow> u32 list" where
  "W_extend t W = W @ [SHA1CircularShift 1 (W ! (t - 3) XOR W ! (t - 8) XOR W ! (t - 14) XOR W ! (t - 16))]"

definition W_array :: "byte list \<Rightarrow> u32 list" where
  "W_array b = fold W_extend [16..<80] (map (block_word b) [0..<16])"

type_synonym sha1_vars = "u32 \<times> u32 \<times> u32 \<times> u32 \<times> u32"

text \<open>The bodies of the four loops of twenty rounds.\<close>

definition round_0 :: "u32 list \<Rightarrow> nat \<Rightarrow> sha1_vars \<Rightarrow> sha1_vars" where
  "round_0 W t = (\<lambda>(A, B, C, D, E).
     let temp = SHA1CircularShift 5 A + ((B AND C) OR ((NOT B) AND D)) + E + W ! t + 0x5A827999 in
     (temp, A, SHA1CircularShift 30 B, C, D))"

definition round_1 :: "u32 list \<Rightarrow> nat \<Rightarrow> sha1_vars \<Rightarrow> sha1_vars" where
  "round_1 W t = (\<lambda>(A, B, C, D, E).
     let temp = SHA1CircularShift 5 A + (B XOR C XOR D) + E + W ! t + 0x6ED9EBA1 in
     (temp, A, SHA1CircularShift 30 B, C, D))"

definition round_2 :: "u32 list \<Rightarrow> nat \<Rightarrow> sha1_vars \<Rightarrow> sha1_vars" where
  "round_2 W t = (\<lambda>(A, B, C, D, E).
     let temp = SHA1CircularShift 5 A + ((B AND C) OR (B AND D) OR (C AND D)) + E + W ! t + 0x8F1BBCDC in
     (temp, A, SHA1CircularShift 30 B, C, D))"

definition round_3 :: "u32 list \<Rightarrow> nat \<Rightarrow> sha1_vars \<Rightarrow> sha1_vars" where
  "round_3 W t = (\<lambda>(A, B, C, D, E).
     let temp = SHA1CircularShift 5 A + (B XOR C XOR D) + E + W ! t + 0xCA62C1D6 in
     (temp, A, SHA1CircularShift 30 B, C, D))"

definition SHA1ProcessMessageBlock :: "SHA1Context \<Rightarrow> SHA1Context" where
  "SHA1ProcessMessageBlock context =
     (let W = W_array (Message_Block context);
          H = Intermediate_Hash context;
          vars = (H ! 0, H ! 1, H ! 2, H ! 3, H ! 4);
          vars = fold (round_0 W) [0..<20] vars;
          vars = fold (round_1 W) [20..<40] vars;
          vars = fold (round_2 W) [40..<60] vars;
          (A, B, C, D, E) = fold (round_3 W) [60..<80] vars in
      context\<lparr>Intermediate_Hash := [H ! 0 + A, H ! 1 + B, H ! 2 + C, H ! 3 + D, H ! 4 + E],
              Message_Block_Index := 0\<rparr>)"

section \<open>Input\<close>

text \<open>The assignment \<open>Message_Block[Message_Block_Index++] = b\<close>.\<close>

definition put_byte :: "byte \<Rightarrow> SHA1Context \<Rightarrow> SHA1Context" where
  "put_byte b context =
     context\<lparr>Message_Block := (Message_Block context)[Message_Block_Index context := b],
             Message_Block_Index := Message_Block_Index context + 1\<rparr>"

text \<open>The 64-bit counter of the message length: \<open>Length_Low += 8\<close> with the carry into \<open>Length_High\<close>.\<close>

definition count_byte :: "SHA1Context \<Rightarrow> SHA1Context" where
  "count_byte context =
     (let context = context\<lparr>Length_Low := Length_Low context + 8\<rparr> in
      if Length_Low context = 0
      then let context = context\<lparr>Length_High := Length_High context + 1\<rparr> in
           if Length_High context = 0 then context\<lparr>Corrupted := 1\<rparr> else context
      else context)"

definition input_byte :: "byte \<Rightarrow> SHA1Context \<Rightarrow> SHA1Context" where
  "input_byte b context =
     (let context = count_byte (put_byte (b AND 0xFF) context) in
      if Message_Block_Index context = 64 then SHA1ProcessMessageBlock context else context)"

fun SHA1Input_loop :: "SHA1Context \<Rightarrow> byte list \<Rightarrow> SHA1Context" where
  "SHA1Input_loop context [] = context"
| "SHA1Input_loop context (b # bs) =
     (if Corrupted context \<noteq> 0 then context else SHA1Input_loop (input_byte b context) bs)"

definition SHA1Input :: "SHA1Context option \<Rightarrow> byte list option \<Rightarrow> nat \<Rightarrow> SHA1Context option \<times> int" where
  "SHA1Input context message_array len =
     (if len = 0 then (context, shaSuccess)
      else
        case (context, message_array) of
          (Some c, Some m) \<Rightarrow>
            if Computed c then (Some (c\<lparr>Corrupted := shaStateError\<rparr>), shaStateError)
            else if Corrupted c \<noteq> 0 then (Some c, Corrupted c)
            else (Some (SHA1Input_loop c (take len m)), shaSuccess)
        | _ \<Rightarrow> (context, shaNull))"

section \<open>Padding and the digest\<close>

text \<open>The loops \<open>while (Message_Block_Index < n) Message_Block[Message_Block_Index++] = 0\<close>.\<close>

definition fill_zero :: "nat \<Rightarrow> SHA1Context \<Rightarrow> SHA1Context" where
  "fill_zero n context = (put_byte 0 ^^ (n - Message_Block_Index context)) context"

definition store_length :: "SHA1Context \<Rightarrow> SHA1Context" where
  "store_length context =
     (let hi = Length_High context; lo = Length_Low context in
      context\<lparr>Message_Block := (Message_Block context)
        [56 := ucast (drop_bit 24 hi), 57 := ucast (drop_bit 16 hi),
         58 := ucast (drop_bit 8 hi), 59 := ucast hi,
         60 := ucast (drop_bit 24 lo), 61 := ucast (drop_bit 16 lo),
         62 := ucast (drop_bit 8 lo), 63 := ucast lo]\<rparr>)"

definition SHA1PadMessage :: "SHA1Context \<Rightarrow> SHA1Context" where
  "SHA1PadMessage context =
     (let context =
            (if Message_Block_Index context > 55
             then fill_zero 56 (SHA1ProcessMessageBlock (fill_zero 64 (put_byte 0x80 context)))
             else fill_zero 56 (put_byte 0x80 context)) in
      SHA1ProcessMessageBlock (store_length context))"

definition digest_bytes :: "u32 list \<Rightarrow> byte list" where
  "digest_bytes H = map (\<lambda>i. ucast (drop_bit (8 * (3 - i mod 4)) (H ! (i div 4)))) [0..<20]"

text \<open>\<open>SHA1Result\<close>: the context, the contents of \<open>Message_Digest\<close> and the result code.\<close>

definition SHA1Result :: "SHA1Context option \<Rightarrow> byte list option \<Rightarrow> SHA1Context option \<times> byte list option \<times> int" where
  "SHA1Result context Message_Digest =
     (case (context, Message_Digest) of
        (Some c, Some _) \<Rightarrow>
          if Corrupted c \<noteq> 0 then (Some c, Message_Digest, Corrupted c)
          else
            let c = (if \<not> Computed c
                     then (SHA1PadMessage c)\<lparr>Message_Block := replicate 64 0, Length_Low := 0,
                             Length_High := 0, Computed := True\<rparr>
                     else c) in
            (Some c, Some (digest_bytes (Intermediate_Hash c)), shaSuccess)
      | _ \<Rightarrow> (context, Message_Digest, shaNull))"

section \<open>The interface of the library\<close>

definition SHA1_Init :: "SHA1Context \<Rightarrow> SHA1Context" where
  "SHA1_Init context = the (fst (SHA1Reset (Some context)))"

definition SHA1_Update :: "SHA1Context \<Rightarrow> byte list \<Rightarrow> SHA1Context" where
  "SHA1_Update context data = the (fst (SHA1Input (Some context) (Some data) (length data)))"

definition SHA1_Final :: "byte list \<Rightarrow> SHA1Context \<Rightarrow> byte list \<times> SHA1Context" where
  "SHA1_Final digest context =
     (let (c, d, _) = SHA1Result (Some context) (Some digest) in (the d, the c))"

section \<open>SHA-1 by its standard\<close>

definition sha1_f :: "nat \<Rightarrow> u32 \<Rightarrow> u32 \<Rightarrow> u32 \<Rightarrow> u32" where
  "sha1_f t B C D =
     (if t < 20 then (B AND C) OR (NOT B AND D)
      else if t < 40 then B XOR C XOR D
      else if t < 60 then (B AND C) OR (B AND D) OR (C AND D)
      else B XOR C XOR D)"

definition sha1_K :: "nat \<Rightarrow> u32" where
  "sha1_K t =
     (if t < 20 then 0x5A827999 else if t < 40 then 0x6ED9EBA1
      else if t < 60 then 0x8F1BBCDC else 0xCA62C1D6)"

fun sha1_W :: "byte list \<Rightarrow> nat \<Rightarrow> u32" where
  "sha1_W b t =
     (if t < 16 then word_rcat (take 4 (drop (4 * t) b))
      else word_rotl 1 (sha1_W b (t - 3) XOR sha1_W b (t - 8) XOR sha1_W b (t - 14) XOR sha1_W b (t - 16)))"

declare sha1_W.simps [simp del]

fun sha1_rounds :: "byte list \<Rightarrow> nat \<Rightarrow> sha1_vars \<Rightarrow> sha1_vars" where
  "sha1_rounds b 0 v = v"
| "sha1_rounds b (Suc t) v =
     (let (A, B, C, D, E) = sha1_rounds b t v in
      (word_rotl 5 A + sha1_f t B C D + E + sha1_W b t + sha1_K t, A, word_rotl 30 B, C, D))"

definition sha1_compress :: "sha1_vars \<Rightarrow> byte list \<Rightarrow> sha1_vars" where
  "sha1_compress h b =
     (let (A, B, C, D, E) = sha1_rounds b 80 h; (h0, h1, h2, h3, h4) = h in
      (h0 + A, h1 + B, h2 + C, h3 + D, h4 + E))"

function sha1_blocks :: "sha1_vars \<Rightarrow> byte list \<Rightarrow> sha1_vars" where
  "sha1_blocks h m = (if length m < 64 then h else sha1_blocks (sha1_compress h (take 64 m)) (drop 64 m))"
  by pat_completeness auto
termination
  by (relation "measure (\<lambda>(h, m). length m)") auto

declare sha1_blocks.simps [simp del]

definition sha1_IV :: sha1_vars where
  "sha1_IV = (0x67452301, 0xEFCDAB89, 0x98BADCFE, 0x10325476, 0xC3D2E1F0)"

text \<open>A message of \<open>n\<close> bytes is padded with 0x80, zeros up to 56 modulo 64, and its bit length.\<close>

definition sha1_pad :: "byte list \<Rightarrow> byte list" where
  "sha1_pad m =
     m @ [0x80] @ replicate ((119 - length m mod 64) mod 64) 0 @ be_bytes 8 (of_nat (8 * length m) :: u64)"

definition sha1 :: "byte list \<Rightarrow> byte list" where
  "sha1 m = (case sha1_blocks sha1_IV (sha1_pad m) of
     (a, b, c, d, e) \<Rightarrow> concat (map (be_bytes 4) [a, b, c, d, e]))"

section \<open>Words and rotations\<close>

lemma rot_index: "n < 32 \<Longrightarrow> i < 32 \<Longrightarrow> (i + (32 - n)) mod 32 = (if i < n then 32 + i - n else i - (n::nat))"
  by (auto simp: mod_nat_eqI)

lemma SHA1CircularShift_rotl:
  assumes "0 < n" "n < 32"
  shows "SHA1CircularShift n w = word_rotl n w"
proof (rule bit_word_eqI)
  fix i assume i: "i < LENGTH(32)"
  have "i + (32 - n) = 32 + i - n" using assms by simp
  then show "bit (SHA1CircularShift n w) i = bit (word_rotl n w) i"
    using assms i rot_index [of n i]
    by (auto simp: SHA1CircularShift_def bit_simps dest: bit_imp_le_length)
qed

lemma block_word_rcat:
  assumes "4 * t + 4 \<le> length b"
  shows "block_word b t = word_rcat (take 4 (drop (4 * t) b))"
proof -
  have tk: "take 4 (drop (4 * t) b) = [b ! (t * 4), b ! (t * 4 + 1), b ! (t * 4 + 2), b ! (t * 4 + 3)]"
    using assms by (auto simp: list_eq_iff_nth_eq numeral_eq_Suc less_Suc_eq algebra_simps)
  show ?thesis
    unfolding tk
  proof (rule bit_word_eqI)
    fix i assume i: "i < LENGTH(32)"
    define q r where "q = i div 8" and "r = i mod 8"
    have qr: "i = 8 * q + r" "r < 8" by (simp_all add: q_def r_def)
    have "q \<in> {0, 1, 2, 3}" using i qr by auto
    then show "bit (block_word b t) i = bit (word_rcat [b ! (t * 4), b ! (t * 4 + 1), b ! (t * 4 + 2), b ! (t * 4 + 3)] :: u32) i"
      using qr i unfolding bit_word_rcat q_def [symmetric] r_def [symmetric]
      by (auto simp: block_word_def bit_simps dest: bit_imp_le_length)
  qed
qed

section \<open>The block function computes the compression function\<close>

lemma length_fold_W_extend: "length (fold W_extend ts W) = length W + length ts"
  by (induction ts arbitrary: W) (auto simp: W_extend_def)

lemma fold_W_extend_nth:
  assumes "length b = 64" "16 \<le> n"
  shows "t < n \<Longrightarrow> fold W_extend [16..<n] (map (block_word b) [0..<16]) ! t = sha1_W b t"
  using assms(2)
proof (induction n arbitrary: t rule: dec_induct)
  case base
  then show ?case
    using assms(1) by (simp add: sha1_W.simps [of b t] block_word_rcat)
next
  case (step n)
  define W where "W = fold W_extend [16..<n] (map (block_word b) [0..<16])"
  have len: "length W = n" using step.hyps by (simp add: length_fold_W_extend W_def)
  have e: "fold W_extend [16..<Suc n] (map (block_word b) [0..<16]) = W_extend n W"
    using step.hyps by (simp add: W_def)
  have IH: "W ! t = sha1_W b t" if "t < n" for t using step.IH that by (simp add: W_def)
  show ?case
  proof (cases "t < n")
    case True
    then show ?thesis using IH len unfolding e by (simp add: W_extend_def nth_append)
  next
    case False
    then have t: "t = n" using step.prems by simp
    show ?thesis
      using step.hyps len unfolding e t
      by (simp add: W_extend_def nth_append IH SHA1CircularShift_rotl sha1_W.simps [of b n])
  qed
qed

lemma W_array_nth:
  assumes "length b = 64" "t < 80"
  shows "W_array b ! t = sha1_W b t"
  using fold_W_extend_nth [OF assms(1), of 80 t] assms(2) by (simp add: W_array_def)

lemma fold_rounds:
  assumes "length b = 64" "m \<le> n" "n \<le> 80"
    and step: "\<And>t A B C D E. m \<le> t \<Longrightarrow> t < n \<Longrightarrow> r (W_array b) t (A, B, C, D, E)
      = (word_rotl 5 A + sha1_f t B C D + E + W_array b ! t + sha1_K t, A, word_rotl 30 B, C, D)"
  shows "fold (r (W_array b)) [m..<n] (sha1_rounds b m v) = sha1_rounds b n v"
  using assms(2,3) step
proof (induction n rule: dec_induct)
  case base
  then show ?case by simp
next
  case (step n)
  have "fold (r (W_array b)) [m..<n] (sha1_rounds b m v) = sha1_rounds b n v"
    using step by simp
  moreover obtain A B C D E where "sha1_rounds b n v = (A, B, C, D, E)" by (metis prod_cases5)
  ultimately show ?case
    using step.hyps step.prems W_array_nth [OF assms(1), of n] by simp
qed

definition vars_of :: "u32 list \<Rightarrow> sha1_vars" where
  "vars_of H = (H ! 0, H ! 1, H ! 2, H ! 3, H ! 4)"

lemma SHA1ProcessMessageBlock_frame [simp]:
  "length (Intermediate_Hash (SHA1ProcessMessageBlock c)) = 5"
  "Message_Block_Index (SHA1ProcessMessageBlock c) = 0"
  "Message_Block (SHA1ProcessMessageBlock c) = Message_Block c"
  "Length_Low (SHA1ProcessMessageBlock c) = Length_Low c"
  "Length_High (SHA1ProcessMessageBlock c) = Length_High c"
  "Computed (SHA1ProcessMessageBlock c) = Computed c"
  "Corrupted (SHA1ProcessMessageBlock c) = Corrupted c"
  by (simp_all add: SHA1ProcessMessageBlock_def Let_def split: prod.splits)

lemma SHA1ProcessMessageBlock_compress:
  assumes "length (Message_Block c) = 64"
  shows "vars_of (Intermediate_Hash (SHA1ProcessMessageBlock c))
      = sha1_compress (vars_of (Intermediate_Hash c)) (Message_Block c)"
proof -
  let ?b = "Message_Block c" and ?H = "Intermediate_Hash c"
  let ?W = "W_array ?b"
  note F = fold_rounds [OF assms, of _ _ _ "vars_of ?H"]
  have "fold (round_3 ?W) [60..<80] (fold (round_2 ?W) [40..<60] (fold (round_1 ?W) [20..<40]
      (fold (round_0 ?W) [0..<20] (vars_of ?H)))) = sha1_rounds ?b 80 (vars_of ?H)"
    using F [of 0 20 round_0] F [of 20 40 round_1] F [of 40 60 round_2] F [of 60 80 round_3]
    by (simp add: round_0_def round_1_def round_2_def round_3_def sha1_f_def sha1_K_def SHA1CircularShift_rotl Let_def)
  then show ?thesis
    by (simp add: SHA1ProcessMessageBlock_def sha1_compress_def vars_of_def Let_def split: prod.splits)
qed

lemma sha1_blocks_short [simp]: "length m < 64 \<Longrightarrow> sha1_blocks h m = h"
  by (simp add: sha1_blocks.simps)

lemma sha1_blocks_append:
  "64 dvd length p \<Longrightarrow> sha1_blocks h (p @ q) = sha1_blocks (sha1_blocks h p) q"
proof (induction h p rule: sha1_blocks.induct)
  case (1 h p)
  show ?case
  proof (cases "length p < 64")
    case True
    then have "p = []" using "1.prems" by (metis dvd_imp_le length_greater_0_conv not_less)
    then show ?thesis by simp
  next
    case False
    then show ?thesis
      using "1.IH" "1.prems" by (simp add: sha1_blocks.simps [of h p] sha1_blocks.simps [of h "p @ q"])
  qed
qed

lemma sha1_blocks_one: "length b = 64 \<Longrightarrow> sha1_blocks h b = sha1_compress h b"
  by (simp add: sha1_blocks.simps [of h b])

section \<open>The state after a prefix of the message\<close>

text \<open>
  The hash covers the full blocks \<open>p\<close> of the message so far, the buffer starts with the rest \<open>q\<close>,
  and the two counters hold the length in bits.
\<close>

definition absorbed :: "SHA1Context \<Rightarrow> byte list \<Rightarrow> byte list \<Rightarrow> bool" where
  "absorbed c p q \<longleftrightarrow>
     64 dvd length p \<and> length q < 64 \<and> length (Message_Block c) = 64 \<and> length (Intermediate_Hash c) = 5
     \<and> Message_Block_Index c = length q \<and> take (length q) (Message_Block c) = q
     \<and> vars_of (Intermediate_Hash c) = sha1_blocks sha1_IV p"

definition counted :: "SHA1Context \<Rightarrow> nat \<Rightarrow> bool" where
  "counted c n \<longleftrightarrow> Length_Low c = of_nat (8 * n) \<and> Length_High c = of_nat (8 * n div 2 ^ 32)"

lemma put_byte_take:
  assumes "Message_Block_Index c = length q" "take (length q) (Message_Block c) = q"
    "length q < length (Message_Block c)"
  shows "take (length (q @ [b])) (Message_Block (put_byte b c)) = q @ [b]"
    and "Message_Block_Index (put_byte b c) = length (q @ [b])"
  using assms by (auto simp: put_byte_def take_Suc_conv_app_nth)

lemma put_byte_simps [simp]:
  "Intermediate_Hash (put_byte b c) = Intermediate_Hash c"
  "Length_Low (put_byte b c) = Length_Low c"
  "Length_High (put_byte b c) = Length_High c"
  "Computed (put_byte b c) = Computed c"
  "Corrupted (put_byte b c) = Corrupted c"
  "length (Message_Block (put_byte b c)) = length (Message_Block c)"
  "Message_Block_Index (put_byte b c) = Suc (Message_Block_Index c)"
  by (simp_all add: put_byte_def)

lemma counter_div:
  "8 * (n + 1) div 2 ^ 32 = (if 2 ^ 32 dvd 8 * (n + 1) then 8 * n div 2 ^ 32 + 1 else 8 * n div (2::nat) ^ 32)"
proof -
  have d: "8 * j div 2 ^ 32 = j div (2::nat) ^ 29" for j
    using div_mult_mult1 [of 8 j "2 ^ 29"] by simp
  have m: "(2::nat) ^ 32 dvd 8 * j \<longleftrightarrow> 2 ^ 29 dvd j" for j
    using nat_mult_dvd_cancel_disj [of 8 "2 ^ 29" j] by simp
  show ?thesis unfolding d m by (simp add: div_Suc dvd_eq_mod_eq_0)
qed

lemma counter_step:
  assumes "n + 1 < 2 ^ 61"
  defines "lo \<equiv> of_nat (8 * n) :: u32" and "hi \<equiv> of_nat (8 * n div 2 ^ 32) :: u32"
  shows "lo + 8 = of_nat (8 * (n + 1))"
    and "lo + 8 = 0 \<Longrightarrow> hi + 1 = of_nat (8 * (n + 1) div 2 ^ 32) \<and> hi + 1 \<noteq> 0"
    and "lo + 8 \<noteq> 0 \<Longrightarrow> hi = of_nat (8 * (n + 1) div 2 ^ 32)"
proof -
  show lo8: "lo + 8 = of_nat (8 * (n + 1))" by (simp add: lo_def)
  have z: "lo + 8 = 0 \<longleftrightarrow> 2 ^ 32 dvd 8 * (n + 1)"
    unfolding lo8 by (simp only: word_of_nat_eq_0_iff) simp
  have k: "8 * (n + 1) div 2 ^ 32 = (if 2 ^ 32 dvd 8 * (n + 1) then 8 * n div 2 ^ 32 + 1 else 8 * n div 2 ^ 32)"
    by (rule counter_div)
  show "lo + 8 = 0 \<Longrightarrow> hi + 1 = of_nat (8 * (n + 1) div 2 ^ 32) \<and> hi + 1 \<noteq> 0"
  proof -
    assume "lo + 8 = 0"
    then have e: "8 * (n + 1) div 2 ^ 32 = 8 * n div 2 ^ 32 + 1" using z k by simp
    have lt: "8 * (n + 1) div 2 ^ 32 < 2 ^ 32" using assms(1) by (simp add: div_less_iff_less_mult)
    have "hi + 1 = of_nat (8 * (n + 1) div 2 ^ 32)" unfolding e by (simp add: hi_def)
    moreover have "of_nat (8 * (n + 1) div 2 ^ 32) \<noteq> (0 :: u32)"
      using e lt by (simp only: word_of_nat_eq_0_iff) (auto dest: dvd_imp_le)
    ultimately show ?thesis by simp
  qed
  show "lo + 8 \<noteq> 0 \<Longrightarrow> hi = of_nat (8 * (n + 1) div 2 ^ 32)"
    using z k by (simp add: hi_def)
qed

text \<open>One more byte of the message.\<close>

lemma and_0xFF [simp]: "(b :: byte) AND 0xFF = b"
proof -
  have "(0xFF :: byte) = -1" by simp
  then show ?thesis by (simp only: and_minus_numerals and.right_neutral)
qed

lemma count_byte_frame [simp]:
  "Intermediate_Hash (count_byte c) = Intermediate_Hash c"
  "Message_Block (count_byte c) = Message_Block c"
  "Message_Block_Index (count_byte c) = Message_Block_Index c"
  "Computed (count_byte c) = Computed c"
  by (simp_all add: count_byte_def Let_def)

lemma count_byte_counted:
  assumes "counted c n" "n + 1 < 2 ^ 61"
  shows "counted (count_byte c) (n + 1)" and "Corrupted (count_byte c) = Corrupted c"
  using assms(1) counter_step [OF assms(2)] by (auto simp: counted_def count_byte_def Let_def add.commute)

lemma input_byte_frame [simp]:
  "Computed (input_byte b c) = Computed c"
  "Corrupted (input_byte b c) = Corrupted (count_byte c)"
  "Length_Low (input_byte b c) = Length_Low (count_byte c)"
  "Length_High (input_byte b c) = Length_High (count_byte c)"
  by (simp_all add: input_byte_def count_byte_def Let_def)

lemma input_byte_counted:
  "counted c n \<Longrightarrow> n + 1 < 2 ^ 61 \<Longrightarrow> counted (input_byte b c) (n + 1)"
  using count_byte_counted(1) [of c n] by (simp add: counted_def)

lemma absorbed_full_block:
  assumes "absorbed c p q" "length q = 63"
  shows "absorbed (SHA1ProcessMessageBlock (put_byte b c)) (p @ q @ [b]) []"
proof -
  have "Message_Block (put_byte b c) = q @ [b]"
    using assms put_byte_take(1) [of c q b] by (simp add: absorbed_def)
  moreover have "64 dvd length (p @ q @ [b])" using assms by (simp add: absorbed_def)
  ultimately show ?thesis
    using assms by (simp add: absorbed_def SHA1ProcessMessageBlock_compress sha1_blocks_append sha1_blocks_one)
qed

lemma absorbed_put_byte:
  assumes "absorbed c p q" "length q < 63"
  shows "absorbed (put_byte b c) p (q @ [b])"
  using assms put_byte_take(1) [of c q b] by (simp add: absorbed_def)

lemma absorbed_cong:
  "Message_Block c = Message_Block c' \<Longrightarrow> Message_Block_Index c = Message_Block_Index c'
   \<Longrightarrow> Intermediate_Hash c = Intermediate_Hash c' \<Longrightarrow> absorbed c p q = absorbed c' p q"
  by (simp add: absorbed_def)

lemma process_count_byte:
  "SHA1ProcessMessageBlock (count_byte c) = count_byte (SHA1ProcessMessageBlock c)"
  by (simp add: SHA1ProcessMessageBlock_def count_byte_def Let_def split: prod.splits)

lemma input_byte_absorbed:
  assumes "absorbed c p q"
  shows "\<exists>p' q'. absorbed (input_byte b c) p' q' \<and> p' @ q' = p @ q @ [b]"
proof (cases "length q = 63")
  case True
  then have "input_byte b c = count_byte (SHA1ProcessMessageBlock (put_byte b c))"
    using assms by (simp add: input_byte_def absorbed_def process_count_byte)
  then have "absorbed (input_byte b c) (p @ q @ [b]) []"
    using absorbed_full_block [OF assms True, of b] by (simp add: absorbed_def)
  then show ?thesis by fastforce
next
  case False
  then have "length q < 63" "input_byte b c = count_byte (put_byte b c)"
    using assms by (auto simp: input_byte_def absorbed_def)
  then have "absorbed (input_byte b c) p (q @ [b])"
    using absorbed_put_byte [OF assms, of b] by (simp add: absorbed_def)
  then show ?thesis by blast
qed

text \<open>The context that has taken in the message \<open>m\<close> and no digest yet.\<close>

definition ready :: "SHA1Context \<Rightarrow> byte list \<Rightarrow> bool" where
  "ready c m \<longleftrightarrow> (\<exists>p q. absorbed c p q \<and> p @ q = m) \<and> counted c (length m)
     \<and> \<not> Computed c \<and> Corrupted c = 0"

lemma input_byte_ready:
  assumes "ready c m" "length m + 1 < 2 ^ 61"
  shows "ready (input_byte b c) (m @ [b])"
proof -
  obtain p q where "absorbed c p q" "p @ q = m" using assms(1) by (auto simp: ready_def)
  then have "\<exists>p' q'. absorbed (input_byte b c) p' q' \<and> p' @ q' = m @ [b]"
    using input_byte_absorbed [of c p q b] by (metis append.assoc)
  then show ?thesis
    using assms input_byte_counted [of c "length m" b] count_byte_counted(2) [of c "length m"]
    by (simp add: ready_def)
qed

lemma SHA1Input_loop_ready:
  "ready c m \<Longrightarrow> length m + length bs < 2 ^ 61 \<Longrightarrow> ready (SHA1Input_loop c bs) (m @ bs)"
proof (induction bs arbitrary: c m)
  case (Cons b bs)
  then show ?case
    using Cons.IH [of "input_byte b c" "m @ [b]"] input_byte_ready [of c m b]
    by (simp add: ready_def)
qed simp

lemma SHA1_Update_ready:
  assumes "ready c m" "length m + length d < 2 ^ 61"
  shows "ready (SHA1_Update c d) (m @ d)"
  using assms SHA1Input_loop_ready [OF assms]
  by (cases d) (simp_all add: SHA1_Update_def SHA1Input_def ready_def)

lemma SHA1_Updates_ready:
  "ready c m \<Longrightarrow> length m + length (concat ds) < 2 ^ 61
   \<Longrightarrow> ready (fold (\<lambda>d c. SHA1_Update c d) ds c) (m @ concat ds)"
proof (induction ds arbitrary: c m)
  case (Cons d ds)
  then show ?case using Cons.IH [of "SHA1_Update c d" "m @ d"] SHA1_Update_ready [of c m d] by simp
qed simp

lemma SHA1_Init_ready: "length (Message_Block c) = 64 \<Longrightarrow> ready (SHA1_Init c) []"
  by (auto simp: ready_def absorbed_def counted_def SHA1_Init_def SHA1Reset_def vars_of_def sha1_IV_def)

section \<open>The padding\<close>

definition filled :: "SHA1Context \<Rightarrow> byte list \<Rightarrow> bool" where
  "filled c q \<longleftrightarrow> length q \<le> 64 \<and> length (Message_Block c) = 64
     \<and> Message_Block_Index c = length q \<and> take (length q) (Message_Block c) = q"

lemma put_byte_filled: "filled c q \<Longrightarrow> length q < 64 \<Longrightarrow> filled (put_byte b c) (q @ [b])"
  using put_byte_take(1) [of c q b] by (simp add: filled_def)

definition same_hash :: "SHA1Context \<Rightarrow> SHA1Context \<Rightarrow> bool" where
  "same_hash c c' \<longleftrightarrow> Intermediate_Hash c = Intermediate_Hash c' \<and> Length_Low c = Length_Low c'
     \<and> Length_High c = Length_High c' \<and> Computed c = Computed c' \<and> Corrupted c = Corrupted c'"

lemma put_zeros_filled:
  "filled c q \<Longrightarrow> length q + k \<le> 64
   \<Longrightarrow> filled ((put_byte 0 ^^ k) c) (q @ replicate k 0) \<and> same_hash ((put_byte 0 ^^ k) c) c"
proof (induction k)
  case (Suc k)
  then show ?case
    using put_byte_filled [of "(put_byte 0 ^^ k) c" "q @ replicate k 0" 0]
    by (simp add: same_hash_def replicate_append_same)
qed (simp add: same_hash_def)

lemma fill_zero_filled:
  assumes "filled c q" "length q \<le> n" "n \<le> 64"
  shows "filled (fill_zero n c) (q @ replicate (n - length q) 0)" and "same_hash (fill_zero n c) c"
  using put_zeros_filled [of c q "n - length q"] assms by (simp_all add: fill_zero_def filled_def)

lemma store_length_frame [simp]:
  "Intermediate_Hash (store_length c) = Intermediate_Hash c"
  "Computed (store_length c) = Computed c" "Corrupted (store_length c) = Corrupted c"
  by (simp_all add: store_length_def Let_def)

lemma be_bytes_8_split:
  fixes w :: u64
  defines "lo \<equiv> ucast w :: u32" and "hi \<equiv> ucast (drop_bit 32 w) :: u32"
  shows "be_bytes 8 w = [ucast (drop_bit 24 hi), ucast (drop_bit 16 hi), ucast (drop_bit 8 hi), ucast hi,
    ucast (drop_bit 24 lo), ucast (drop_bit 16 lo), ucast (drop_bit 8 lo), ucast lo]"
  by (simp add: be_bytes_def upt_rec lo_def hi_def)
    (intro conjI bit_word_eqI; auto simp: bit_simps)

lemma ucast_64_32_of_nat: "(ucast (of_nat k :: u64) :: u32) = of_nat k"
  by (rule bit_word_eqI) (simp add: bit_simps)

lemma drop_bit_of_nat_64: "k < 2 ^ 64 \<Longrightarrow> drop_bit 32 (of_nat k :: u64) = of_nat (k div 2 ^ 32)"
  by (rule word_unat_eq_iff [THEN iffD2])
    (simp add: unat_div_distrib drop_bit_eq_div unat_of_nat take_bit_nat_eq_self div_less_iff_less_mult)

lemma update_last_8:
  assumes "length q = 56" "length r = 8"
  shows "(q @ r)[56 := a, 57 := b, 58 := c, 59 := d, 60 := e, 61 := f, 62 := g, 63 := h] = q @ [a, b, c, d, e, f, g, h]"
proof -
  obtain r0 r1 r2 r3 r4 r5 r6 r7 where "r = [r0, r1, r2, r3, r4, r5, r6, r7]"
    using assms(2) by (auto simp: eval_nat_numeral length_Suc_conv)
  then show ?thesis using assms(1) by (simp add: list_update_append)
qed

lemma store_length_block:
  assumes "filled c q" "length q = 56" "counted c n" "n < 2 ^ 61"
  shows "Message_Block (store_length c) = q @ be_bytes 8 (of_nat (8 * n) :: u64)"
proof -
  let ?w = "of_nat (8 * n) :: u64"
  have lo: "Length_Low c = ucast ?w" using assms(3) by (simp only: counted_def ucast_64_32_of_nat)
  have "drop_bit 32 ?w = of_nat (8 * n div 2 ^ 32)"
    using assms(4) drop_bit_of_nat_64 [of "8 * n"] by simp
  then have hi: "Length_High c = ucast (drop_bit 32 ?w)"
    using assms(3) by (simp only: counted_def ucast_64_32_of_nat)
  have "Message_Block c = q @ drop 56 (Message_Block c)" "length (drop 56 (Message_Block c)) = 8"
    using assms by (metis filled_def append_take_drop_id) (use assms in \<open>simp add: filled_def\<close>)
  then obtain r where r: "Message_Block c = q @ r" "length r = 8" by blast
  show ?thesis
    unfolding be_bytes_8_split store_length_def lo hi Let_def
    by (simp add: r update_last_8 [OF assms(2) r(2)])
qed

lemma filled_block: "filled c q \<Longrightarrow> length q = 64 \<Longrightarrow> Message_Block c = q"
  by (metis filled_def order_refl take_all)

lemma absorbed_filled: "absorbed c p q \<Longrightarrow> filled c q"
  by (simp add: absorbed_def filled_def)

lemma final_block:
  assumes "filled c q" "length q = 56" "counted c n" "n < 2 ^ 61" "64 dvd length p"
    "vars_of (Intermediate_Hash c) = sha1_blocks sha1_IV p"
  shows "vars_of (Intermediate_Hash (SHA1ProcessMessageBlock (store_length c)))
    = sha1_blocks sha1_IV (p @ q @ be_bytes 8 (of_nat (8 * n) :: u64))"
  using assms store_length_block [OF assms(1-4)]
  by (simp add: SHA1ProcessMessageBlock_compress sha1_blocks_append sha1_blocks_one be_bytes_def)

lemma SHA1PadMessage_blocks:
  assumes "ready c m" "length m < 2 ^ 61"
  shows "vars_of (Intermediate_Hash (SHA1PadMessage c)) = sha1_blocks sha1_IV (sha1_pad m)"
proof -
  obtain p q where pq: "absorbed c p q" "m = p @ q" using assms(1) by (auto simp: ready_def)
  then have q: "length q < 64" "64 dvd length p" "vars_of (Intermediate_Hash c) = sha1_blocks sha1_IV p"
    "Message_Block_Index c = length q" "length m mod 64 = length q"
    by (auto simp: absorbed_def elim: dvdE)
  have cnt: "counted c (length m)" using assms(1) by (simp add: ready_def)
  let ?c1 = "put_byte 0x80 c" and ?len = "be_bytes 8 (of_nat (8 * length m) :: u64)"
  have f1: "filled ?c1 (q @ [0x80])" using q put_byte_filled [OF absorbed_filled [OF pq(1)]] by simp
  show ?thesis
  proof (cases "length q > 55")
    case True
    let ?b = "q @ [0x80] @ replicate (63 - length q) 0"
    let ?c2 = "fill_zero 64 ?c1" and ?c3 = "SHA1ProcessMessageBlock (fill_zero 64 ?c1)"
    have f2: "filled ?c2 ?b" "same_hash ?c2 ?c1"
      using fill_zero_filled [OF f1, of 64] q by (simp_all add: Suc_diff_Suc)
    have blk: "Message_Block ?c2 = ?b" by (rule filled_block [OF f2(1)]) (use q in simp)
    have h3: "vars_of (Intermediate_Hash ?c3) = sha1_blocks sha1_IV (p @ ?b)"
      using q f2 blk by (simp add: SHA1ProcessMessageBlock_compress same_hash_def sha1_blocks_append sha1_blocks_one)
    have f4: "filled (fill_zero 56 ?c3) (replicate 56 0)" "same_hash (fill_zero 56 ?c3) ?c3"
      using fill_zero_filled [of ?c3 "[]" 56] f2(1) by (simp_all add: filled_def)
    have d: "64 dvd length (p @ ?b)" using q by simp
    have "vars_of (Intermediate_Hash (SHA1PadMessage c)) = sha1_blocks sha1_IV ((p @ ?b) @ replicate 56 0 @ ?len)"
      unfolding SHA1PadMessage_def Let_def
      using final_block [OF f4(1) _ _ assms(2) d] f4(2) f2(2) h3 cnt q True
      by (simp add: counted_def same_hash_def)
    moreover have "sha1_pad m = (p @ ?b) @ replicate 56 0 @ ?len"
      using True q by (simp add: sha1_pad_def pq(2) replicate_add [symmetric])
    ultimately show ?thesis by simp
  next
    case False
    let ?b = "q @ [0x80] @ replicate (55 - length q) 0"
    have f2: "filled (fill_zero 56 ?c1) ?b" "same_hash (fill_zero 56 ?c1) ?c1"
      using fill_zero_filled [OF f1, of 56] q False by (simp_all add: Suc_diff_Suc)
    have "vars_of (Intermediate_Hash (SHA1PadMessage c)) = sha1_blocks sha1_IV (p @ ?b @ ?len)"
      unfolding SHA1PadMessage_def Let_def
      using final_block [OF f2(1) _ _ assms(2) q(2)] f2(2) cnt q False
      by (simp add: counted_def same_hash_def)
    moreover have "sha1_pad m = p @ ?b @ ?len"
      using False q by (simp add: sha1_pad_def pq(2) mod_if)
    ultimately show ?thesis by simp
  qed
qed

lemma put_bytes_frame: "same_hash ((put_byte b ^^ k) c) c"
  by (induction k) (simp_all add: same_hash_def)

lemma SHA1PadMessage_frame [simp]:
  "Computed (SHA1PadMessage c) = Computed c" "Corrupted (SHA1PadMessage c) = Corrupted c"
  "length (Intermediate_Hash (SHA1PadMessage c)) = 5"
  using put_bytes_frame by (simp_all add: SHA1PadMessage_def fill_zero_def same_hash_def Let_def)

lemma digest_bytes_be:
  "digest_bytes [a, b, c, d, e] = concat (map (be_bytes 4) [a, b, c, d, e])"
  by (simp add: digest_bytes_def be_bytes_def upt_rec)

lemma digest_bytes_vars:
  assumes "length H = 5"
  shows "digest_bytes H = (case vars_of H of (a, b, c, d, e) \<Rightarrow> concat (map (be_bytes 4) [a, b, c, d, e]))"
proof -
  obtain a b c d e where "H = [a, b, c, d, e]"
    using assms by (auto simp: eval_nat_numeral length_Suc_conv)
  then show ?thesis using digest_bytes_be [of a b c d e] by (simp add: vars_of_def)
qed

lemma SHA1_Final_ready:
  assumes "ready c m" "length m < 2 ^ 61"
  shows "fst (SHA1_Final d c) = sha1 m"
  using assms SHA1PadMessage_blocks [OF assms]
  by (simp add: SHA1_Final_def SHA1Result_def Let_def digest_bytes_vars sha1_def ready_def)

text \<open>
  C11: The interface of the library computes SHA-1: after \<open>SHA1_Init\<close> on any context, any sequence of
  \<open>SHA1_Update\<close> calls whose data have a total length below 2^61 bytes (a bit length of 64 bits)
  and \<open>SHA1_Final\<close>, the digest is the one the standard defines for the concatenated data.
\<close>

theorem sha1_correct:
  assumes "length (Message_Block c) = 64" "length (concat chunks) < 2 ^ 61"
  shows "fst (SHA1_Final d (fold (\<lambda>data c. SHA1_Update c data) chunks (SHA1_Init c))) = sha1 (concat chunks)"
  using SHA1_Final_ready [OF SHA1_Updates_ready [OF SHA1_Init_ready [OF assms(1)]]] assms(2) by simp

text \<open>
  The context an uninitialised \<open>SHA_CTX\<close> variable may hold.
\<close>

definition any_context :: SHA1Context where
  "any_context = \<lparr>Intermediate_Hash = [1, 2, 3, 4, 5], Length_Low = 7, Length_High = 9,
     Message_Block_Index = 70, Message_Block = replicate 64 0xAA, Computed = True, Corrupted = 3\<rparr>"

theorem sha1_correct_witness:
  "fst (SHA1_Final [] (fold (\<lambda>data c. SHA1_Update c data) [[0x61], [0x62, 0x63]] (SHA1_Init any_context)))
     = sha1 [0x61, 0x62, 0x63]"
  using sha1_correct [of any_context "[[0x61], [0x62, 0x63]]" "[]"] by (simp add: any_context_def)

section \<open>The error states\<close>






lemma SHA1Input_loop_computed [simp]: "Computed (SHA1Input_loop c bs) = Computed c"
  by (induction c bs rule: SHA1Input_loop.induct) simp_all




text \<open>
  The state machine of the context rejects input after the digest: whatever message a context
  has taken in, after \<open>SHA1Result\<close> a further non-empty \<open>SHA1Input\<close> returns \<open>shaStateError\<close>, every
  later \<open>SHA1Result\<close> returns \<open>shaStateError\<close> too and leaves the digest buffer as it was, and
  repeating \<open>SHA1Result\<close> without input returns the same digest.
\<close>

theorem sha1_input_after_result:
  fixes d :: "byte list"
  assumes "Corrupted c = 0" "n \<noteq> 0"
  defines "r \<equiv> SHA1Result (Some c) (Some d)"
  shows "SHA1Result (fst r) (Some d') = r
    \<and> snd (SHA1Input (fst r) (Some m) n) = shaStateError
    \<and> SHA1Result (fst (SHA1Input (fst r) (Some m) n)) (Some d')
        = (fst (SHA1Input (fst r) (Some m) n), Some d', shaStateError)"
  using assms(1,2) by (simp add: r_def SHA1Result_def SHA1Input_def Let_def shaStateError_def)

theorem sha1_input_after_result_witness:
  "snd (SHA1Input (fst (SHA1Result (Some (SHA1_Init any_context)) (Some []))) (Some [0x61]) 1) = shaStateError"
  using sha1_input_after_result [where c = "SHA1_Init any_context" and n = 1 and d = "[]" and d' = "[]" and m = "[0x61]"]
  by (simp add: SHA1_Init_def SHA1Reset_def)

end
