(* ===== verification/Key_Filter.thy ===== *)
theory Key_Filter
  imports Haggle_Prelude
begin

text \<open>
  What the two Bloom filters of \<open>src/src/utils\<close> share: the salted hash of a key, which both
  compute in the same way, and the contract a client relies on, as the locale \<open>key_filter\<close>.
  OpenSSL's SHA-1 is a parameter \<open>sha\<close>, the function from a message to its digest of 20 bytes.  The
  host is little-endian.
\<close>

section \<open>The salted hash\<close>

type_synonym digest = "byte list \<Rightarrow> byte list"

text \<open>The loop \<open>for (j = 0; j < 5; j++) hash = hash ^ md[j]\<close> over the digest read as integers.\<close>

definition fold_digest :: "byte list \<Rightarrow> u32" where
  "fold_digest md = fold (\<lambda>j hash. hash XOR le_word (take 4 (drop (4 * j) md))) [0..<5] 0"

text \<open>
  The assignment \<open>index = hash % m\<close>.  The division is undefined for \<open>m = 0\<close>; the conversion to \<open>int\<close>
  makes an index of 2^31 or more negative, and the access that follows undefined.
\<close>

definition filter_index :: "digest \<Rightarrow> u32 \<Rightarrow> byte list \<Rightarrow> u32 \<Rightarrow> nat option" where
  "filter_index sha m key salt =
     (if m = 0 then None
      else
        let index = unat (fold_digest (sha (key @ le_bytes salt)) mod m) in
        if index < 2 ^ 31 then Some index else None)"

text \<open>The positions of a key in a filter of \<open>m\<close> positions.\<close>

definition positions :: "digest \<Rightarrow> u32 \<Rightarrow> u32 list \<Rightarrow> byte list \<Rightarrow> nat list" where
  "positions sha m salts key = map (\<lambda>salt. unat (fold_digest (sha (key @ le_bytes salt)) mod m)) salts"

lemma filter_index_eq:
  assumes "0 < m" "m \<le> 2 ^ 31"
  shows "filter_index sha m key salt = Some (unat (fold_digest (sha (key @ le_bytes salt)) mod m))"
proof -
  have "fold_digest (sha (key @ le_bytes salt)) mod m < m" using assms(1) by (simp add: word_mod_less_divisor)
  also have "m \<le> 2 ^ 31" by (rule assms(2))
  finally show ?thesis using assms(1) by (auto simp: filter_index_def Let_def word_less_nat_alt)
qed

lemma positions_less: "0 < m \<Longrightarrow> i \<in> set (positions sha m salts key) \<Longrightarrow> i < unat m"
  by (auto simp: positions_def unat_mono word_mod_less_divisor)

lemma length_positions [simp]: "length (positions sha m salts key) = length salts"
  by (simp add: positions_def)

section \<open>The contract of a filter\<close>

text \<open>
  A filter \<open>s\<close> with \<open>room s n\<close> takes \<open>n\<close> more keys.  Adding a key uses up one of them, makes the check
  of that key succeed and never makes the check of another key fail.
\<close>

fun add_keys :: "('s \<Rightarrow> 'k \<Rightarrow> 's option) \<Rightarrow> 's \<Rightarrow> 'k list \<Rightarrow> 's option" where
  "add_keys add s [] = Some s"
| "add_keys add s (x # xs) = Option.bind (add s x) (\<lambda>s'. add_keys add s' xs)"

locale key_filter =
  fixes add :: "'s \<Rightarrow> 'k \<Rightarrow> 's option"
    and check :: "'s \<Rightarrow> 'k \<Rightarrow> bool option"
    and room :: "'s \<Rightarrow> nat \<Rightarrow> bool"
  assumes add_defined: "room s (Suc n) \<Longrightarrow> \<exists>s'. add s x = Some s' \<and> room s' n"
    and check_defined: "room s n \<Longrightarrow> \<exists>b. check s x = Some b"
    and check_added: "room s (Suc n) \<Longrightarrow> add s x = Some s' \<Longrightarrow> check s' x = Some True"
    and check_kept: "room s (Suc n) \<Longrightarrow> add s y = Some s' \<Longrightarrow> check s x = Some True \<Longrightarrow> check s' x = Some True"
begin

lemma add_keys_defined: "room s (length xs + n) \<Longrightarrow> \<exists>s'. add_keys add s xs = Some s' \<and> room s' n"
proof (induction xs arbitrary: s)
  case (Cons x xs)
  then obtain s' where "add s x = Some s'" "room s' (length xs + n)"
    using add_defined [of s "length xs + n" x] by auto
  then show ?case using Cons.IH by simp
qed simp

lemma add_keys_check_kept:
  "room s (length xs) \<Longrightarrow> add_keys add s xs = Some s' \<Longrightarrow> check s x = Some True \<Longrightarrow> check s' x = Some True"
proof (induction xs arbitrary: s)
  case (Cons y xs)
  then obtain t where t: "add s y = Some t" "room t (length xs)"
    using add_defined [of s "length xs" y] by auto
  then show ?case using Cons check_kept [of s "length xs" y t x] by simp
qed simp

lemma no_false_negatives:
  "room s (length xs) \<Longrightarrow> add_keys add s xs = Some s' \<Longrightarrow> x \<in> set xs \<Longrightarrow> check s' x = Some True"
proof (induction xs arbitrary: s)
  case (Cons y xs)
  then obtain t where t: "add s y = Some t" "room t (length xs)"
    using add_defined [of s "length xs" y] by auto
  then have "check t y = Some True" using Cons.prems check_added [of s "length xs" y t] by simp
  then show ?case using Cons t add_keys_check_kept [of t xs s' y] by auto
qed simp

end

end
