(* ===== verification/Bloomfilter.thy ===== *)
theory Bloomfilter
  imports Complex_Main Key_Filter Base64
begin

text \<open>
  The Bloom filter of \<open>src/src/utils/bloomfilter.c\<close>.  The structure and the arrays that follow it in
  its memory block are one record; the array of bins holds the bytes of the block after the salts.
  A pointer argument is an option, \<open>None\<close> for \<open>NULL\<close>; the outer option of a result is \<open>None\<close> when
  the behaviour of the C code is undefined.  The outcome of a \<open>malloc\<close> is a Boolean argument, the
  values of \<open>rand()\<close> are a function argument, and the floating-point expressions of the length
  computation are parameters with rational values (every finite \<open>double\<close> is one).
\<close>

section \<open>The structure\<close>

record bloomfilter =
  bf_k :: u32
  bf_m :: u32
  bf_n :: u32
  bf_salts :: "u32 list"
  bf_bins :: "byte list"

definition FILTER_LEN :: "bloomfilter \<Rightarrow> nat" where
  "FILTER_LEN bf = unat (bf_m bf) div 8"

definition SALTS_LEN :: "bloomfilter \<Rightarrow> nat" where
  "SALTS_LEN bf = unat (bf_k bf) * 4"

definition BLOOMFILTER_TOT_LEN :: "bloomfilter \<Rightarrow> nat" where
  "BLOOMFILTER_TOT_LEN bf = 12 + SALTS_LEN bf + FILTER_LEN bf"

text \<open>The memory block holds the salts and the bins that \<open>k\<close> and \<open>m\<close> announce.\<close>

definition in_block :: "bloomfilter \<Rightarrow> bool" where
  "in_block bf \<longleftrightarrow> length (bf_salts bf) = unat (bf_k bf) \<and> FILTER_LEN bf \<le> length (bf_bins bf)"

section \<open>Allocation\<close>

definition MAX_NUM_HASH_FUNCS :: nat where "MAX_NUM_HASH_FUNCS = 100"

fun best_length :: "(nat \<Rightarrow> rat) \<Rightarrow> nat list \<Rightarrow> rat \<Rightarrow> nat \<Rightarrow> rat \<times> nat" where
  "best_length candidate [] m_tmp best_k = (m_tmp, best_k)"
| "best_length candidate (k # ks) m_tmp best_k =
     (let m = candidate k in
      if m_tmp < 0 \<or> m < m_tmp then best_length candidate ks m k
      else best_length candidate ks m_tmp best_k)"

text \<open>
  \<open>candidate error_rate num_keys k\<close> is the value of \<open>(-1 * k * num_keys) / log(1 - pow(error_rate, 1/k))\<close>
  and \<open>plus_one m\<close> that of \<open>m + 1\<close>.  The conversion of a value outside the range of an \<open>unsigned int\<close>
  is undefined.
\<close>

definition bloomfilter_calculate_length ::
    "(rat \<Rightarrow> u32 \<Rightarrow> nat \<Rightarrow> rat) \<Rightarrow> (rat \<Rightarrow> rat) \<Rightarrow> u32 \<Rightarrow> rat \<Rightarrow> (u32 \<times> u32) option" where
  "bloomfilter_calculate_length candidate plus_one num_keys error_rate =
     (let (m_tmp, best_k) = best_length (candidate error_rate num_keys) [1..<MAX_NUM_HASH_FUNCS + 1] (-1) 1;
          v = plus_one m_tmp in
      if v \<le> -1 \<or> 2 ^ 32 \<le> v then None
      else
        let lowest_m = of_nat (nat \<lfloor>v\<rfloor>) :: u32;
            lowest_m = (if lowest_m mod 8 \<noteq> 0 then lowest_m + (8 - lowest_m mod 8) else lowest_m) in
        Some (lowest_m, of_nat best_k))"

definition bloomfilter_new :: "(rat \<Rightarrow> u32 \<Rightarrow> nat \<Rightarrow> rat) \<Rightarrow> (rat \<Rightarrow> rat) \<Rightarrow> bool \<Rightarrow> (nat \<Rightarrow> u32)
    \<Rightarrow> rat \<Rightarrow> u32 \<Rightarrow> bloomfilter option option" where
  "bloomfilter_new candidate plus_one malloc_ok rnd error_rate capacity =
     (case bloomfilter_calculate_length candidate plus_one capacity error_rate of
        None \<Rightarrow> None
      | Some (m, k) \<Rightarrow>
          if \<not> malloc_ok then Some None
          else Some (Some \<lparr>bf_k = k, bf_m = m, bf_n = 0, bf_salts = map rnd [0..<unat k],
                          bf_bins = replicate (unat m div 8) 0\<rparr>))"

definition bloomfilter_copy :: "bool \<Rightarrow> bloomfilter option \<Rightarrow> bloomfilter option option" where
  "bloomfilter_copy malloc_ok bf =
     (case bf of
        None \<Rightarrow> Some None
      | Some b \<Rightarrow>
          if \<not> malloc_ok then Some None
          else if in_block b then Some (Some (b\<lparr>bf_bins := take (FILTER_LEN b) (bf_bins b)\<rparr>))
          else None)"

section \<open>Check and add\<close>

definition BF_OP_CHECK :: nat where "BF_OP_CHECK = 0"
definition BF_OP_ADD :: nat where "BF_OP_ADD = 1"
definition BF_OP_MAX :: nat where "BF_OP_MAX = 2"

text \<open>The loop over the salts, with the increment of \<open>n\<close> after it.\<close>

fun bloomfilter_operation_loop :: "digest \<Rightarrow> byte list \<Rightarrow> nat \<Rightarrow> u32 list \<Rightarrow> bloomfilter
    \<Rightarrow> (bloomfilter \<times> int) option" where
  "bloomfilter_operation_loop sha key oper [] bf =
     Some (if oper = BF_OP_ADD then bf\<lparr>bf_n := bf_n bf + 1\<rparr> else bf, 1)"
| "bloomfilter_operation_loop sha key oper (salt # salts) bf =
     do {
       index \<leftarrow> filter_index sha (bf_m bf) key salt;
       if index div 8 < length (bf_bins bf)
       then
         if oper = BF_OP_CHECK
         then
           if bf_bins bf ! (index div 8) AND push_bit (index mod 8) 1 = 0 then Some (bf, 0)
           else bloomfilter_operation_loop sha key oper salts bf
         else
           bloomfilter_operation_loop sha key oper salts
             (bf\<lparr>bf_bins := (bf_bins bf)[index div 8 :=
                bf_bins bf ! (index div 8) OR push_bit (index mod 8) 1]\<rparr>)
       else None
     }"

definition bloomfilter_operation :: "digest \<Rightarrow> bool \<Rightarrow> bloomfilter option \<Rightarrow> byte list option \<Rightarrow> nat
    \<Rightarrow> nat \<Rightarrow> (bloomfilter option \<times> int) option" where
  "bloomfilter_operation sha malloc_ok bf key len oper =
     (case (bf, key) of
        (Some b, Some s) \<Rightarrow>
          if BF_OP_MAX \<le> oper then Some (bf, -1)
          else if \<not> malloc_ok then Some (bf, -1)
          else if length s < len \<or> length (bf_salts b) < unat (bf_k b) then None
          else
            do {
              (b', res) \<leftarrow> bloomfilter_operation_loop sha (take len s) oper (take (unat (bf_k b)) (bf_salts b)) b;
              Some (Some b', res)
            }
      | _ \<Rightarrow> Some (bf, -1))"

definition bloomfilter_check :: "digest \<Rightarrow> bool \<Rightarrow> bloomfilter option \<Rightarrow> byte list option \<Rightarrow> nat
    \<Rightarrow> (bloomfilter option \<times> int) option" where
  "bloomfilter_check sha malloc_ok bf key len = bloomfilter_operation sha malloc_ok bf key len BF_OP_CHECK"

definition bloomfilter_add :: "digest \<Rightarrow> bool \<Rightarrow> bloomfilter option \<Rightarrow> byte list option \<Rightarrow> nat
    \<Rightarrow> (bloomfilter option \<times> int) option" where
  "bloomfilter_add sha malloc_ok bf key len = bloomfilter_operation sha malloc_ok bf key len BF_OP_ADD"

section \<open>Merge\<close>

definition MERGE_RESULT_ERROR :: int where "MERGE_RESULT_ERROR = -3"
definition MERGE_RESULT_SALTS_ERROR :: int where "MERGE_RESULT_SALTS_ERROR = -2"
definition MERGE_RESULT_PARAM_ERROR :: int where "MERGE_RESULT_PARAM_ERROR = -1"
definition MERGE_RESULT_OK :: int where "MERGE_RESULT_OK = 0"

definition merge_bins :: "nat \<Rightarrow> byte list \<Rightarrow> byte list \<Rightarrow> byte list" where
  "merge_bins n bins bins' = fold (\<lambda>i bs. bs[i := bs ! i OR bins' ! i]) [0..<n] bins"

definition bloomfilter_merge :: "bloomfilter option \<Rightarrow> bloomfilter option \<Rightarrow> (bloomfilter option \<times> int) option" where
  "bloomfilter_merge bf bf_merge =
     (case (bf, bf_merge) of
        (Some b, Some b') \<Rightarrow>
          if bf_m b \<noteq> bf_m b' \<or> bf_k b \<noteq> bf_k b' then Some (bf, MERGE_RESULT_PARAM_ERROR)
          else if length (bf_salts b) < unat (bf_k b) \<or> length (bf_salts b') < unat (bf_k b') then None
          else if take (unat (bf_k b)) (bf_salts b) \<noteq> take (unat (bf_k b)) (bf_salts b')
          then Some (bf, MERGE_RESULT_SALTS_ERROR)
          else if length (bf_bins b) < FILTER_LEN b \<or> length (bf_bins b') < FILTER_LEN b then None
          else Some (Some (b\<lparr>bf_bins := merge_bins (FILTER_LEN b) (bf_bins b) (bf_bins b'),
                            bf_n := bf_n b + bf_n b'\<rparr>), MERGE_RESULT_OK)
      | _ \<Rightarrow> Some (bf, MERGE_RESULT_ERROR))"

section \<open>Text forms\<close>

text \<open>The bytes of a memory block that holds a filter.\<close>

definition bloomfilter_image :: "bloomfilter \<Rightarrow> byte list" where
  "bloomfilter_image bf =
     le_bytes (bf_k bf) @ le_bytes (bf_m bf) @ le_bytes (bf_n bf) @ concat (map le_bytes (bf_salts bf)) @ bf_bins bf"

text \<open>The copy \<open>bf_net\<close> in network byte order.\<close>

definition bloomfilter_net :: "bloomfilter \<Rightarrow> bloomfilter" where
  "bloomfilter_net bf =
     \<lparr>bf_k = htonl (bf_k bf), bf_m = htonl (bf_m bf), bf_n = htonl (bf_n bf),
      bf_salts = map htonl (take (unat (bf_k bf)) (bf_salts bf)), bf_bins = take (FILTER_LEN bf) (bf_bins bf)\<rparr>"

text \<open>
  \<open>bloomfilter_to_base64\<close>: \<open>malloc_ok\<close> and \<open>encode_ok\<close> are the outcomes of the two allocations.  The
  length is computed from the argument before it is compared with \<open>NULL\<close>.  The length returned by the
  encoder is converted to \<open>int\<close>.
\<close>

definition bloomfilter_to_base64 :: "bool \<Rightarrow> bool \<Rightarrow> bloomfilter option \<Rightarrow> string option option" where
  "bloomfilter_to_base64 malloc_ok encode_ok bf =
     (case bf of
        None \<Rightarrow> None
      | Some b \<Rightarrow>
          if \<not> malloc_ok then Some None
          else if \<not> in_block b then None
          else
            let (str, outsize) = base64_encode_alloc encode_ok (map char_of_byte (bloomfilter_image (bloomfilter_net b)));
                len = sint (ucast outsize :: u32) in
            case str of
              None \<Rightarrow> Some None
            | Some s \<Rightarrow> if len < 0 then Some None else Some (Some s))"

text \<open>The conversion of the decoded block in place.\<close>

definition bloomfilter_host :: "byte list \<Rightarrow> bloomfilter option" where
  "bloomfilter_host block =
     (if length block < 12 then None
      else
        let k = ntohl (le_word (take 4 block));
            m = ntohl (le_word (take 4 (drop 4 block)));
            n = ntohl (le_word (take 4 (drop 8 block))) in
        if length block < 12 + 4 * unat k then None
        else Some \<lparr>bf_k = k, bf_m = m, bf_n = n,
                   bf_salts = map (\<lambda>i. ntohl (le_word (take 4 (drop (12 + 4 * i) block)))) [0..<unat k],
                   bf_bins = drop (12 + 4 * unat k) block\<rparr>)"

text \<open>
  \<open>base64_to_bloomfilter\<close>: \<open>stack\<close> is the value of the uninitialised decoding context.  When the
  allocation in the decoder fails the code uses the pointer \<open>NULL\<close>.
\<close>

definition base64_to_bloomfilter :: "bool \<Rightarrow> base64_decode_context \<Rightarrow> string \<Rightarrow> bloomfilter option option" where
  "base64_to_bloomfilter malloc_ok stack str =
     do {
       (_, ok, ptr) \<leftarrow> base64_decode_alloc malloc_ok (base64_decode_ctx_init stack) str;
       if \<not> ok then Some None
       else
         do {
           block \<leftarrow> ptr;
           bf \<leftarrow> bloomfilter_host (map byte_of_char block);
           Some (Some bf)
         }
     }"

text \<open>
  \<open>bloomfilter_to_str\<close> prints two hexadecimal digits for each byte of the structure, and \<open>sprintf\<close> a
  terminator after them, to a buffer of \<open>BLOOMFILTER_TOT_LEN(bf) + 1\<close> bytes.
\<close>

definition hex_digit :: "nat \<Rightarrow> char" where
  "hex_digit d = ''0123456789abcdef'' ! d"

fun sprint_hex :: "nat \<Rightarrow> string \<Rightarrow> byte list \<Rightarrow> string option" where
  "sprint_hex bufsize str [] = Some str"
| "sprint_hex bufsize str (b # bs) =
     (let str = str @ [hex_digit (unat b div 16), hex_digit (unat b mod 16)] in
      if bufsize < length str + 1 then None else sprint_hex bufsize str bs)"

definition bloomfilter_to_str :: "bool \<Rightarrow> bloomfilter option \<Rightarrow> string option option" where
  "bloomfilter_to_str malloc_ok bf =
     (case bf of
        None \<Rightarrow> Some None
      | Some b \<Rightarrow>
          if \<not> malloc_ok then Some None
          else if \<not> in_block b then None
          else map_option Some (sprint_hex (BLOOMFILTER_TOT_LEN b + 1) []
                 (take (BLOOMFILTER_TOT_LEN b) (bloomfilter_image b))))"

section \<open>The abstraction to a set of positions\<close>

definition wf_bf :: "bloomfilter \<Rightarrow> bool" where
  "wf_bf bf \<longleftrightarrow> 0 < bf_m bf \<and> bf_m bf \<le> 2 ^ 31 \<and> 8 dvd unat (bf_m bf)
     \<and> length (bf_salts bf) = unat (bf_k bf) \<and> length (bf_bins bf) = unat (bf_m bf) div 8"

definition bits_of :: "bloomfilter \<Rightarrow> nat set" where
  "bits_of bf = {i. i < unat (bf_m bf) \<and> bit (bf_bins bf ! (i div 8)) (i mod 8)}"

lemma wf_bf_index:
  "wf_bf bf \<Longrightarrow> i < unat (bf_m bf) \<Longrightarrow> i div 8 < length (bf_bins bf)"
  by (auto simp: wf_bf_def div_less_iff_less_mult)

lemma operation_loop_check:
  assumes "wf_bf bf"
  shows "bloomfilter_operation_loop sha key BF_OP_CHECK salts bf =
    Some (bf, if set (positions sha (bf_m bf) salts key) \<subseteq> bits_of bf then 1 else 0)"
proof (induction salts)
  case Nil
  show ?case by (simp add: positions_def BF_OP_CHECK_def BF_OP_ADD_def)
next
  case (Cons salt salts)
  let ?i = "unat (fold_digest (sha (key @ le_bytes salt)) mod bf_m bf)"
  have m: "0 < bf_m bf" "bf_m bf \<le> 2 ^ 31" using assms by (simp_all add: wf_bf_def)
  have i: "?i < unat (bf_m bf)" using m by (simp add: unat_mono word_mod_less_divisor)
  have "?i \<in> bits_of bf \<longleftrightarrow> bit (bf_bins bf ! (?i div 8)) (?i mod 8)" using i by (simp add: bits_of_def)
  then show ?case
    using Cons.IH wf_bf_index [OF assms i] by (simp add: filter_index_eq [OF m] and_exp_eq_0_iff_not_bit positions_def)
qed

definition set_bit_at :: "nat \<Rightarrow> bloomfilter \<Rightarrow> bloomfilter" where
  "set_bit_at i bf = bf\<lparr>bf_bins := (bf_bins bf)[i div 8 := bf_bins bf ! (i div 8) OR push_bit (i mod 8) 1]\<rparr>"

lemma set_bit_at:
  assumes "wf_bf bf" "i < unat (bf_m bf)"
  shows "wf_bf (set_bit_at i bf)" and "bits_of (set_bit_at i bf) = insert i (bits_of bf)"
proof -
  show "wf_bf (set_bit_at i bf)" using assms by (simp add: wf_bf_def set_bit_at_def)
  have "bit (bf_bins (set_bit_at i bf) ! (j div 8)) (j mod 8) \<longleftrightarrow> j = i \<or> bit (bf_bins bf ! (j div 8)) (j mod 8)"
    if "j < unat (bf_m bf)" for j
  proof (cases "j div 8 = i div 8")
    case True
    then have "j = i \<longleftrightarrow> j mod 8 = i mod 8" by (metis div_mult_mod_eq)
    then show ?thesis
      using True wf_bf_index [OF assms] by (auto simp: set_bit_at_def bit_simps)
  next
    case False
    then show ?thesis by (auto simp: set_bit_at_def)
  qed
  then show "bits_of (set_bit_at i bf) = insert i (bits_of bf)"
    using assms(2) by (auto simp: bits_of_def set_bit_at_def)
qed

lemma operation_loop_add:
  assumes "wf_bf bf"
  shows "\<exists>bf'. bloomfilter_operation_loop sha key BF_OP_ADD salts bf = Some (bf', 1) \<and> wf_bf bf'
    \<and> bits_of bf' = bits_of bf \<union> set (positions sha (bf_m bf) salts key)
    \<and> bf_n bf' = bf_n bf + 1 \<and> bf_m bf' = bf_m bf \<and> bf_k bf' = bf_k bf \<and> bf_salts bf' = bf_salts bf"
  using assms
proof (induction salts arbitrary: bf)
  case Nil
  then show ?case by (simp add: positions_def wf_bf_def bits_of_def)
next
  case (Cons salt salts)
  let ?i = "unat (fold_digest (sha (key @ le_bytes salt)) mod bf_m bf)"
  have m: "0 < bf_m bf" "bf_m bf \<le> 2 ^ 31" using Cons.prems by (simp_all add: wf_bf_def)
  have i: "?i < unat (bf_m bf)" using m by (simp add: unat_mono word_mod_less_divisor)
  note s = set_bit_at [OF Cons.prems i]
  have eq: "bloomfilter_operation_loop sha key BF_OP_ADD (salt # salts) bf
      = bloomfilter_operation_loop sha key BF_OP_ADD salts (set_bit_at ?i bf)"
    using wf_bf_index [OF Cons.prems i] by (simp add: filter_index_eq [OF m] set_bit_at_def BF_OP_ADD_def BF_OP_CHECK_def)
  show ?case
    using Cons.IH [OF s(1)] unfolding eq s(2) by (simp add: positions_def set_bit_at_def)
qed


lemma bloomfilter_check_wf:
  assumes "wf_bf bf" "len \<le> length key"
  shows "bloomfilter_check sha True (Some bf) (Some key) len =
    Some (Some bf, if set (positions sha (bf_m bf) (bf_salts bf) (take len key)) \<subseteq> bits_of bf then 1 else 0)"
  using assms
  by (simp add: bloomfilter_check_def bloomfilter_operation_def operation_loop_check wf_bf_def [of bf] BF_OP_CHECK_def [symmetric])
     (simp add: BF_OP_CHECK_def BF_OP_MAX_def)

lemma bloomfilter_add_wf:
  assumes "wf_bf bf" "len \<le> length key"
  shows "\<exists>bf'. bloomfilter_add sha True (Some bf) (Some key) len = Some (Some bf', 1) \<and> wf_bf bf'
    \<and> bits_of bf' = bits_of bf \<union> set (positions sha (bf_m bf) (bf_salts bf) (take len key))
    \<and> bf_n bf' = bf_n bf + 1 \<and> bf_m bf' = bf_m bf \<and> bf_k bf' = bf_k bf \<and> bf_salts bf' = bf_salts bf"
proof -
  have "length (bf_salts bf) = unat (bf_k bf)" "BF_OP_ADD < BF_OP_MAX"
    using assms by (simp_all add: wf_bf_def BF_OP_ADD_def BF_OP_MAX_def)
  then show ?thesis
    using operation_loop_add [OF assms(1), of sha "take len key" "bf_salts bf"] assms(2)
    by (auto simp: bloomfilter_add_def bloomfilter_operation_def)
qed

section \<open>The filter meets the contract\<close>

definition bf_add :: "digest \<Rightarrow> bloomfilter \<Rightarrow> byte list \<Rightarrow> bloomfilter option" where
  "bf_add sha bf key = Option.bind (bloomfilter_add sha True (Some bf) (Some key) (length key)) fst"

definition bf_check :: "digest \<Rightarrow> bloomfilter \<Rightarrow> byte list \<Rightarrow> bool option" where
  "bf_check sha bf key =
     map_option (\<lambda>(_, res). res = 1) (bloomfilter_check sha True (Some bf) (Some key) (length key))"

lemma bf_check_wf:
  "wf_bf bf \<Longrightarrow> bf_check sha bf key
     = Some (set (positions sha (bf_m bf) (bf_salts bf) key) \<subseteq> bits_of bf)"
  by (simp add: bf_check_def bloomfilter_check_wf)

lemma bf_add_wf:
  assumes "wf_bf bf"
  shows "\<exists>bf'. bf_add sha bf key = Some bf' \<and> wf_bf bf'
    \<and> bits_of bf' = bits_of bf \<union> set (positions sha (bf_m bf) (bf_salts bf) key)
    \<and> bf_m bf' = bf_m bf \<and> bf_salts bf' = bf_salts bf"
  using bloomfilter_add_wf [OF assms, of "length key" key sha] by (auto simp: bf_add_def)

interpretation bf: key_filter "bf_add sha" "bf_check sha" "\<lambda>bf n. wf_bf bf" for sha
proof unfold_locales
  fix s x y s' and n :: nat
  assume wf: "wf_bf s"
  show "\<exists>s'. bf_add sha s x = Some s' \<and> wf_bf s'" using bf_add_wf [OF wf, of sha x] by auto
  show "\<exists>b. bf_check sha s x = Some b" using wf by (simp add: bf_check_wf)
  show "bf_check sha s' x = Some True" if "bf_add sha s x = Some s'"
    using that bf_add_wf [OF wf, of sha x] by (auto simp: bf_check_wf)
  show "bf_check sha s' x = Some True" if "bf_add sha s y = Some s'" "bf_check sha s x = Some True"
    using that bf_add_wf [OF wf, of sha y] by (auto simp: bf_check_wf [OF wf] bf_check_wf)
qed

section \<open>Merging\<close>

lemma length_merge_bins [simp]: "length (merge_bins n bs bs') = length bs"
  by (induction n) (simp_all add: merge_bins_def)

lemma merge_bins_nth:
  "n \<le> length bs \<Longrightarrow> i < length bs
   \<Longrightarrow> merge_bins n bs bs' ! i = (if i < n then bs ! i OR bs' ! i else bs ! i)"
proof (induction n)
  case 0
  then show ?case by (simp add: merge_bins_def)
next
  case (Suc n)
  have "merge_bins (Suc n) bs bs' = (merge_bins n bs bs')[n := merge_bins n bs bs' ! n OR bs' ! n]"
    by (simp add: merge_bins_def)
  then show ?case using Suc by (auto simp: nth_list_update)
qed

lemma bloomfilter_merge_same:
  assumes "wf_bf b" "wf_bf b'" "bf_m b = bf_m b'" "bf_k b = bf_k b'" "bf_salts b = bf_salts b'"
  shows "\<exists>r. bloomfilter_merge (Some b) (Some b') = Some (Some r, MERGE_RESULT_OK) \<and> wf_bf r
    \<and> bits_of r = bits_of b \<union> bits_of b' \<and> bf_n r = bf_n b + bf_n b'
    \<and> bf_m r = bf_m b \<and> bf_k r = bf_k b \<and> bf_salts r = bf_salts b"
proof -
  let ?r = "b\<lparr>bf_bins := merge_bins (FILTER_LEN b) (bf_bins b) (bf_bins b'), bf_n := bf_n b + bf_n b'\<rparr>"
  have len: "length (bf_bins b) = FILTER_LEN b" "length (bf_bins b') = FILTER_LEN b"
    using assms by (simp_all add: wf_bf_def FILTER_LEN_def)
  have "bloomfilter_merge (Some b) (Some b') = Some (Some ?r, MERGE_RESULT_OK)"
    using assms len by (simp add: bloomfilter_merge_def wf_bf_def)
  moreover have "bits_of ?r = bits_of b \<union> bits_of b'"
    using wf_bf_index [OF assms(1)] len assms(3) by (auto simp: bits_of_def merge_bins_nth bit_simps)
  ultimately show ?thesis using assms(1) len by (auto simp: wf_bf_def)
qed


section \<open>The text form\<close>

lemma bloomfilter_host_net:
  assumes "wf_bf bf"
  shows "bloomfilter_host (bloomfilter_image (bloomfilter_net bf)) = Some bf"
proof -
  let ?S = "concat (map (be_bytes 4) (bf_salts bf))" and ?B = "bf_bins bf"
  let ?img = "be_bytes 4 (bf_k bf) @ be_bytes 4 (bf_m bf) @ be_bytes 4 (bf_n bf) @ ?S @ ?B"
  have img: "bloomfilter_image (bloomfilter_net bf) = ?img"
    using assms by (simp add: bloomfilter_image_def bloomfilter_net_def wf_bf_def FILTER_LEN_def comp_def)
  have len: "length ?S = 4 * unat (bf_k bf)" using assms by (simp add: length_concat_const [of _ 4] wf_bf_def)
  have d: "drop (12 + j) ?img = drop j (?S @ ?B)" for j
    by (simp add: drop_append del: append_assoc flip: append_assoc)
  have salts: "map (\<lambda>i. ntohl (le_word (take 4 (drop (12 + 4 * i) ?img)))) [0..<unat (bf_k bf)] = bf_salts bf"
    using assms unfolding d by (intro nth_equalityI) (simp_all add: wf_bf_def take_drop_concat del: take_append drop_append)
  show ?thesis
    unfolding img bloomfilter_host_def using salts len
    by (simp add: Let_def)
qed

lemma length_bloomfilter_image_net:
  "wf_bf bf \<Longrightarrow> length (bloomfilter_image (bloomfilter_net bf)) = BLOOMFILTER_TOT_LEN bf"
  by (simp add: bloomfilter_image_def bloomfilter_net_def wf_bf_def length_concat_const [of _ 4] BLOOMFILTER_TOT_LEN_def
      FILTER_LEN_def SALTS_LEN_def comp_def)

lemma base64_encode_alloc_int:
  assumes "length s \<le> 2 ^ 30"
  shows "base64_encode_alloc True s = (Some (encode_text s @ [CHR 0x00]), of_nat (length (encode_text s)))"
    and "0 \<le> sint (ucast (of_nat (length (encode_text s)) :: u64) :: u32)"
proof -
  let ?n = "length (encode_text s)"
  have n: "?n < 2 ^ 31" using assms by (simp add: length_encode_text)
  then show "base64_encode_alloc True s = (Some (encode_text s @ [CHR 0x00]), of_nat ?n)"
    using base64_encode_alloc_spec [of s] assms by simp
  have "(ucast (of_nat ?n :: u64) :: u32) = of_nat ?n" by (rule bit_word_eqI) (simp add: bit_simps)
  then show "0 \<le> sint (ucast (of_nat ?n :: u64) :: u32)"
    using n by (simp add: signed_of_nat signed_take_bit_int_eq_self)
qed

lemma bloomfilter_to_base64_wf:
  assumes "wf_bf bf" "BLOOMFILTER_TOT_LEN bf \<le> 2 ^ 30"
  shows "bloomfilter_to_base64 True True (Some bf) =
    Some (Some (encode_text (map char_of_byte (bloomfilter_image (bloomfilter_net bf))) @ [CHR 0x00]))"
proof -
  let ?s = "map char_of_byte (bloomfilter_image (bloomfilter_net bf))"
  have "length ?s \<le> 2 ^ 30" using assms by (simp add: length_bloomfilter_image_net)
  moreover have "in_block bf" using assms(1) by (simp add: in_block_def wf_bf_def FILTER_LEN_def)
  ultimately show ?thesis using base64_encode_alloc_int [of ?s] by (simp add: bloomfilter_to_base64_def)
qed

section \<open>A new filter\<close>

lemma best_length_minimal:
  assumes "\<forall>k \<in> set ks. 0 \<le> candidate k" "0 \<le> m"
  shows "best_length candidate ks m k = (m', k') \<Longrightarrow>
    m' \<le> m \<and> (\<forall>j \<in> set ks. m' \<le> candidate j) \<and> (m' = m \<and> k' = k \<or> k' \<in> set ks \<and> m' = candidate k')"
  using assms
proof (induction ks arbitrary: m k)
  case (Cons j js)
  show ?case
  proof (cases "candidate j < m")
    case True
    then show ?thesis using Cons.IH [of "candidate j" j] Cons.prems by (auto simp: Let_def)
  next
    case False
    then show ?thesis using Cons.IH [of m k] Cons.prems by (auto simp: Let_def)
  qed
qed simp

lemma best_length_from_start:
  assumes "1 \<le> n" "\<forall>k \<in> {1..n}. 0 \<le> candidate k" "best_length candidate [1..<n + 1] (-1) 1 = (m, k)"
  shows "1 \<le> k \<and> k \<le> n \<and> m = candidate k \<and> (\<forall>j \<in> {1..n}. m \<le> candidate j)"
proof -
  have up: "[1..<n + 1] = 1 # [2..<n + 1]" using assms(1) by (simp add: upt_rec numeral_2_eq_2)
  have "best_length candidate [2..<n + 1] (candidate 1) 1 = (m, k)"
    using assms(3) unfolding up by (simp add: Let_def)
  moreover have "{1..n} = insert 1 (set [2..<n + 1])" using assms(1) by auto
  ultimately show ?thesis
    using best_length_minimal [of "[2..<n + 1]" candidate "candidate 1" 1 m k] assms(1,2) by auto
qed

lemma round_up_8: "8 dvd unat (if x mod 8 \<noteq> 0 then x + (8 - x mod 8) else (x :: u32))"
proof (cases "x mod 8 = 0")
  case True
  have "unat x mod 8 = unat (x mod 8)" by (simp add: unat_mod_distrib)
  then have "unat x mod 8 = 0" unfolding True by simp
  then show ?thesis using True by (simp only: dvd_eq_mod_eq_0 if_False simp_thms)
next
  case False
  have r: "unat (x mod 8) = unat x mod 8" by (simp add: unat_mod_distrib)
  have "x mod 8 \<le> 8" by (simp add: word_le_nat_alt r less_imp_le)
  then have "unat (8 - x mod 8) = 8 - unat x mod 8" by (simp add: unat_sub r)
  then have "unat (x + (8 - x mod 8)) = (unat x + (8 - unat x mod 8)) mod 2 ^ 32"
    by (simp add: unat_word_ariths)
  moreover have "8 dvd unat x + (8 - unat x mod 8)" by presburger
  ultimately show ?thesis using False by (simp add: dvd_mod)
qed

lemma bloomfilter_calculate_length_spec:
  assumes "\<forall>k \<in> {1..100}. 0 \<le> candidate rate cap k"
    and "bloomfilter_calculate_length candidate plus_one cap rate = Some (m, k)"
  shows "1 \<le> unat k \<and> unat k \<le> 100 \<and> 8 dvd unat m
    \<and> (\<forall>j \<in> {1..100}. candidate rate cap (unat k) \<le> candidate rate cap j)"
proof -
  obtain t b where tb: "best_length (candidate rate cap) [1..<MAX_NUM_HASH_FUNCS + 1] (-1) 1 = (t, b)" by fastforce
  have "1 \<le> b \<and> b \<le> MAX_NUM_HASH_FUNCS \<and> t = candidate rate cap b
    \<and> (\<forall>j \<in> {1..MAX_NUM_HASH_FUNCS}. t \<le> candidate rate cap j)"
    by (rule best_length_from_start [OF _ _ tb]) (use assms(1) in \<open>simp_all add: MAX_NUM_HASH_FUNCS_def\<close>)
  note B = this [unfolded MAX_NUM_HASH_FUNCS_def]
  note def = assms(2) [unfolded bloomfilter_calculate_length_def tb Let_def prod.case]
  let ?x = "of_nat (nat \<lfloor>plus_one t\<rfloor>) :: u32"
  have k: "k = of_nat b" using def by (simp split: if_splits)
  have "unat k = b" using B unfolding k by (simp add: unat_of_nat)
  moreover have m: "m = (if ?x mod 8 \<noteq> 0 then ?x + (8 - ?x mod 8) else ?x)" using def by (simp split: if_splits)
  moreover have "8 dvd unat m" unfolding m by (rule round_up_8)
  ultimately show ?thesis using B by auto
qed

lemma bloomfilter_new_empty:
  assumes "\<forall>k \<in> {1..100}. 0 \<le> candidate rate cap k"
    and "bloomfilter_new candidate plus_one True rnd rate cap = Some (Some bf)"
    and "0 < bf_m bf" "bf_m bf \<le> 2 ^ 31"
  shows "wf_bf bf \<and> bits_of bf = {} \<and> bf_n bf = 0 \<and> bf_salts bf \<noteq> []"
proof -
  obtain m k where mk: "bloomfilter_calculate_length candidate plus_one cap rate = Some (m, k)"
    and bf: "bf = \<lparr>bf_k = k, bf_m = m, bf_n = 0, bf_salts = map rnd [0..<unat k], bf_bins = replicate (unat m div 8) 0\<rparr>"
    using assms(2) by (auto simp: bloomfilter_new_def split: option.splits prod.splits)
  note S = bloomfilter_calculate_length_spec [OF assms(1) mk]
  have wf: "wf_bf bf" using assms(3,4) S by (simp add: bf wf_bf_def)
  moreover have "bits_of bf = {}" using wf_bf_index [OF wf] by (auto simp: bits_of_def bf)
  ultimately show ?thesis using S by (simp add: bf)
qed

lemma sprint_hex_overflow:
  "bufsize \<le> length str + 2 * length bs \<Longrightarrow> bs \<noteq> [] \<Longrightarrow> sprint_hex bufsize str bs = None"
proof (induction bs arbitrary: str)
  case (Cons b bs)
  then show ?case by (cases "bs = []") (auto simp: Let_def)
qed simp

section \<open>Properties\<close>

text \<open>
  C24: On a well-formed filter, \<open>bloomfilter_operation\<close> refines operations on the set of the
  positions whose bit is set: check leaves the filter as it is and returns 1 exactly when every
  position of the key is set; add returns 1, sets exactly the positions of the key and increments
  \<open>n\<close>, and the filter stays well-formed.
\<close>

theorem bloomfilter_operation_refines:
  fixes sha :: digest
  assumes "wf_bf bf" "len \<le> length key"
  defines "pos \<equiv> set (positions sha (bf_m bf) (bf_salts bf) (take len key))"
  shows "bloomfilter_check sha True (Some bf) (Some key) len
      = Some (Some bf, if pos \<subseteq> bits_of bf then 1 else 0)
    \<and> (\<exists>bf'. bloomfilter_add sha True (Some bf) (Some key) len = Some (Some bf', 1) \<and> wf_bf bf'
        \<and> bits_of bf' = bits_of bf \<union> pos \<and> bf_n bf' = bf_n bf + 1
        \<and> bf_m bf' = bf_m bf \<and> bf_k bf' = bf_k bf \<and> bf_salts bf' = bf_salts bf)"
  using bloomfilter_check_wf [OF assms(1,2)] bloomfilter_add_wf [OF assms(1,2)] by (simp add: pos_def)

text \<open>A digest function for examples: the message, cut or padded with zeros to 20 bytes.\<close>

definition toy_digest :: digest where
  "toy_digest x = take 20 (x @ replicate 20 0)"

definition small_filter :: bloomfilter where
  "small_filter = \<lparr>bf_k = 2, bf_m = 16, bf_n = 0, bf_salts = [1, 2], bf_bins = [0, 0]\<rparr>"

lemma wf_small_filter: "wf_bf small_filter"
  by (simp add: wf_bf_def small_filter_def)

theorem bloomfilter_operation_refines_witness:
  "\<exists>bf'. bloomfilter_add toy_digest True (Some small_filter) (Some [65]) 1 = Some (Some bf', 1) \<and> wf_bf bf'"
  using bloomfilter_operation_refines [OF wf_small_filter, where len = 1 and key = "[65]" and sha = toy_digest] by auto

text \<open>
  C12: No false negatives: on a well-formed filter the additions of any keys are defined, and
  afterwards the check succeeds for every added key and for every key for which it succeeded before.
\<close>

theorem bloomfilter_no_false_negatives:
  assumes "wf_bf bf"
  shows "\<exists>bf'. add_keys (bf_add sha) bf keys = Some bf' \<and> wf_bf bf'
    \<and> (\<forall>key. key \<in> set keys \<or> bf_check sha bf key = Some True \<longrightarrow> bf_check sha bf' key = Some True)"
proof -
  obtain bf' where "add_keys (bf_add sha) bf keys = Some bf'" "wf_bf bf'"
    using bf.add_keys_defined [OF assms] by blast
  then show ?thesis
    using bf.no_false_negatives [OF assms] bf.add_keys_check_kept [OF assms] by blast
qed

theorem bloomfilter_no_false_negatives_witness:
  "\<exists>bf'. add_keys (bf_add toy_digest) small_filter [[65], [66, 67]] = Some bf'
     \<and> bf_check toy_digest bf' [66, 67] = Some True"
  using bloomfilter_no_false_negatives [OF wf_small_filter, of toy_digest "[[65], [66, 67]]"] by auto

text \<open>
  C25: \<open>bloomfilter_merge\<close> of two well-formed filters: filters with other parameters or salts are
  refused with the code for it and the first filter is unchanged; otherwise the result is a
  well-formed filter whose set of positions is the union, so that it reports every key that either
  filter reports.
\<close>

theorem bloomfilter_merge_union:
  assumes "wf_bf b" "wf_bf b'"
  shows "if bf_m b \<noteq> bf_m b' \<or> bf_k b \<noteq> bf_k b'
     then bloomfilter_merge (Some b) (Some b') = Some (Some b, MERGE_RESULT_PARAM_ERROR)
     else if bf_salts b \<noteq> bf_salts b'
     then bloomfilter_merge (Some b) (Some b') = Some (Some b, MERGE_RESULT_SALTS_ERROR)
     else \<exists>r. bloomfilter_merge (Some b) (Some b') = Some (Some r, MERGE_RESULT_OK) \<and> wf_bf r
       \<and> bits_of r = bits_of b \<union> bits_of b' \<and> bf_n r = bf_n b + bf_n b'
       \<and> (\<forall>sha key. bf_check sha b key = Some True \<or> bf_check sha b' key = Some True
            \<longrightarrow> bf_check sha r key = Some True)"
proof -
  have "bloomfilter_merge (Some b) (Some b') = Some (Some b, MERGE_RESULT_PARAM_ERROR)"
    if "bf_m b \<noteq> bf_m b' \<or> bf_k b \<noteq> bf_k b'"
    using that by (simp add: bloomfilter_merge_def)
  moreover have "bloomfilter_merge (Some b) (Some b') = Some (Some b, MERGE_RESULT_SALTS_ERROR)"
    if "bf_m b = bf_m b'" "bf_k b = bf_k b'" "bf_salts b \<noteq> bf_salts b'"
    using that assms by (simp add: bloomfilter_merge_def wf_bf_def)
  moreover note bloomfilter_merge_same [OF assms]
  ultimately show ?thesis using assms by (auto simp: bf_check_wf) (auto simp: bf_check_wf)
qed

theorem bloomfilter_merge_union_witness:
  "\<exists>r. bloomfilter_merge (Some small_filter) (Some small_filter) = Some (Some r, MERGE_RESULT_OK) \<and> wf_bf r"
  using bloomfilter_merge_union [OF wf_small_filter wf_small_filter] by auto

text \<open>
  C26: The text form round-trips: for a well-formed filter of at most 2^30 bytes,
  \<open>bloomfilter_to_base64\<close> returns a string from which \<open>base64_to_bloomfilter\<close> rebuilds the filter.
\<close>

theorem bloomfilter_base64_roundtrip:
  assumes "wf_bf bf" "BLOOMFILTER_TOT_LEN bf \<le> 2 ^ 30" "length (ctx_buf stack) = 4"
  shows "\<exists>text. bloomfilter_to_base64 True True (Some bf) = Some (Some text)
    \<and> base64_to_bloomfilter True stack (c_string text) = Some (Some bf)"
proof -
  let ?s = "map char_of_byte (bloomfilter_image (bloomfilter_net bf))"
  have "\<exists>ctx'. base64_decode_alloc True (base64_decode_ctx_init stack) (encode_text ?s) = Some (ctx', True, Some ?s)"
    using base64_decode_alloc_spec [OF assms(3), of "encode_text ?s"] by (simp add: decode_encode_text)
  then have "base64_to_bloomfilter True stack (encode_text ?s) = Some (Some bf)"
    by (auto simp: base64_to_bloomfilter_def bloomfilter_host_net [OF assms(1)] comp_def)
  then show ?thesis using bloomfilter_to_base64_wf [OF assms(1,2)] by simp
qed

theorem bloomfilter_base64_roundtrip_witness:
  "\<exists>text. bloomfilter_to_base64 True True (Some small_filter) = Some (Some text)
    \<and> base64_to_bloomfilter True \<lparr>ctx_i = 0, ctx_buf = ''abcd''\<rparr> (c_string text) = Some (Some small_filter)"
  by (rule bloomfilter_base64_roundtrip [OF wf_small_filter])
    (simp_all add: BLOOMFILTER_TOT_LEN_def SALTS_LEN_def FILTER_LEN_def small_filter_def)

text \<open>
  \<open>bloomfilter_new\<close> creates an empty filter: when the candidate lengths are not negative and the
  length it chooses is between 1 and 2^31, the filter is well-formed, has between 1 and 100 hash functions, the
  number that minimises the length, and reports no key at all.
\<close>

theorem bloomfilter_new_reports_nothing:
  assumes "\<forall>k \<in> {1..100}. 0 \<le> candidate rate cap k"
    and "bloomfilter_new candidate plus_one True rnd rate cap = Some (Some bf)"
    and "0 < bf_m bf" "bf_m bf \<le> 2 ^ 31"
  shows "wf_bf bf \<and> bf_n bf = 0 \<and> unat (bf_k bf) \<in> {1..100}
    \<and> (\<forall>j \<in> {1..100}. candidate rate cap (unat (bf_k bf)) \<le> candidate rate cap j)
    \<and> (\<forall>sha key. bf_check sha bf key = Some False)"
proof -
  note E = bloomfilter_new_empty [OF assms]
  obtain m k where mk: "bloomfilter_calculate_length candidate plus_one cap rate = Some (m, k)" "bf_k bf = k"
    using assms(2) by (auto simp: bloomfilter_new_def split: option.splits prod.splits)
  have "bf_check sha bf key = Some False" for sha key
    using E by (simp add: bf_check_wf positions_def)
  then show ?thesis using E bloomfilter_calculate_length_spec [OF assms(1) mk(1)] mk(2) by simp
qed

theorem bloomfilter_new_reports_nothing_witness:
  "\<exists>bf. bloomfilter_new (\<lambda>_ _ k. rat_of_nat k + 1) (\<lambda>m. m + 1) True (\<lambda>_. 7) 0 5 = Some (Some bf)
     \<and> bf_check toy_digest bf [65] = Some False"
proof -
  have "bloomfilter_calculate_length (\<lambda>_ _ k. rat_of_nat k + 1) (\<lambda>m. m + 1) 5 0 = Some (8, 1)"
    by code_simp
  then have new: "bloomfilter_new (\<lambda>_ _ k. rat_of_nat k + 1) (\<lambda>m. m + 1) True (\<lambda>_. 7) 0 5
      = Some (Some \<lparr>bf_k = 1, bf_m = 8, bf_n = 0, bf_salts = [7], bf_bins = [0]\<rparr>)"
    by (simp add: bloomfilter_new_def)
  show ?thesis
    using bloomfilter_new_reports_nothing [OF _ new] new by simp
qed

text \<open>
  \<open>bloomfilter_to_str\<close> always overruns its buffer: it allocates \<open>BLOOMFILTER_TOT_LEN(bf) + 1\<close>
  bytes for a string of twice that length, so its behaviour is undefined for every filter.
\<close>

theorem bloomfilter_to_str_overruns: "bloomfilter_to_str True (Some bf) = None"
proof (cases "in_block bf")
  case True
  let ?img = "take (BLOOMFILTER_TOT_LEN bf) (bloomfilter_image bf)"
  have "length ?img = BLOOMFILTER_TOT_LEN bf"
    using True by (simp add: bloomfilter_image_def BLOOMFILTER_TOT_LEN_def SALTS_LEN_def length_concat_const [of _ 4] in_block_def)
  moreover have "12 \<le> BLOOMFILTER_TOT_LEN bf" by (simp add: BLOOMFILTER_TOT_LEN_def)
  ultimately have "sprint_hex (BLOOMFILTER_TOT_LEN bf + 1) [] ?img = None"
    by (intro sprint_hex_overflow) auto
  then show ?thesis using True by (simp add: bloomfilter_to_str_def)
qed (simp add: bloomfilter_to_str_def)

end
