(* ===== verification/Counting_Bloomfilter.thy ===== *)
theory Counting_Bloomfilter
  imports Bloomfilter
begin

text \<open>
  The counting Bloom filter of \<open>src/src/utils/counting_bloomfilter.c\<close>, with the conventions of
  \<open>Bloomfilter\<close>.  The bins are 16-bit counters, one per position, and keep their width: an increment
  wraps around.
\<close>

section \<open>The structure\<close>

record counting_bloomfilter =
  cb_k :: u32
  cb_m :: u32
  cb_n :: u32
  cb_salts :: "u32 list"
  cb_bins :: "u16 list"

definition COUNTING_BLOOMFILTER_TOT_LEN :: "counting_bloomfilter \<Rightarrow> nat" where
  "COUNTING_BLOOMFILTER_TOT_LEN bf = 12 + unat (cb_k bf) * 4 + unat (cb_m bf) * 2"

definition cb_in_block :: "counting_bloomfilter \<Rightarrow> bool" where
  "cb_in_block bf \<longleftrightarrow> length (cb_salts bf) = unat (cb_k bf) \<and> unat (cb_m bf) \<le> length (cb_bins bf)"

definition counting_bloomfilter_new :: "(rat \<Rightarrow> u32 \<Rightarrow> nat \<Rightarrow> rat) \<Rightarrow> (rat \<Rightarrow> rat) \<Rightarrow> bool \<Rightarrow> (nat \<Rightarrow> u32)
    \<Rightarrow> rat \<Rightarrow> u32 \<Rightarrow> counting_bloomfilter option option" where
  "counting_bloomfilter_new candidate plus_one malloc_ok rnd error_rate capacity =
     (case bloomfilter_calculate_length candidate plus_one capacity error_rate of
        None \<Rightarrow> None
      | Some (m, k) \<Rightarrow>
          if \<not> malloc_ok then Some None
          else Some (Some \<lparr>cb_k = k, cb_m = m, cb_n = 0, cb_salts = map rnd [0..<unat k],
                          cb_bins = replicate (unat m) 0\<rparr>))"

definition counting_bloomfilter_copy :: "bool \<Rightarrow> counting_bloomfilter option \<Rightarrow> counting_bloomfilter option option" where
  "counting_bloomfilter_copy malloc_ok bf =
     (case bf of
        None \<Rightarrow> Some None
      | Some b \<Rightarrow>
          if \<not> malloc_ok then Some None
          else if cb_in_block b then Some (Some (b\<lparr>cb_bins := take (unat (cb_m b)) (cb_bins b)\<rparr>))
          else None)"

section \<open>Check, add and remove\<close>

definition COUNTING_BF_OP_CHECK :: nat where "COUNTING_BF_OP_CHECK = 0"
definition COUNTING_BF_OP_ADD :: nat where "COUNTING_BF_OP_ADD = 1"
definition COUNTING_BF_OP_REMOVE :: nat where "COUNTING_BF_OP_REMOVE = 2"
definition COUNTING_BF_OP_MAX :: nat where "COUNTING_BF_OP_MAX = 3"

text \<open>The loop over the salts and the update of \<open>n\<close> after it; \<open>removed\<close> is an \<open>unsigned short\<close>.\<close>

fun counting_operation_loop :: "digest \<Rightarrow> byte list \<Rightarrow> nat \<Rightarrow> u32 list \<Rightarrow> u16 \<Rightarrow> counting_bloomfilter
    \<Rightarrow> (counting_bloomfilter \<times> int) option" where
  "counting_operation_loop sha key oper [] removed bf =
     Some (if oper = COUNTING_BF_OP_ADD then bf\<lparr>cb_n := cb_n bf + 1\<rparr>
           else if oper = COUNTING_BF_OP_REMOVE \<and> removed > 0 then bf\<lparr>cb_n := cb_n bf - 1\<rparr>
           else bf, 1)"
| "counting_operation_loop sha key oper (salt # salts) removed bf =
     do {
       index \<leftarrow> filter_index sha (cb_m bf) key salt;
       if index < length (cb_bins bf)
       then
         if oper = COUNTING_BF_OP_CHECK
         then
           if cb_bins bf ! index = 0 then Some (bf, 0)
           else counting_operation_loop sha key oper salts removed bf
         else if oper = COUNTING_BF_OP_ADD
         then
           counting_operation_loop sha key oper salts removed
             (bf\<lparr>cb_bins := (cb_bins bf)[index := cb_bins bf ! index + 1]\<rparr>)
         else
           if cb_bins bf ! index > 0
           then counting_operation_loop sha key oper salts (removed + 1)
                  (bf\<lparr>cb_bins := (cb_bins bf)[index := cb_bins bf ! index - 1]\<rparr>)
           else counting_operation_loop sha key oper salts removed bf
       else None
     }"

definition counting_bloomfilter_operation :: "digest \<Rightarrow> bool \<Rightarrow> counting_bloomfilter option \<Rightarrow> byte list option
    \<Rightarrow> nat \<Rightarrow> nat \<Rightarrow> (counting_bloomfilter option \<times> int) option" where
  "counting_bloomfilter_operation sha malloc_ok bf key len oper =
     (case (bf, key) of
        (Some b, Some s) \<Rightarrow>
          if COUNTING_BF_OP_MAX \<le> oper then Some (bf, -1)
          else if \<not> malloc_ok then Some (bf, -1)
          else if length s < len \<or> length (cb_salts b) < unat (cb_k b) then None
          else
            let b = (if oper = COUNTING_BF_OP_ADD then b\<lparr>cb_n := cb_n b + 1\<rparr> else b) in
            do {
              (b', res) \<leftarrow> counting_operation_loop sha (take len s) oper (take (unat (cb_k b)) (cb_salts b)) 0 b;
              Some (Some b', res)
            }
      | _ \<Rightarrow> Some (bf, -1))"

section \<open>Conversions\<close>

text \<open>The loop of \<open>counting_bloomfilter_to_noncounting\<close> that sets the bins.\<close>

fun noncounting_bins :: "u16 list \<Rightarrow> nat list \<Rightarrow> nat \<Rightarrow> byte list \<Rightarrow> byte list option" where
  "noncounting_bins bins [] j bins_nc = Some bins_nc"
| "noncounting_bins bins (i # is) j bins_nc =
     (let bits_to_shift = i mod 8 in
      do {
        bins_nc \<leftarrow> (if bins ! i \<noteq> 0
                    then if j < length bins_nc
                         then Some (bins_nc[j := bins_nc ! j OR push_bit bits_to_shift 1])
                         else None
                    else Some bins_nc);
        noncounting_bins bins is (if bits_to_shift = 7 then j + 1 else j) bins_nc
      })"

definition counting_bloomfilter_to_noncounting :: "bool \<Rightarrow> counting_bloomfilter option \<Rightarrow> bloomfilter option option" where
  "counting_bloomfilter_to_noncounting malloc_ok bf =
     (case bf of
        None \<Rightarrow> Some None
      | Some b \<Rightarrow>
          if \<not> malloc_ok then Some None
          else if \<not> cb_in_block b then None
          else
            do {
              bins_nc \<leftarrow> noncounting_bins (cb_bins b) [0..<unat (cb_m b)] 0 (replicate (unat (cb_m b) div 8) 0);
              Some (Some \<lparr>bf_k = cb_k b, bf_m = cb_m b, bf_n = cb_n b, bf_salts = cb_salts b, bf_bins = bins_nc\<rparr>)
            })"

definition counting_image :: "counting_bloomfilter \<Rightarrow> byte list" where
  "counting_image bf =
     le_bytes (cb_k bf) @ le_bytes (cb_m bf) @ le_bytes (cb_n bf)
       @ concat (map le_bytes (cb_salts bf)) @ concat (map le_bytes16 (cb_bins bf))"

definition counting_net :: "counting_bloomfilter \<Rightarrow> counting_bloomfilter" where
  "counting_net bf =
     \<lparr>cb_k = htonl (cb_k bf), cb_m = htonl (cb_m bf), cb_n = htonl (cb_n bf),
      cb_salts = map htonl (take (unat (cb_k bf)) (cb_salts bf)),
      cb_bins = map htons (take (unat (cb_m bf)) (cb_bins bf))\<rparr>"

definition counting_bloomfilter_to_base64 :: "bool \<Rightarrow> bool \<Rightarrow> counting_bloomfilter option \<Rightarrow> string option option" where
  "counting_bloomfilter_to_base64 malloc_ok encode_ok bf =
     (case bf of
        None \<Rightarrow> Some None
      | Some b \<Rightarrow>
          if \<not> malloc_ok then Some None
          else if \<not> cb_in_block b then None
          else
            let (str, outsize) = base64_encode_alloc encode_ok (map char_of_byte (counting_image (counting_net b)));
                len = sint (ucast outsize :: u32) in
            case str of
              None \<Rightarrow> Some None
            | Some s \<Rightarrow> if len < 0 then Some None else Some (Some s))"

definition counting_bloomfilter_to_noncounting_base64 ::
    "bool \<Rightarrow> bool \<Rightarrow> bool \<Rightarrow> counting_bloomfilter option \<Rightarrow> string option option" where
  "counting_bloomfilter_to_noncounting_base64 convert_ok malloc_ok encode_ok bf =
     (case bf of
        None \<Rightarrow> Some None
      | Some b \<Rightarrow>
          do {
            bf_other \<leftarrow> counting_bloomfilter_to_noncounting convert_ok bf;
            case bf_other of
              None \<Rightarrow> Some None
            | Some _ \<Rightarrow> bloomfilter_to_base64 malloc_ok encode_ok bf_other
          })"

definition counting_host :: "byte list \<Rightarrow> counting_bloomfilter option" where
  "counting_host block =
     (if length block < 12 then None
      else
        let k = ntohl (le_word (take 4 block));
            m = ntohl (le_word (take 4 (drop 4 block)));
            n = ntohl (le_word (take 4 (drop 8 block)));
            filter_at = 12 + 4 * unat k in
        if length block < filter_at + 2 * unat m then None
        else Some \<lparr>cb_k = k, cb_m = m, cb_n = n,
                   cb_salts = map (\<lambda>i. ntohl (le_word (take 4 (drop (12 + 4 * i) block)))) [0..<unat k],
                   cb_bins = map (\<lambda>i. ntohs (le_word16 (take 2 (drop (filter_at + 2 * i) block)))) [0..<unat m]\<rparr>)"

definition base64_to_counting_bloomfilter :: "bool \<Rightarrow> base64_decode_context \<Rightarrow> string \<Rightarrow> counting_bloomfilter option option" where
  "base64_to_counting_bloomfilter malloc_ok stack str =
     do {
       (_, ok, ptr) \<leftarrow> base64_decode_alloc malloc_ok (base64_decode_ctx_init stack) str;
       if \<not> ok then Some None
       else
         do {
           block \<leftarrow> ptr;
           bf \<leftarrow> counting_host (map byte_of_char block);
           Some (Some bf)
         }
     }"

definition counting_bloomfilter_to_str :: "bool \<Rightarrow> counting_bloomfilter option \<Rightarrow> string option option" where
  "counting_bloomfilter_to_str malloc_ok bf =
     (case bf of
        None \<Rightarrow> Some None
      | Some b \<Rightarrow>
          if \<not> malloc_ok then Some None
          else if \<not> cb_in_block b then None
          else map_option Some (sprint_hex (COUNTING_BLOOMFILTER_TOT_LEN b + 1) []
                 (take (COUNTING_BLOOMFILTER_TOT_LEN b) (counting_image b))))"

section \<open>The abstraction to counters\<close>

definition wf_cb :: "counting_bloomfilter \<Rightarrow> bool" where
  "wf_cb bf \<longleftrightarrow> 0 < cb_m bf \<and> cb_m bf \<le> 2 ^ 31
     \<and> length (cb_salts bf) = unat (cb_k bf) \<and> length (cb_bins bf) = unat (cb_m bf)"

abbreviation key_positions :: "digest \<Rightarrow> counting_bloomfilter \<Rightarrow> byte list \<Rightarrow> nat list" where
  "key_positions sha bf key \<equiv> positions sha (cb_m bf) (cb_salts bf) key"

lemma counting_index:
  assumes "wf_cb bf"
  shows "filter_index sha (cb_m bf) key salt = Some (unat (fold_digest (sha (key @ le_bytes salt)) mod cb_m bf))"
    and "unat (fold_digest (sha (key @ le_bytes salt)) mod cb_m bf) < length (cb_bins bf)"
  using assms filter_index_eq [of "cb_m bf" sha key salt]
  by (simp_all add: wf_cb_def unat_mono word_mod_less_divisor)

lemmas counting_ops = COUNTING_BF_OP_CHECK_def COUNTING_BF_OP_ADD_def COUNTING_BF_OP_REMOVE_def COUNTING_BF_OP_MAX_def

lemma counting_loop_check:
  assumes "wf_cb bf"
  shows "counting_operation_loop sha key COUNTING_BF_OP_CHECK salts removed bf =
    Some (bf, if \<forall>i \<in> set (positions sha (cb_m bf) salts key). cb_bins bf ! i \<noteq> 0 then 1 else 0)"
  by (induction salts) (simp_all add: counting_index [OF assms] positions_def counting_ops)

text \<open>The counters after additions and removals at a list of positions.\<close>

definition incr_at :: "nat \<Rightarrow> u16 list \<Rightarrow> u16 list" where
  "incr_at i bins = bins[i := bins ! i + 1]"

definition decr_at :: "nat \<Rightarrow> u16 list \<Rightarrow> u16 list" where
  "decr_at i bins = (if bins ! i > 0 then bins[i := bins ! i - 1] else bins)"

lemma length_fold_incr [simp]: "length (fold incr_at ps bins) = length bins"
  by (induction ps arbitrary: bins) (simp_all add: incr_at_def)

lemma length_fold_decr [simp]: "length (fold decr_at ps bins) = length bins"
  by (induction ps arbitrary: bins) (simp_all add: decr_at_def)

lemma fold_incr_nth:
  "set ps \<subseteq> {..<length bins} \<Longrightarrow> i < length bins \<Longrightarrow> fold incr_at ps bins ! i = bins ! i + of_nat (count_list ps i)"
  by (induction ps arbitrary: bins) (auto simp: incr_at_def nth_list_update)

lemma fold_decr_nth:
  "set ps \<subseteq> {..<length bins} \<Longrightarrow> i < length bins
   \<Longrightarrow> unat (fold decr_at ps bins ! i) = unat (bins ! i) - count_list ps i"
proof (induction ps arbitrary: bins)
  case (Cons p ps)
  have "unat (bins ! p - 1) = unat (bins ! p) - 1" if "0 < unat (bins ! p)"
    using that by (intro unat_minus_one) auto
  then have "unat (decr_at p bins ! i) = unat (bins ! i) - (if p = i then 1 else 0)"
    using Cons.prems by (auto simp: decr_at_def nth_list_update word_less_nat_alt)
  then show ?case using Cons by (auto simp: decr_at_def)
qed simp

lemma counting_loop_add:
  "wf_cb bf \<Longrightarrow> counting_operation_loop sha key COUNTING_BF_OP_ADD salts removed bf =
    Some (bf\<lparr>cb_bins := fold incr_at (positions sha (cb_m bf) salts key) (cb_bins bf), cb_n := cb_n bf + 1\<rparr>, 1)"
proof (induction salts arbitrary: bf)
  case Nil
  then show ?case by (simp add: positions_def counting_ops)
next
  case (Cons salt salts)
  let ?i = "unat (fold_digest (sha (key @ le_bytes salt)) mod cb_m bf)"
  let ?bf = "bf\<lparr>cb_bins := incr_at ?i (cb_bins bf)\<rparr>"
  have "wf_cb ?bf" using Cons.prems by (simp add: wf_cb_def incr_at_def)
  then show ?case
    using Cons.IH [of ?bf] by (simp add: counting_index [OF Cons.prems] positions_def incr_at_def counting_ops)
qed

text \<open>The number of counters that a removal decrements.\<close>

fun decrements :: "nat list \<Rightarrow> u16 list \<Rightarrow> nat" where
  "decrements [] bins = 0"
| "decrements (p # ps) bins = (if bins ! p > 0 then 1 else 0) + decrements ps (decr_at p bins)"

lemma counting_loop_remove:
  "wf_cb bf \<Longrightarrow> counting_operation_loop sha key COUNTING_BF_OP_REMOVE salts removed bf =
    Some (bf\<lparr>cb_bins := fold decr_at (positions sha (cb_m bf) salts key) (cb_bins bf),
             cb_n := (if removed + of_nat (decrements (positions sha (cb_m bf) salts key) (cb_bins bf)) > 0
                      then cb_n bf - 1 else cb_n bf)\<rparr>, 1)"
proof (induction salts arbitrary: bf removed)
  case Nil
  then show ?case by (simp add: positions_def counting_ops)
next
  case (Cons salt salts)
  let ?i = "unat (fold_digest (sha (key @ le_bytes salt)) mod cb_m bf)"
  let ?bf = "bf\<lparr>cb_bins := decr_at ?i (cb_bins bf)\<rparr>"
  have wf: "wf_cb ?bf" using Cons.prems by (simp add: wf_cb_def decr_at_def)
  show ?case
  proof (cases "cb_bins bf ! ?i > 0")
    case True
    then show ?thesis
      using Cons.IH [OF wf, of "removed + 1"]
      by (simp add: counting_index [OF Cons.prems] positions_def decr_at_def counting_ops add.assoc)
  next
    case False
    then show ?thesis
      using Cons.IH [OF wf, of removed]
      by (simp add: counting_index [OF Cons.prems] positions_def decr_at_def counting_ops)
  qed
qed


lemma counting_operation_wf:
  assumes "wf_cb bf" "len \<le> length key"
  shows "counting_bloomfilter_operation sha True (Some bf) (Some key) len COUNTING_BF_OP_CHECK =
      Some (Some bf, if \<forall>i \<in> set (key_positions sha bf (take len key)). cb_bins bf ! i \<noteq> 0 then 1 else 0)"
    and "counting_bloomfilter_operation sha True (Some bf) (Some key) len COUNTING_BF_OP_ADD =
      Some (Some (bf\<lparr>cb_bins := fold incr_at (key_positions sha bf (take len key)) (cb_bins bf),
                     cb_n := cb_n bf + 2\<rparr>), 1)"
    and "counting_bloomfilter_operation sha True (Some bf) (Some key) len COUNTING_BF_OP_REMOVE =
      Some (Some (bf\<lparr>cb_bins := fold decr_at (key_positions sha bf (take len key)) (cb_bins bf),
             cb_n := (if (of_nat (decrements (key_positions sha bf (take len key)) (cb_bins bf)) :: u16) > 0
                      then cb_n bf - 1 else cb_n bf)\<rparr>), 1)"
proof -
  have salts: "take (unat (cb_k bf)) (cb_salts bf) = cb_salts bf" "\<not> length (cb_salts bf) < unat (cb_k bf)"
    using assms(1) by (simp_all add: wf_cb_def)
  have wf: "wf_cb (bf\<lparr>cb_n := n\<rparr>)" for n using assms(1) by (simp add: wf_cb_def)
  note loops = counting_loop_check [OF assms(1)] counting_loop_add [OF wf] counting_loop_remove [OF assms(1)]
  show "counting_bloomfilter_operation sha True (Some bf) (Some key) len COUNTING_BF_OP_CHECK =
      Some (Some bf, if \<forall>i \<in> set (key_positions sha bf (take len key)). cb_bins bf ! i \<noteq> 0 then 1 else 0)"
    using assms(2) salts loops(1) by (simp add: counting_bloomfilter_operation_def counting_ops)
  show "counting_bloomfilter_operation sha True (Some bf) (Some key) len COUNTING_BF_OP_ADD =
      Some (Some (bf\<lparr>cb_bins := fold incr_at (key_positions sha bf (take len key)) (cb_bins bf),
                     cb_n := cb_n bf + 2\<rparr>), 1)"
    using assms(2) salts loops(2) by (simp add: counting_bloomfilter_operation_def counting_ops)
  show "counting_bloomfilter_operation sha True (Some bf) (Some key) len COUNTING_BF_OP_REMOVE =
      Some (Some (bf\<lparr>cb_bins := fold decr_at (key_positions sha bf (take len key)) (cb_bins bf),
             cb_n := (if (of_nat (decrements (key_positions sha bf (take len key)) (cb_bins bf)) :: u16) > 0
                      then cb_n bf - 1 else cb_n bf)\<rparr>), 1)"
    using assms(2) salts loops(3) by (simp add: counting_bloomfilter_operation_def counting_ops)
qed

section \<open>The filter meets the contract\<close>

definition cb_add :: "digest \<Rightarrow> counting_bloomfilter \<Rightarrow> byte list \<Rightarrow> counting_bloomfilter option" where
  "cb_add sha bf key =
     Option.bind (counting_bloomfilter_operation sha True (Some bf) (Some key) (length key) COUNTING_BF_OP_ADD) fst"

definition cb_remove :: "digest \<Rightarrow> counting_bloomfilter \<Rightarrow> byte list \<Rightarrow> counting_bloomfilter option" where
  "cb_remove sha bf key =
     Option.bind (counting_bloomfilter_operation sha True (Some bf) (Some key) (length key) COUNTING_BF_OP_REMOVE) fst"

definition cb_check :: "digest \<Rightarrow> counting_bloomfilter \<Rightarrow> byte list \<Rightarrow> bool option" where
  "cb_check sha bf key =
     map_option (\<lambda>(_, res). res = 1)
       (counting_bloomfilter_operation sha True (Some bf) (Some key) (length key) COUNTING_BF_OP_CHECK)"

lemma cb_ops_wf:
  assumes "wf_cb bf"
  shows "cb_add sha bf key = Some (bf\<lparr>cb_bins := fold incr_at (key_positions sha bf key) (cb_bins bf), cb_n := cb_n bf + 2\<rparr>)"
    and "cb_check sha bf key = Some (\<forall>i \<in> set (key_positions sha bf key). cb_bins bf ! i \<noteq> 0)"
    and "cb_remove sha bf key = Some (bf\<lparr>cb_bins := fold decr_at (key_positions sha bf key) (cb_bins bf),
             cb_n := (if (of_nat (decrements (key_positions sha bf key) (cb_bins bf)) :: u16) > 0
                      then cb_n bf - 1 else cb_n bf)\<rparr>)"
  using counting_operation_wf [OF assms, of "length key" key sha]
  by (simp_all add: cb_add_def cb_check_def cb_remove_def)

text \<open>Each of \<open>n\<close> more additions increases a counter by at most the number of hash functions.\<close>

definition cb_room :: "counting_bloomfilter \<Rightarrow> nat \<Rightarrow> bool" where
  "cb_room bf n \<longleftrightarrow> wf_cb bf \<and> (\<forall>i < unat (cb_m bf). unat (cb_bins bf ! i) + n * unat (cb_k bf) < 2 ^ 16)"

lemma count_list_le_length: "count_list xs x \<le> length xs"
  by (induction xs) auto

lemma cb_positions_bound: "wf_cb bf \<Longrightarrow> set (key_positions sha bf key) \<subseteq> {..<length (cb_bins bf)}"
  using positions_less by (fastforce simp: wf_cb_def)

lemma cb_add_counters:
  assumes "cb_room bf (Suc n)" "cb_add sha bf key = Some bf'"
  shows "cb_room bf' n" and "cb_salts bf' = cb_salts bf" and "cb_m bf' = cb_m bf" and "wf_cb bf'"
    and "i < unat (cb_m bf) \<Longrightarrow> unat (cb_bins bf' ! i) = unat (cb_bins bf ! i) + count_list (key_positions sha bf key) i"
proof -
  let ?ps = "key_positions sha bf key"
  have wf: "wf_cb bf" using assms(1) by (simp add: cb_room_def)
  then have bf': "bf' = bf\<lparr>cb_bins := fold incr_at ?ps (cb_bins bf), cb_n := cb_n bf + 2\<rparr>"
    using assms(2) by (simp add: cb_ops_wf)
  have cnt: "count_list ?ps i \<le> unat (cb_k bf)" for i
    using count_list_le_length [of ?ps i] wf by (simp add: wf_cb_def)
  have val: "unat (cb_bins bf' ! i) = unat (cb_bins bf ! i) + count_list ?ps i" if "i < unat (cb_m bf)" for i
  proof -
    have lt: "unat (cb_bins bf ! i) + count_list ?ps i < 2 ^ 16"
      using assms(1) that cnt [of i] by (fastforce simp: cb_room_def)
    have "cb_bins bf' ! i = of_nat (unat (cb_bins bf ! i) + count_list ?ps i)"
      using that wf by (simp add: bf' fold_incr_nth [OF cb_positions_bound] wf_cb_def)
    then show ?thesis using lt by (simp only: unat_of_nat) simp
  qed
  then show "i < unat (cb_m bf) \<Longrightarrow> unat (cb_bins bf' ! i) = unat (cb_bins bf ! i) + count_list ?ps i" .
  show wf': "wf_cb bf'" using wf by (simp add: bf' wf_cb_def)
  show "cb_salts bf' = cb_salts bf" "cb_m bf' = cb_m bf" by (simp_all add: bf')
  have "unat (cb_bins bf' ! i) + n * unat (cb_k bf) < 2 ^ 16" if "i < unat (cb_m bf)" for i
    using assms(1) that cnt [of i] val [OF that] by (fastforce simp: cb_room_def)
  then show "cb_room bf' n" using wf' by (simp add: cb_room_def bf')
qed

interpretation cb: key_filter "cb_add sha" "cb_check sha" cb_room for sha
proof unfold_locales
  fix s x y s' n
  show "\<exists>s'. cb_add sha s x = Some s' \<and> cb_room s' n" if "cb_room s (Suc n)"
    using that cb_add_counters(1) [OF that, of sha x] by (simp add: cb_room_def cb_ops_wf)
  show "\<exists>b. cb_check sha s x = Some b" if "cb_room s n"
    using that by (simp add: cb_room_def cb_ops_wf)
  show "cb_check sha s' x = Some True" if r: "cb_room s (Suc n)" and a: "cb_add sha s x = Some s'"
  proof -
    note C = cb_add_counters [OF r a]
    have "cb_bins s' ! i \<noteq> 0" if "i \<in> set (key_positions sha s x)" for i
    proof -
      have "i < unat (cb_m s)" using that cb_positions_bound [of s sha x] r by (auto simp: cb_room_def wf_cb_def)
      moreover have "0 < count_list (key_positions sha s x) i" using that count_list_0_iff by (metis gr0I)
      ultimately have "0 < unat (cb_bins s' ! i)" using C(5) by simp
      then show ?thesis by auto
    qed
    then show ?thesis using C(2,3) by (simp add: cb_ops_wf [OF C(4)])
  qed
  show "cb_check sha s' x = Some True"
    if r: "cb_room s (Suc n)" and a: "cb_add sha s y = Some s'" and c: "cb_check sha s x = Some True"
  proof -
    note C = cb_add_counters [OF r a]
    have wf: "wf_cb s" using r by (simp add: cb_room_def)
    have "cb_bins s' ! i \<noteq> 0" if "i \<in> set (key_positions sha s x)" for i
    proof -
      have "i < unat (cb_m s)" using that cb_positions_bound [OF wf, of sha x] wf by (auto simp: wf_cb_def)
      moreover have "0 < unat (cb_bins s ! i)" using that c by (auto simp: cb_ops_wf [OF wf] unat_gt_0)
      ultimately have "0 < unat (cb_bins s' ! i)" using C(5) by simp
      then show ?thesis by auto
    qed
    then show ?thesis using C(2,3) by (simp add: cb_ops_wf [OF C(4)])
  qed
qed

section \<open>Removal undoes addition\<close>

lemma decrements_all:
  "set ps \<subseteq> {..<length bins} \<Longrightarrow> (\<And>i. i < length bins \<Longrightarrow> count_list ps i \<le> unat (bins ! i))
   \<Longrightarrow> decrements ps bins = length ps"
proof (induction ps arbitrary: bins)
  case (Cons p ps)
  have p: "p < length bins" "0 < unat (bins ! p)" using Cons.prems(1) Cons.prems(2) [of p] by auto
  have "count_list ps i \<le> unat (decr_at p bins ! i)" if "i < length bins" for i
    using Cons.prems(2) [OF that] fold_decr_nth [of "[p]" bins i] p that by auto
  then have "decrements ps (decr_at p bins) = length ps"
    using Cons.prems(1) length_fold_decr [of "[p]" bins] by (intro Cons.IH) simp_all
  then show ?case using p by (simp add: word_less_nat_alt)
qed simp

lemma of_nat_u16_pos: "0 < n \<Longrightarrow> n < 2 ^ 16 \<Longrightarrow> (of_nat n :: u16) > 0"
  by (simp add: word_less_nat_alt unat_of_nat)

lemma cb_add_remove_restores:
  assumes "cb_room bf 1" "0 < cb_k bf" "cb_add sha bf key = Some bf'"
  shows "cb_remove sha bf' key = Some (bf\<lparr>cb_n := cb_n bf + 1\<rparr>)"
proof -
  let ?ps = "key_positions sha bf key"
  have wf: "wf_cb bf" using assms(1) by (simp add: cb_room_def)
  have bf': "bf' = bf\<lparr>cb_bins := fold incr_at ?ps (cb_bins bf), cb_n := cb_n bf + 2\<rparr>"
    using assms(3) by (simp add: cb_ops_wf [OF wf])
  note C = cb_add_counters [of bf 0 sha key bf', simplified, OF _ assms(3)]
  have val: "unat (cb_bins bf' ! i) = unat (cb_bins bf ! i) + count_list ?ps i" if "i < unat (cb_m bf)" for i
    using C(5) assms(1) that by simp
  have len: "length (cb_bins bf') = unat (cb_m bf)" "length (cb_bins bf) = unat (cb_m bf)"
    using wf by (simp_all add: bf' wf_cb_def)
  have ps: "set ?ps \<subseteq> {..<length (cb_bins bf')}" using cb_positions_bound [OF wf, of sha key] len by simp
  have "unat (fold decr_at ?ps (cb_bins bf') ! i) = unat (cb_bins bf ! i)" if "i < unat (cb_m bf)" for i
    using that len val by (simp add: fold_decr_nth [OF ps])
  then have restored: "fold decr_at ?ps (cb_bins bf') = cb_bins bf"
    using len by (intro nth_equalityI) (simp_all add: word_unat_eq_iff)
  have "decrements ?ps (cb_bins bf') = unat (cb_k bf)"
    using decrements_all [OF ps] len val wf by (simp add: wf_cb_def)
  moreover have "unat (cb_k bf) < 2 ^ 16" using assms(1) wf 
    by (auto simp: cb_room_def wf_cb_def word_less_nat_alt dest!: spec [of _ 0])
  ultimately have "(of_nat (decrements ?ps (cb_bins bf')) :: u16) > 0"
    using assms(2) by (intro of_nat_u16_pos) (simp_all only: word_less_nat_alt unat_0)
  then show ?thesis using cb_ops_wf(3) [OF C(4), of sha key] restored assms(1) by (simp add: bf')
qed

section \<open>The conversion to a plain filter\<close>

lemma noncounting_bins_spec:
  assumes "8 dvd m" "length nc = m div 8" "i \<le> m"
  shows "\<exists>nc'. noncounting_bins bins [i..<m] (i div 8) nc = Some nc' \<and> length nc' = m div 8
    \<and> (\<forall>p < m. bit (nc' ! (p div 8)) (p mod 8) \<longleftrightarrow> bit (nc ! (p div 8)) (p mod 8) \<or> i \<le> p \<and> bins ! p \<noteq> 0)"
  using assms(3,2)
proof (induction i arbitrary: nc rule: inc_induct)
  case base
  then show ?case by auto
next
  case (step i)
  have up: "[i..<m] = i # [Suc i..<m]" using step.hyps by (simp add: upt_conv_Cons)
  have j: "(if i mod 8 = 7 then i div 8 + 1 else i div 8) = Suc i div 8" by presburger
  have idx: "i div 8 < length nc" using assms(1) step by (auto simp: div_less_iff_less_mult)
  define nc1 where "nc1 = (if bins ! i \<noteq> 0 then nc[i div 8 := nc ! (i div 8) OR push_bit (i mod 8) 1] else nc)"
  have len: "length nc1 = m div 8" using step.prems by (simp add: nc1_def)
  have eq: "noncounting_bins bins [i..<m] (i div 8) nc = noncounting_bins bins [Suc i..<m] (Suc i div 8) nc1"
    unfolding up using idx by (simp add: nc1_def Let_def j [simplified] split: if_splits)
  have upd: "bit (nc1 ! (p div 8)) (p mod 8) \<longleftrightarrow> bit (nc ! (p div 8)) (p mod 8) \<or> p = i \<and> bins ! p \<noteq> 0" for p
  proof (cases "p div 8 = i div 8")
    case True
    then have "p = i \<longleftrightarrow> p mod 8 = i mod 8" by (metis div_mult_mod_eq)
    then show ?thesis using True idx by (auto simp: nc1_def bit_simps)
  next
    case False
    then show ?thesis by (auto simp: nc1_def)
  qed
  have split: "i \<le> p \<longleftrightarrow> p = i \<or> Suc i \<le> p" for p by auto
  show ?case using step.IH [OF len] unfolding eq upd split [of _] by (auto simp only: conj_disj_distribR disj_assoc)
qed

lemma to_noncounting_wf:
  assumes "wf_cb bf" "8 dvd unat (cb_m bf)"
  shows "\<exists>nc. counting_bloomfilter_to_noncounting True (Some bf) = Some (Some nc) \<and> wf_bf nc
    \<and> bf_n nc = cb_n bf \<and> bf_m nc = cb_m bf \<and> bf_salts nc = cb_salts bf
    \<and> bits_of nc = {i. i < unat (cb_m bf) \<and> cb_bins bf ! i \<noteq> 0}"
proof -
  let ?m = "unat (cb_m bf)"
  obtain nc where nc: "noncounting_bins (cb_bins bf) [0..<?m] 0 (replicate (?m div 8) 0) = Some nc"
    "length nc = ?m div 8" "\<forall>p < ?m. bit (nc ! (p div 8)) (p mod 8) \<longleftrightarrow> cb_bins bf ! p \<noteq> 0"
    using noncounting_bins_spec [OF assms(2), of "replicate (?m div 8) 0" 0 "cb_bins bf"] assms(2)
    by (auto simp: div_less_iff_less_mult)
  have "cb_in_block bf" using assms(1) by (simp add: cb_in_block_def wf_cb_def)
  then show ?thesis
    using nc assms by (auto simp: counting_bloomfilter_to_noncounting_def wf_bf_def wf_cb_def bits_of_def)
qed

section \<open>The text form\<close>

lemma counting_host_net:
  assumes "wf_cb bf"
  shows "counting_host (counting_image (counting_net bf)) = Some bf"
proof -
  let ?S = "concat (map (be_bytes 4) (cb_salts bf))" and ?B = "concat (map (be_bytes 2) (cb_bins bf))"
  let ?img = "be_bytes 4 (cb_k bf) @ be_bytes 4 (cb_m bf) @ be_bytes 4 (cb_n bf) @ ?S @ ?B"
  have img: "counting_image (counting_net bf) = ?img"
    using assms by (simp add: counting_image_def counting_net_def wf_cb_def comp_def)
  have len: "length ?S = 4 * unat (cb_k bf)" "length ?B = 2 * unat (cb_m bf)"
    using assms by (simp_all add: length_concat_const [of _ 4] length_concat_const [of _ 2] wf_cb_def)
  have d: "drop (12 + j) ?img = drop j (?S @ ?B)" for j
    by (simp add: drop_append del: append_assoc flip: append_assoc)
  have d2: "drop (12 + 4 * unat (cb_k bf) + j) ?img = drop j (?B @ [])" for j
    using d [of "4 * unat (cb_k bf) + j"] len by (simp add: add.assoc)
  have salts: "map (\<lambda>i. ntohl (le_word (take 4 (drop (12 + 4 * i) ?img)))) [0..<unat (cb_k bf)] = cb_salts bf"
    using assms unfolding d
    by (intro nth_equalityI) (simp_all add: wf_cb_def take_drop_concat del: take_append drop_append)
  have bins: "map (\<lambda>i. ntohs (le_word16 (take 2 (drop (12 + 4 * unat (cb_k bf) + 2 * i) ?img)))) [0..<unat (cb_m bf)] = cb_bins bf"
    using assms unfolding d2
    by (intro nth_equalityI) (simp_all only: wf_cb_def take_drop_concat length_map length_upt nth_map nth_upt add_0
        diff_zero length_be_bytes ntohs_le_word16_be)
  show ?thesis
    unfolding img counting_host_def Let_def using salts bins len by simp
qed

lemma length_counting_image_net:
  "wf_cb bf \<Longrightarrow> length (counting_image (counting_net bf)) = COUNTING_BLOOMFILTER_TOT_LEN bf"
  by (simp add: counting_image_def counting_net_def wf_cb_def length_concat_const [of _ 4]
      length_concat_const [of _ 2] COUNTING_BLOOMFILTER_TOT_LEN_def comp_def)


lemma counting_to_base64_wf:
  assumes "wf_cb bf" "COUNTING_BLOOMFILTER_TOT_LEN bf \<le> 2 ^ 30"
  shows "counting_bloomfilter_to_base64 True True (Some bf) =
    Some (Some (encode_text (map char_of_byte (counting_image (counting_net bf))) @ [CHR 0x00]))"
proof -
  let ?s = "map char_of_byte (counting_image (counting_net bf))"
  have "length ?s \<le> 2 ^ 30" using assms by (simp add: length_counting_image_net)
  moreover have "cb_in_block bf" using assms(1) by (simp add: cb_in_block_def wf_cb_def)
  ultimately show ?thesis using base64_encode_alloc_int [of ?s] by (simp add: counting_bloomfilter_to_base64_def)
qed

section \<open>Properties\<close>

definition small_counting :: counting_bloomfilter where
  "small_counting = \<lparr>cb_k = 2, cb_m = 16, cb_n = 0, cb_salts = [1, 2], cb_bins = replicate 16 0\<rparr>"

lemma wf_small_counting: "wf_cb small_counting"
  by (simp add: wf_cb_def small_counting_def)

lemma room_small_counting: "n \<le> 100 \<Longrightarrow> cb_room small_counting n"
  using wf_small_counting by (simp add: cb_room_def small_counting_def)

text \<open>
  C27: On a well-formed filter, \<open>counting_bloomfilter_operation\<close> refines operations on the counters of
  the positions: check returns 1 exactly when no counter of the key is zero; add increases each
  counter, modulo 2^16, by the number of hash functions that select it; remove decreases it by
  that number but not below zero.  All keep the filter well-formed.
\<close>

theorem counting_operation_refines:
  fixes sha :: digest and key :: "byte list"
  assumes "wf_cb bf"
  defines "pos \<equiv> key_positions sha bf key"
  shows "cb_check sha bf key = Some (\<forall>i \<in> set pos. cb_bins bf ! i \<noteq> 0)
    \<and> (\<exists>bf'. cb_add sha bf key = Some bf' \<and> wf_cb bf' \<and> cb_salts bf' = cb_salts bf
        \<and> (\<forall>i < unat (cb_m bf). cb_bins bf' ! i = cb_bins bf ! i + of_nat (count_list pos i)))
    \<and> (\<exists>bf'. cb_remove sha bf key = Some bf' \<and> wf_cb bf' \<and> cb_salts bf' = cb_salts bf
        \<and> (\<forall>i < unat (cb_m bf). unat (cb_bins bf' ! i) = unat (cb_bins bf ! i) - count_list pos i))"
proof -
  have ps: "set pos \<subseteq> {..<length (cb_bins bf)}" and len: "length (cb_bins bf) = unat (cb_m bf)"
    using cb_positions_bound [OF assms(1)] assms(1) by (simp_all add: pos_def wf_cb_def)
  show ?thesis
    using assms(1) len fold_incr_nth [OF ps] fold_decr_nth [OF ps] by (simp add: cb_ops_wf wf_cb_def pos_def)
qed

theorem counting_operation_refines_witness:
  "\<exists>bf'. cb_add toy_digest small_counting [65] = Some bf' \<and> wf_cb bf'"
  using counting_operation_refines [OF wf_small_counting, where sha = toy_digest and key = "[65]"] by auto

text \<open>
  C28: No false negatives while no counter can overflow: in a filter with room for the keys, that
  is with every counter below 2^16 after \<open>k\<close> increments for each of them, the check succeeds after the
  additions for every added key and for every key for which it succeeded before.
\<close>

theorem counting_no_false_negatives:
  assumes "cb_room bf (length keys)"
  shows "\<exists>bf'. add_keys (cb_add sha) bf keys = Some bf'
    \<and> (\<forall>key. key \<in> set keys \<or> cb_check sha bf key = Some True \<longrightarrow> cb_check sha bf' key = Some True)"
proof -
  obtain bf' where "add_keys (cb_add sha) bf keys = Some bf'"
    using cb.add_keys_defined [of bf keys 0 sha] assms by auto
  then show ?thesis
    using cb.no_false_negatives [OF assms] cb.add_keys_check_kept [OF assms] by blast
qed

theorem counting_no_false_negatives_witness:
  "\<exists>bf'. add_keys (cb_add toy_digest) small_counting [[65], [66, 67]] = Some bf'
     \<and> cb_check toy_digest bf' [66, 67] = Some True"
  using counting_no_false_negatives [OF room_small_counting, of "[[65], [66, 67]]" toy_digest] by auto

text \<open>
  C29: Removing a key that was just added restores every counter, so that the filter reports the same
  keys as before; but \<open>n\<close> is incremented twice by the addition and decremented once by the
  removal, so the pair leaves it one too high.
\<close>

theorem counting_add_remove:
  assumes "cb_room bf 1" "0 < cb_k bf"
  shows "\<exists>bf'. cb_add sha bf key = Some bf' \<and> cb_n bf' = cb_n bf + 2
    \<and> cb_remove sha bf' key = Some (bf\<lparr>cb_n := cb_n bf + 1\<rparr>)"
proof -
  have "wf_cb bf" using assms(1) by (simp add: cb_room_def)
  then show ?thesis using cb_add_remove_restores [OF assms, of sha key] by (simp add: cb_ops_wf)
qed

theorem counting_add_remove_witness:
  "\<exists>bf'. cb_add toy_digest small_counting [65] = Some bf'
     \<and> cb_remove toy_digest bf' [65] = Some (small_counting\<lparr>cb_n := 1\<rparr>)"
  using counting_add_remove [OF room_small_counting, of toy_digest "[65]"] by (auto simp: small_counting_def)

text \<open>
  The counters overflow: when the counter of a position that one hash function selects for a key
  stands at 65535, adding the key wraps it to zero and the key is reported as absent.
\<close>

theorem counting_overflow_loses_key:
  assumes "wf_cb bf" "i < unat (cb_m bf)" "cb_bins bf ! i = 65535" "count_list (key_positions sha bf key) i = 1"
  shows "\<exists>bf'. cb_add sha bf key = Some bf' \<and> cb_check sha bf key \<noteq> None \<and> cb_check sha bf' key = Some False"
proof -
  let ?ps = "key_positions sha bf key"
  let ?bf' = "bf\<lparr>cb_bins := fold incr_at ?ps (cb_bins bf), cb_n := cb_n bf + 2\<rparr>"
  have len: "length (cb_bins bf) = unat (cb_m bf)" using assms(1) by (simp add: wf_cb_def)
  have "i \<in> set ?ps" using assms(4) count_list_0_iff [of ?ps i] by fastforce
  moreover have "cb_bins ?bf' ! i = 0"
    using fold_incr_nth [OF cb_positions_bound [OF assms(1)], of i sha key] assms(2-4) len by simp
  ultimately have "cb_check sha ?bf' key = Some False"
    using assms(1) by (subst cb_ops_wf) (auto simp: wf_cb_def)
  then show ?thesis using assms(1) by (simp add: cb_ops_wf)
qed

definition full_counting :: counting_bloomfilter where
  "full_counting = \<lparr>cb_k = 1, cb_m = 1, cb_n = 0, cb_salts = [1], cb_bins = [65535]\<rparr>"

theorem counting_overflow_loses_key_witness:
  "\<exists>bf'. cb_add toy_digest full_counting [65] = Some bf' \<and> cb_check toy_digest bf' [65] = Some False"
proof -
  have "count_list (key_positions toy_digest full_counting [65]) 0 = 1"
    by (simp add: full_counting_def positions_def)
  then show ?thesis
    using counting_overflow_loses_key [of full_counting 0 toy_digest "[65]"]
    by (auto simp: full_counting_def wf_cb_def)
qed

text \<open>
  C30: \<open>counting_bloomfilter_to_noncounting\<close> keeps the membership test: for a well-formed counting
  filter whose length is a multiple of 8 it returns a well-formed plain filter that reports exactly
  the keys the counting filter reports.
\<close>

theorem to_noncounting_equivalent:
  assumes "wf_cb bf" "8 dvd unat (cb_m bf)"
  shows "\<exists>nc. counting_bloomfilter_to_noncounting True (Some bf) = Some (Some nc) \<and> wf_bf nc
    \<and> bf_n nc = cb_n bf \<and> (\<forall>sha key. bf_check sha nc key = cb_check sha bf key)"
proof -
  obtain nc where nc: "counting_bloomfilter_to_noncounting True (Some bf) = Some (Some nc)" "wf_bf nc"
    "bf_n nc = cb_n bf" "bf_m nc = cb_m bf" "bf_salts nc = cb_salts bf"
    "bits_of nc = {i. i < unat (cb_m bf) \<and> cb_bins bf ! i \<noteq> 0}"
    using to_noncounting_wf [OF assms] by auto
  have "i < unat (cb_m bf)" if "i \<in> set (key_positions sha bf key)" for i sha key
    using that cb_positions_bound [OF assms(1)] assms(1) by (fastforce simp: wf_cb_def)
  then have "bf_check sha nc key = cb_check sha bf key" for sha key
    using nc by (auto simp: bf_check_wf cb_ops_wf [OF assms(1)])
  then show ?thesis using nc by auto
qed

theorem to_noncounting_equivalent_witness:
  "\<exists>nc. counting_bloomfilter_to_noncounting True (Some small_counting) = Some (Some nc)
     \<and> bf_check toy_digest nc [65] = cb_check toy_digest small_counting [65]"
  using to_noncounting_equivalent [OF wf_small_counting] by (auto simp: small_counting_def)

text \<open>
  The text form of the counting filter round-trips, its 16-bit counters included, for a
  well-formed filter of at most 2^30 bytes.
\<close>

theorem counting_base64_roundtrip:
  assumes "wf_cb bf" "COUNTING_BLOOMFILTER_TOT_LEN bf \<le> 2 ^ 30" "length (ctx_buf stack) = 4"
  shows "\<exists>text. counting_bloomfilter_to_base64 True True (Some bf) = Some (Some text)
    \<and> base64_to_counting_bloomfilter True stack (c_string text) = Some (Some bf)"
proof -
  let ?s = "map char_of_byte (counting_image (counting_net bf))"
  have "\<exists>ctx'. base64_decode_alloc True (base64_decode_ctx_init stack) (encode_text ?s) = Some (ctx', True, Some ?s)"
    using base64_decode_alloc_spec [OF assms(3), of "encode_text ?s"] by (simp add: decode_encode_text)
  then have "base64_to_counting_bloomfilter True stack (encode_text ?s) = Some (Some bf)"
    by (auto simp: base64_to_counting_bloomfilter_def counting_host_net [OF assms(1)] comp_def)
  then show ?thesis using counting_to_base64_wf [OF assms(1,2)] by simp
qed

theorem counting_base64_roundtrip_witness:
  "\<exists>text. counting_bloomfilter_to_base64 True True (Some small_counting) = Some (Some text)
    \<and> base64_to_counting_bloomfilter True \<lparr>ctx_i = 0, ctx_buf = ''abcd''\<rparr> (c_string text) = Some (Some small_counting)"
  by (rule counting_base64_roundtrip [OF wf_small_counting])
    (simp_all add: COUNTING_BLOOMFILTER_TOT_LEN_def small_counting_def)

end
