(* ===== verification/CList.thy ===== *)
theory CList
  imports Haggle_Prelude
begin

text \<open>
  The doubly linked list of \<open>src/src/libhaggle/include/libhaggle/list.h\<close> and the memory it lives in.
  An address is a natural number, 0 is \<open>NULL\<close>.  The memory is a record that the theories of the
  components extend by the objects they allocate; the list elements, which are embedded in these objects,
  are a finite map from addresses to pairs of pointers.  An access outside its domain is
  undefined behaviour, the value \<open>None\<close>.
\<close>

section \<open>Memory\<close>

type_synonym ptr = nat

abbreviation NULL :: ptr where "NULL \<equiv> 0"

record list_t =
  l_prev :: ptr
  l_next :: ptr

type_synonym links = "ptr \<rightharpoonup> list_t"

text \<open>
  The list elements, the first address that was never allocated, and the outcomes of the calls of
  \<open>malloc\<close> to come (they succeed when the list is exhausted).
\<close>

record heap =
  h_links :: links
  h_brk :: ptr
  h_mem :: "bool list"

text \<open>The outcome of an allocation.\<close>

definition malloc_ok :: "'z heap_scheme \<Rightarrow> bool \<times> 'z heap_scheme" where
  "malloc_ok h = (case h_mem h of [] \<Rightarrow> (True, h) | b # bs \<Rightarrow> (b, h\<lparr>h_mem := bs\<rparr>))"

text \<open>
  The allocation of a structure with up to three list elements, at its address and the two after it; a
  structure takes four addresses.
\<close>

definition malloc :: "'z heap_scheme \<Rightarrow> ptr \<times> 'z heap_scheme" where
  "malloc h =
     (let (ok, h) = malloc_ok h in
      if ok then (h_brk h, h\<lparr>h_brk := h_brk h + 4\<rparr>) else (NULL, h))"

section \<open>The operations of the list\<close>

definition LIST_NULL :: int where "LIST_NULL = -1"
definition LIST_SUCCESS :: int where "LIST_SUCCESS = 1"

definition set_next :: "ptr \<Rightarrow> ptr \<Rightarrow> links \<Rightarrow> links option" where
  "set_next p v L = (case L p of None \<Rightarrow> None | Some l \<Rightarrow> Some (L(p \<mapsto> l\<lparr>l_next := v\<rparr>)))"

definition set_prev :: "ptr \<Rightarrow> ptr \<Rightarrow> links \<Rightarrow> links option" where
  "set_prev p v L = (case L p of None \<Rightarrow> None | Some l \<Rightarrow> Some (L(p \<mapsto> l\<lparr>l_prev := v\<rparr>)))"

definition INIT_LIST :: "ptr \<Rightarrow> links \<Rightarrow> links" where
  "INIT_LIST p L = L(p \<mapsto> \<lparr>l_prev = p, l_next = p\<rparr>)"

definition listelm_detach :: "ptr \<Rightarrow> ptr \<Rightarrow> links \<Rightarrow> (int \<times> links) option" where
  "listelm_detach prv nxt L =
     do {
       L \<leftarrow> set_prev nxt prv L;
       L \<leftarrow> set_next prv nxt L;
       Some (LIST_SUCCESS, L)
     }"

definition listelm_add :: "ptr \<Rightarrow> ptr \<Rightarrow> ptr \<Rightarrow> links \<Rightarrow> (int \<times> links) option" where
  "listelm_add le prv nxt L =
     do {
       L \<leftarrow> set_next prv le L;
       L \<leftarrow> set_prev le prv L;
       L \<leftarrow> set_next le nxt L;
       L \<leftarrow> set_prev nxt le L;
       Some (LIST_SUCCESS, L)
     }"

definition list_add :: "ptr \<Rightarrow> ptr \<Rightarrow> links \<Rightarrow> (int \<times> links) option" where
  "list_add le head L =
     (if head = NULL \<or> le = NULL then Some (LIST_NULL, L)
      else
        do {
          hd \<leftarrow> L head;
          (_, L) \<leftarrow> listelm_add le head (l_next hd) L;
          Some (LIST_SUCCESS, L)
        })"

definition list_add_tail :: "ptr \<Rightarrow> ptr \<Rightarrow> links \<Rightarrow> (int \<times> links) option" where
  "list_add_tail le head L =
     (if head = NULL \<or> le = NULL then Some (LIST_NULL, L)
      else
        do {
          hd \<leftarrow> L head;
          (_, L) \<leftarrow> listelm_add le (l_prev hd) head L;
          Some (LIST_SUCCESS, L)
        })"

definition list_detach :: "ptr \<Rightarrow> links \<Rightarrow> (int \<times> links) option" where
  "list_detach le L =
     (if le = NULL then Some (LIST_NULL, L)
      else
        do {
          l \<leftarrow> L le;
          (_, L) \<leftarrow> listelm_detach (l_prev l) (l_next l) L;
          L \<leftarrow> set_prev le NULL L;
          L \<leftarrow> set_next le NULL L;
          Some (LIST_SUCCESS, L)
        })"

definition list_empty :: "ptr \<Rightarrow> links \<Rightarrow> bool option" where
  "list_empty head L = map_option (\<lambda>l. head = l_next l) (L head)"

definition list_first :: "ptr \<Rightarrow> links \<Rightarrow> ptr option" where
  "list_first head L = map_option l_next (L head)"

definition list_unattached :: "ptr \<Rightarrow> links \<Rightarrow> bool option" where
  "list_unattached le L = map_option (\<lambda>l. l_next l = le \<and> l_prev l = le) (L le)"

text \<open>
  The loop \<open>for (; pos != head; pos = pos->next)\<close> of \<open>list_for_each\<close>, over a state from which \<open>lnk\<close> reads
  the list elements.  The body ends the loop with \<open>Inl\<close> (a return statement) or continues it with
  \<open>Inr\<close>.  A loop that never comes back to the head has no value.
\<close>

partial_function (option) for_each_from ::
    "('s \<Rightarrow> links) \<Rightarrow> (ptr \<Rightarrow> 's \<Rightarrow> ('r + 's) option) \<Rightarrow> ptr \<Rightarrow> ptr \<Rightarrow> 's \<Rightarrow> ('r + 's) option" where
  "for_each_from lnk body head pos s =
     (if pos = head then Some (Inr s)
      else
        do {
          r \<leftarrow> body pos s;
          (case r of
             Inl x \<Rightarrow> Some (Inl x)
           | Inr s' \<Rightarrow>
               do {
                 l \<leftarrow> lnk s' pos;
                 for_each_from lnk body head (l_next l) s'
               })
        })"

definition list_for_each ::
    "('s \<Rightarrow> links) \<Rightarrow> (ptr \<Rightarrow> 's \<Rightarrow> ('r + 's) option) \<Rightarrow> ptr \<Rightarrow> 's \<Rightarrow> ('r + 's) option" where
  "list_for_each lnk body head s =
     do {
       l \<leftarrow> lnk s head;
       for_each_from lnk body head (l_next l) s
     }"

text \<open>\<open>list_for_each_safe\<close>: the successor is read before the body runs.\<close>

partial_function (option) for_each_safe_from ::
    "('s \<Rightarrow> links) \<Rightarrow> (ptr \<Rightarrow> 's \<Rightarrow> ('r + 's) option) \<Rightarrow> ptr \<Rightarrow> ptr \<Rightarrow> ptr \<Rightarrow> 's \<Rightarrow> ('r + 's) option" where
  "for_each_safe_from lnk body head pos tmp s =
     (if pos = head then Some (Inr s)
      else
        do {
          r \<leftarrow> body pos s;
          (case r of
             Inl x \<Rightarrow> Some (Inl x)
           | Inr s' \<Rightarrow>
               do {
                 l \<leftarrow> lnk s' tmp;
                 for_each_safe_from lnk body head tmp (l_next l) s'
               })
        })"

definition list_for_each_safe ::
    "('s \<Rightarrow> links) \<Rightarrow> (ptr \<Rightarrow> 's \<Rightarrow> ('r + 's) option) \<Rightarrow> ptr \<Rightarrow> 's \<Rightarrow> ('r + 's) option" where
  "list_for_each_safe lnk body head s =
     do {
       l \<leftarrow> lnk s head;
       l' \<leftarrow> lnk s (l_next l);
       for_each_safe_from lnk body head (l_next l) (l_next l') s
     }"

section \<open>The abstraction to sequences\<close>

text \<open>\<open>q\<close> is the successor of \<open>p\<close> and \<open>p\<close> the predecessor of \<open>q\<close>.\<close>

definition linked :: "links \<Rightarrow> ptr \<Rightarrow> ptr \<Rightarrow> bool" where
  "linked L p q \<longleftrightarrow> map_option l_next (L p) = Some q \<and> map_option l_prev (L q) = Some p"

fun seg :: "links \<Rightarrow> ptr \<Rightarrow> ptr list \<Rightarrow> ptr \<Rightarrow> bool" where
  "seg L p [] q \<longleftrightarrow> linked L p q"
| "seg L p (x # xs) q \<longleftrightarrow> linked L p x \<and> seg L x xs q"

text \<open>The elements \<open>xs\<close> in their order form a list with head \<open>h\<close>.\<close>

definition ring :: "links \<Rightarrow> ptr \<Rightarrow> ptr list \<Rightarrow> bool" where
  "ring L h xs \<longleftrightarrow> distinct (h # xs) \<and> NULL \<notin> set (h # xs) \<and> seg L h xs h"

lemma seg_append: "seg L p (xs @ x # ys) q \<longleftrightarrow> seg L p xs x \<and> seg L x ys q"
  by (induction xs arbitrary: p) auto

lemma linked_cong: "L p = L' p \<Longrightarrow> L q = L' q \<Longrightarrow> linked L p q = linked L' p q"
  by (simp add: linked_def)

lemma seg_cong: "(\<And>r. r \<in> insert p (insert q (set xs)) \<Longrightarrow> L r = L' r) \<Longrightarrow> seg L p xs q = seg L' p xs q"
  by (induction xs arbitrary: p) (auto simp: linked_cong [of L _ L'] linked_def)

lemma ring_cong: "(\<And>r. r \<in> set (h # xs) \<Longrightarrow> L r = L' r) \<Longrightarrow> ring L h xs = ring L' h xs"
  using seg_cong [of h h xs L L'] by (auto simp: ring_def)

lemma seg_dom: "seg L p xs q \<Longrightarrow> insert p (insert q (set xs)) \<subseteq> dom L"
  by (induction xs arbitrary: p) (auto simp: linked_def)

lemma ring_dom: "ring L h xs \<Longrightarrow> set (h # xs) \<subseteq> dom L"
  using seg_dom [of L h xs h] by (auto simp: ring_def)

lemma ring_init: "h \<noteq> NULL \<Longrightarrow> ring (INIT_LIST h L) h []"
  by (simp add: ring_def INIT_LIST_def linked_def)

section \<open>The operations on sequences\<close>

lemma seg_keep:
  "seg L a xs b \<Longrightarrow> (\<And>r s. linked L r s \<Longrightarrow> r \<in> set (a # xs) \<Longrightarrow> s \<in> set (xs @ [b]) \<Longrightarrow> linked L' r s)
   \<Longrightarrow> seg L' a xs b"
  by (induction xs arbitrary: a) auto

lemma listelm_add_linked:
  assumes "linked L p q" "le \<in> dom L" "le \<noteq> p" "le \<noteq> q"
  shows "\<exists>L'. listelm_add le p q L = Some (LIST_SUCCESS, L') \<and> linked L' p le \<and> linked L' le q
    \<and> (\<forall>r s. linked L r s \<and> r \<noteq> p \<and> r \<noteq> le \<and> s \<noteq> q \<and> s \<noteq> le \<longrightarrow> linked L' r s)
    \<and> (\<forall>r. r \<noteq> p \<and> r \<noteq> q \<and> r \<noteq> le \<longrightarrow> L' r = L r) \<and> dom L' = dom L"
proof -
  obtain lp lq ll where l: "L p = Some lp" "L q = Some lq" "L le = Some ll"
    using assms(1,2) by (auto simp: linked_def)
  show ?thesis
    using assms l
    by (cases "p = q") (auto simp: listelm_add_def set_next_def set_prev_def linked_def)
qed

lemma list_detach_linked:
  assumes "linked L p x" "linked L x q" "x \<noteq> p" "x \<noteq> q" "x \<noteq> NULL"
  shows "\<exists>L'. list_detach x L = Some (LIST_SUCCESS, L') \<and> linked L' p q \<and> L' x = Some \<lparr>l_prev = NULL, l_next = NULL\<rparr>
    \<and> (\<forall>r s. linked L r s \<and> r \<noteq> p \<and> r \<noteq> x \<and> s \<noteq> q \<and> s \<noteq> x \<longrightarrow> linked L' r s)
    \<and> (\<forall>r. r \<noteq> p \<and> r \<noteq> q \<and> r \<noteq> x \<longrightarrow> L' r = L r) \<and> dom L' = dom L"
proof -
  obtain lp lq lx where l: "L p = Some lp" "L q = Some lq" "L x = Some lx" "l_prev lx = p" "l_next lx = q"
    using assms(1,2) by (auto simp: linked_def)
  show ?thesis
    using assms l
    by (cases "p = q") (auto simp: list_detach_def listelm_detach_def set_next_def set_prev_def linked_def)
qed

text \<open>What an operation on one list leaves unchanged.\<close>

definition same_outside :: "ptr set \<Rightarrow> links \<Rightarrow> links \<Rightarrow> bool" where
  "same_outside A L L' \<longleftrightarrow> (\<forall>r. r \<notin> A \<longrightarrow> L' r = L r) \<and> dom L' = dom L"

lemma ring_frame: "same_outside A L L' \<Longrightarrow> ring L h xs \<Longrightarrow> A \<inter> set (h # xs) = {} \<Longrightarrow> ring L' h xs"
proof -
  assume "same_outside A L L'" "ring L h xs" "A \<inter> set (h # xs) = {}"
  moreover from this have "L r = L' r" if "r \<in> set (h # xs)" for r
    using that by (metis disjoint_iff same_outside_def)
  ultimately show ?thesis using ring_cong [of h xs L L'] by simp
qed

lemma list_add_tail_ring:
  assumes "ring L h xs" "le \<in> dom L" "le \<noteq> NULL" "le \<notin> set (h # xs)"
  shows "\<exists>L'. list_add_tail le h L = Some (LIST_SUCCESS, L') \<and> ring L' h (xs @ [le])
    \<and> same_outside (insert le (set (h # xs))) L L'"
proof (cases xs rule: rev_cases)
  case Nil
  then have "linked L h h" "h \<noteq> NULL" using assms(1) by (auto simp: ring_def)
  then show ?thesis
    using listelm_add_linked [of L h h le] assms Nil
    by (auto simp: list_add_tail_def linked_def ring_def same_outside_def)
next
  case (snoc zs p)
  then have s: "seg L h zs p" "linked L p h" "distinct (h # zs @ [p])" "h \<noteq> NULL"
    using assms(1) by (auto simp: ring_def seg_append)
  obtain L' where L': "listelm_add le p h L = Some (LIST_SUCCESS, L')" "linked L' p le" "linked L' le h"
    "\<And>r s. linked L r s \<Longrightarrow> r \<noteq> p \<Longrightarrow> r \<noteq> le \<Longrightarrow> s \<noteq> h \<Longrightarrow> s \<noteq> le \<Longrightarrow> linked L' r s"
    "\<And>r. r \<noteq> p \<Longrightarrow> r \<noteq> h \<Longrightarrow> r \<noteq> le \<Longrightarrow> L' r = L r" "dom L' = dom L"
    using listelm_add_linked [OF s(2) assms(2)] assms(4) snoc by auto
  have "seg L' h zs p"
    by (rule seg_keep [OF s(1)]) (use L'(4) s(3) assms(4) snoc in auto)
  then have "ring L' h (xs @ [le])"
    using L'(2,3) s assms snoc by (auto simp: ring_def seg_append)
  moreover have "list_add_tail le h L = Some (LIST_SUCCESS, L')"
    using L'(1) s assms(3) by (auto simp: list_add_tail_def linked_def)
  ultimately show ?thesis using L'(5,6) snoc by (auto simp: same_outside_def)
qed

lemma list_add_ring:
  assumes "ring L h xs" "le \<in> dom L" "le \<noteq> NULL" "le \<notin> set (h # xs)"
  shows "\<exists>L'. list_add le h L = Some (LIST_SUCCESS, L') \<and> ring L' h (le # xs)
    \<and> same_outside (insert le (set (h # xs))) L L'"
proof (cases xs)
  case Nil
  then have "linked L h h" "h \<noteq> NULL" using assms(1) by (auto simp: ring_def)
  then show ?thesis
    using listelm_add_linked [of L h h le] assms Nil
    by (auto simp: list_add_def linked_def ring_def same_outside_def)
next
  case (Cons q zs)
  then have s: "seg L q zs h" "linked L h q" "distinct (h # q # zs)" "h \<noteq> NULL"
    using assms(1) by (auto simp: ring_def)
  obtain L' where L': "listelm_add le h q L = Some (LIST_SUCCESS, L')" "linked L' h le" "linked L' le q"
    "\<And>r s. linked L r s \<Longrightarrow> r \<noteq> h \<Longrightarrow> r \<noteq> le \<Longrightarrow> s \<noteq> q \<Longrightarrow> s \<noteq> le \<Longrightarrow> linked L' r s"
    "\<And>r. r \<noteq> h \<Longrightarrow> r \<noteq> q \<Longrightarrow> r \<noteq> le \<Longrightarrow> L' r = L r" "dom L' = dom L"
    using listelm_add_linked [OF s(2) assms(2)] assms(4) Cons by auto
  have "seg L' q zs h"
    by (rule seg_keep [OF s(1)]) (use L'(4) s(3) assms(4) Cons in auto)
  then have "ring L' h (le # xs)"
    using L'(2,3) s assms Cons by (auto simp: ring_def)
  moreover have "list_add le h L = Some (LIST_SUCCESS, L')"
    using L'(1) s assms(3) by (auto simp: list_add_def linked_def)
  ultimately show ?thesis using L'(5,6) Cons by (auto simp: same_outside_def)
qed

lemma seg_last_linked: "seg L h xs q \<Longrightarrow> linked L (last (h # xs)) q"
  by (induction xs arbitrary: h) auto

lemma seg_hd_linked: "seg L x ys h \<Longrightarrow> linked L x (hd (ys @ [h]))"
  by (cases ys) auto

lemma seg_bypass:
  assumes "seg L h xs x" "seg L x ys h" "linked L' (last (h # xs)) (hd (ys @ [h]))" "distinct (h # xs @ x # ys)"
    "\<And>r s. linked L r s \<Longrightarrow> r \<noteq> last (h # xs) \<Longrightarrow> r \<noteq> x \<Longrightarrow> s \<noteq> hd (ys @ [h]) \<Longrightarrow> s \<noteq> x \<Longrightarrow> linked L' r s"
  shows "seg L' h (xs @ ys) h"
proof -
  have front: "seg L' h zs p" if "xs = zs @ [p]" for zs p
  proof (rule seg_keep [of L])
    show "seg L h zs p" using assms(1) that by (auto simp: seg_append)
    show "linked L' r s" if "linked L r s" "r \<in> set (h # zs)" "s \<in> set (zs @ [p])" for r s
      using that assms(4,5) \<open>xs = zs @ [p]\<close> by (cases ys) auto
  qed
  have rear: "seg L' q zs h" if "ys = q # zs" for zs q
  proof (rule seg_keep [of L])
    show "seg L q zs h" using assms(2) that by auto
    show "linked L' r s" if "linked L r s" "r \<in> set (q # zs)" "s \<in> set (zs @ [h])" for r s
      using that assms(4,5) \<open>ys = q # zs\<close> by (cases xs rule: rev_cases) auto
  qed
  show ?thesis
    using front rear assms(3) by (cases xs rule: rev_cases; cases ys) (auto simp: seg_append)
qed

lemma list_detach_ring:
  assumes "ring L h (xs @ x # ys)"
  shows "\<exists>L'. list_detach x L = Some (LIST_SUCCESS, L') \<and> ring L' h (xs @ ys)
    \<and> L' x = Some \<lparr>l_prev = NULL, l_next = NULL\<rparr> \<and> same_outside (set (h # xs @ x # ys)) L L'"
proof -
  let ?p = "last (h # xs)" and ?q = "hd (ys @ [h])"
  have s: "seg L h xs x" "seg L x ys h" "distinct (h # xs @ x # ys)" "NULL \<notin> set (h # xs @ x # ys)"
    using assms by (auto simp: ring_def seg_append)
  have pq: "?p \<in> set (h # xs)" "?q \<in> set (ys @ [h])" by (cases xs rule: rev_cases; cases ys; auto)+
  obtain L' where L': "list_detach x L = Some (LIST_SUCCESS, L')" "linked L' ?p ?q"
    "L' x = Some \<lparr>l_prev = NULL, l_next = NULL\<rparr>"
    "\<And>r s. linked L r s \<Longrightarrow> r \<noteq> ?p \<Longrightarrow> r \<noteq> x \<Longrightarrow> s \<noteq> ?q \<Longrightarrow> s \<noteq> x \<Longrightarrow> linked L' r s"
    "\<And>r. r \<noteq> ?p \<Longrightarrow> r \<noteq> ?q \<Longrightarrow> r \<noteq> x \<Longrightarrow> L' r = L r" "dom L' = dom L"
    using list_detach_linked [OF seg_last_linked [OF s(1)] seg_hd_linked [OF s(2)]] s pq by fastforce
  have "seg L' h (xs @ ys) h" by (rule seg_bypass [OF s(1,2) L'(2) s(3) L'(4)])
  then have "ring L' h (xs @ ys)" using s(3,4) by (auto simp: ring_def)
  moreover have "same_outside (set (h # xs @ x # ys)) L L'"
    unfolding same_outside_def using L'(5,6) pq
    by (metis Un_iff append_Cons insert_iff list.set(2) set_append list.set_intros(1) empty_iff list.set(1))
  ultimately show ?thesis using L'(1,3) by blast
qed

section \<open>Loops over a list\<close>

fun loop_over :: "(ptr \<Rightarrow> 's \<Rightarrow> ('r + 's) option) \<Rightarrow> ptr list \<Rightarrow> 's \<Rightarrow> ('r + 's) option" where
  "loop_over body [] s = Some (Inr s)"
| "loop_over body (x # xs) s =
     do {
       r \<leftarrow> body x s;
       (case r of Inl x \<Rightarrow> Some (Inl x) | Inr s' \<Rightarrow> loop_over body xs s')
     }"

lemma for_each_from_loop:
  assumes inv: "\<And>s. I s \<Longrightarrow> seg (lnk s) p (ys @ xs) h"
    and kept: "\<And>x s s'. x \<in> set xs \<Longrightarrow> I s \<Longrightarrow> body x s = Some (Inr s') \<Longrightarrow> I s'"
    and "I s" "h \<notin> set xs"
  shows "for_each_from lnk body h (hd (xs @ [h])) s = loop_over body xs s"
  using assms
proof (induction xs arbitrary: ys s)
  case Nil
  show ?case by (subst for_each_from.simps) simp
next
  case (Cons x xs)
  have nxt: "\<exists>l. lnk s' x = Some l \<and> l_next l = hd (xs @ [h])" if "I s'" for s'
    using Cons.prems(1) [OF that] by (cases xs) (auto simp: seg_append linked_def)
  have IH: "for_each_from lnk body h (hd (xs @ [h])) s' = loop_over body xs s'" if "I s'" for s'
    using Cons.IH [of "ys @ [x]" s'] Cons.prems that by auto
  have step: "lnk s' x \<bind> (\<lambda>l. for_each_from lnk body h (l_next l) s') = loop_over body xs s'" if "I s'" for s'
    using nxt [OF that] IH [OF that] by auto
  show ?case
    using Cons.prems(4) step Cons.prems(2) [of x s] Cons.prems(3)
    by (subst for_each_from.simps) (auto split: sum.splits intro!: Option.bind_cong)
qed

lemma list_for_each_loop:
  assumes "\<And>s. I s \<Longrightarrow> ring (lnk s) h xs"
    and "\<And>x s s'. x \<in> set xs \<Longrightarrow> I s \<Longrightarrow> body x s = Some (Inr s') \<Longrightarrow> I s'"
    and "I s"
  shows "list_for_each lnk body h s = loop_over body xs s"
proof -
  have "map_option l_next (lnk s h) = Some (hd (xs @ [h]))"
    using assms(1) [OF assms(3)] by (cases xs) (auto simp: ring_def linked_def)
  moreover have "for_each_from lnk body h (hd (xs @ [h])) s = loop_over body xs s"
    by (rule for_each_from_loop [of I lnk h "[]" xs h body]) (use assms in \<open>auto simp: ring_def\<close>)
  ultimately show ?thesis by (auto simp: list_for_each_def)
qed

text \<open>A loop whose body only looks at the list.\<close>

lemma list_for_each_pure:
  assumes "ring (lnk s) h xs" "\<And>x s s'. body x s = Some (Inr s') \<Longrightarrow> lnk s' = lnk s"
  shows "list_for_each lnk body h s = loop_over body xs s"
  using list_for_each_loop [of "\<lambda>t. lnk t = lnk s" lnk h xs body s] assms by auto

text \<open>A loop whose body may destroy the element it visits.\<close>

fun fwd :: "links \<Rightarrow> ptr list \<Rightarrow> ptr \<Rightarrow> bool" where
  "fwd L [] h \<longleftrightarrow> h \<in> dom L"
| "fwd L (x # xs) h \<longleftrightarrow> map_option l_next (L x) = Some (hd (xs @ [h])) \<and> fwd L xs h"

lemma seg_fwd: "seg L p xs h \<Longrightarrow> h \<in> dom L \<Longrightarrow> fwd L xs h"
proof (induction xs arbitrary: p)
  case (Cons x xs)
  then show ?case by (cases xs) (auto simp: linked_def)
qed simp

lemma fwd_cong: "(\<And>r. r \<in> insert h (set xs) \<Longrightarrow> L' r = L r) \<Longrightarrow> fwd L' xs h = fwd L xs h"
  by (induction xs) (auto simp: domIff)

lemma fwd_hd: "fwd L xs h \<Longrightarrow> \<exists>l. L (hd (xs @ [h])) = Some l"
  by (cases xs) auto

lemma for_each_safe_from_loop:
  assumes kept: "\<And>x s s' r. body x s = Some (Inr s') \<Longrightarrow> r \<noteq> x \<Longrightarrow> lnk s' r = lnk s r"
  shows "distinct (xs @ [h]) \<Longrightarrow> fwd (lnk s) xs h \<Longrightarrow> map_option l_next (lnk s (hd (xs @ [h]))) = Some t
    \<Longrightarrow> for_each_safe_from lnk body h (hd (xs @ [h])) t s = loop_over body xs s"
proof (induction xs arbitrary: s t)
  case Nil
  show ?case by (subst for_each_safe_from.simps) simp
next
  case (Cons x xs)
  have t: "t = hd (xs @ [h])" using Cons.prems by auto
  have step: "\<exists>l. lnk s' t = Some l \<and> for_each_safe_from lnk body h t (l_next l) s' = loop_over body xs s'"
    if b: "body x s = Some (Inr s')" for s'
  proof -
    have "fwd (lnk s') xs h = fwd (lnk s) xs h"
      by (rule fwd_cong, rule kept [OF b]) (use Cons.prems(1) in auto)
    then have fwd: "fwd (lnk s') xs h" using Cons.prems by simp
    then obtain l where l: "lnk s' t = Some l" using fwd_hd t by blast
    then show ?thesis using Cons.IH [OF _ fwd, of "l_next l"] Cons.prems(1) t by auto
  qed
  show ?case
    using Cons.prems(1) step
    by (subst for_each_safe_from.simps) (auto intro!: Option.bind_cong split: sum.splits)
qed

lemma list_for_each_safe_loop:
  assumes "ring (lnk s) h xs" "\<And>x s s' r. body x s = Some (Inr s') \<Longrightarrow> r \<noteq> x \<Longrightarrow> lnk s' r = lnk s r"
  shows "list_for_each_safe lnk body h s = loop_over body xs s"
proof -
  have "seg (lnk s) h xs h" "distinct (xs @ [h])" "h \<in> dom (lnk s)"
    using assms(1) ring_dom [OF assms(1)] by (auto simp: ring_def)
  then have f: "fwd (lnk s) xs h" and nh: "map_option l_next (lnk s h) = Some (hd (xs @ [h]))"
    using seg_fwd seg_hd_linked by (blast, fastforce simp: linked_def)
  obtain l where l: "lnk s (hd (xs @ [h])) = Some l" using fwd_hd [OF f] by blast
  have "for_each_safe_from lnk body h (hd (xs @ [h])) (l_next l) s = loop_over body xs s"
    by (rule for_each_safe_from_loop) (use assms(2) f l \<open>distinct (xs @ [h])\<close> in auto)
  then show ?thesis using nh l by (auto simp: list_for_each_safe_def)
qed

section \<open>A sequence interface\<close>

text \<open>
  What the clients of the list rely on: a representation relation, an operation that appends an
  element that is in no list and one that takes out an element, with what they leave alone.
\<close>

locale sequence =
  fixes repr :: "'m \<Rightarrow> 'p \<Rightarrow> 'p list \<Rightarrow> bool"
    and free_elm :: "'m \<Rightarrow> 'p \<Rightarrow> bool"
    and append_elm :: "'p \<Rightarrow> 'p \<Rightarrow> 'm \<Rightarrow> 'm option"
    and remove_elm :: "'p \<Rightarrow> 'm \<Rightarrow> 'm option"
  assumes append_law: "repr m h xs \<Longrightarrow> free_elm m x \<Longrightarrow> x \<notin> set (h # xs)
      \<Longrightarrow> \<exists>m'. append_elm x h m = Some m' \<and> repr m' h (xs @ [x])
        \<and> (\<forall>y. y \<notin> set (x # h # xs) \<longrightarrow> free_elm m' y = free_elm m y)"
    and remove_law: "repr m h (xs @ x # ys)
      \<Longrightarrow> \<exists>m'. remove_elm x m = Some m' \<and> repr m' h (xs @ ys) \<and> free_elm m' x
        \<and> (\<forall>y. y \<notin> set (h # xs @ x # ys) \<longrightarrow> free_elm m' y = free_elm m y)"
begin

lemma append_remove:
  assumes "repr m h xs" "free_elm m x" "x \<notin> set (h # xs)"
  shows "\<exists>m' m''. append_elm x h m = Some m' \<and> remove_elm x m' = Some m'' \<and> repr m'' h xs \<and> free_elm m'' x"
  using append_law [OF assms] remove_law [of _ h xs x "[]"] by fastforce

fun append_elms :: "'p list \<Rightarrow> 'p \<Rightarrow> 'm \<Rightarrow> 'm option" where
  "append_elms [] h m = Some m"
| "append_elms (x # xs) h m = Option.bind (append_elm x h m) (append_elms xs h)"

lemma append_elms:
  "repr m h xs \<Longrightarrow> \<forall>y \<in> set ys. free_elm m y \<Longrightarrow> distinct ys \<Longrightarrow> set ys \<inter> set (h # xs) = {}
   \<Longrightarrow> \<exists>m'. append_elms ys h m = Some m' \<and> repr m' h (xs @ ys)"
proof (induction ys arbitrary: m xs)
  case (Cons y ys)
  obtain m' where m': "append_elm y h m = Some m'" "repr m' h (xs @ [y])"
    "\<forall>z. z \<notin> set (y # h # xs) \<longrightarrow> free_elm m' z = free_elm m z"
    using append_law [OF Cons.prems(1), of y] Cons.prems by fastforce
  have "\<forall>z \<in> set ys. free_elm m' z" using m'(3) Cons.prems by auto
  then show ?case using Cons.IH [OF m'(2)] m'(1) Cons.prems by auto
qed simp

end

definition append_links :: "ptr \<Rightarrow> ptr \<Rightarrow> links \<Rightarrow> links option" where
  "append_links le head L = map_option snd (list_add_tail le head L)"

definition detach_links :: "ptr \<Rightarrow> links \<Rightarrow> links option" where
  "detach_links le L = map_option snd (list_detach le L)"

interpretation links: sequence ring "\<lambda>L p. p \<noteq> NULL \<and> p \<in> dom L" append_links detach_links
proof unfold_locales
  fix m h xs x
  assume "ring m h xs" "x \<noteq> NULL \<and> x \<in> dom m" "x \<notin> set (h # xs)"
  then show "\<exists>m'. append_links x h m = Some m' \<and> ring m' h (xs @ [x])
      \<and> (\<forall>y. y \<notin> set (x # h # xs) \<longrightarrow> (y \<noteq> NULL \<and> y \<in> dom m') = (y \<noteq> NULL \<and> y \<in> dom m))"
    using list_add_tail_ring [of m h xs x] by (auto simp: append_links_def same_outside_def)
next
  fix m h xs x ys
  assume r: "ring m h (xs @ x # ys)"
  moreover have "x \<noteq> NULL" using r by (auto simp: ring_def)
  ultimately show "\<exists>m'. detach_links x m = Some m' \<and> ring m' h (xs @ ys) \<and> (x \<noteq> NULL \<and> x \<in> dom m')
      \<and> (\<forall>y. y \<notin> set (h # xs @ x # ys) \<longrightarrow> (y \<noteq> NULL \<and> y \<in> dom m') = (y \<noteq> NULL \<and> y \<in> dom m))"
    using list_detach_ring [OF r] by (auto simp: detach_links_def same_outside_def)
qed
section \<open>Properties\<close>

text \<open>
  C19: The list operations refine operations on sequences: on a list with the elements \<open>xs\<close>, \<open>list_add\<close>
  puts a new element in front, \<open>list_add_tail\<close> at the end, and \<open>list_detach\<close> takes an element out from
  any position and leaves the order of the others.  Every list that shares no element with the list and
  the element is unchanged.
\<close>

theorem list_operations_refine:
  assumes "ring L h (xs @ ys)" "x \<in> dom L" "x \<noteq> NULL" "x \<notin> set (h # xs @ ys)"
  shows "(\<exists>L'. list_add x h L = Some (LIST_SUCCESS, L') \<and> ring L' h (x # xs @ ys)
        \<and> (\<forall>h' zs. ring L h' zs \<and> set (h' # zs) \<inter> set (x # h # xs @ ys) = {} \<longrightarrow> ring L' h' zs))
    \<and> (\<exists>L'. list_add_tail x h L = Some (LIST_SUCCESS, L') \<and> ring L' h (xs @ ys @ [x])
        \<and> (\<forall>h' zs. ring L h' zs \<and> set (h' # zs) \<inter> set (x # h # xs @ ys) = {} \<longrightarrow> ring L' h' zs))
    \<and> (\<forall>y ys'. ys = y # ys' \<longrightarrow> (\<exists>L'. list_detach y L = Some (LIST_SUCCESS, L') \<and> ring L' h (xs @ ys')
        \<and> (\<forall>h' zs. ring L h' zs \<and> set (h' # zs) \<inter> set (h # xs @ ys) = {} \<longrightarrow> ring L' h' zs)))"
proof -
  have frame: "ring L' h' zs" if "same_outside A L L'" "ring L h' zs \<and> set (h' # zs) \<inter> A = {}" for A L' h' zs
    using ring_frame [OF that(1), of h' zs] that(2) by (simp add: Int_commute)
  have A: "insert x (set (h # xs @ ys)) = set (x # h # xs @ ys)" by simp
  show ?thesis
  proof (intro conjI allI impI)
    show "\<exists>L'. list_add x h L = Some (LIST_SUCCESS, L') \<and> ring L' h (x # xs @ ys)
        \<and> (\<forall>h' zs. ring L h' zs \<and> set (h' # zs) \<inter> set (x # h # xs @ ys) = {} \<longrightarrow> ring L' h' zs)"
      using list_add_ring [OF assms] frame unfolding A by blast
    show "\<exists>L'. list_add_tail x h L = Some (LIST_SUCCESS, L') \<and> ring L' h (xs @ ys @ [x])
        \<and> (\<forall>h' zs. ring L h' zs \<and> set (h' # zs) \<inter> set (x # h # xs @ ys) = {} \<longrightarrow> ring L' h' zs)"
      using list_add_tail_ring [OF assms] frame unfolding A append_assoc by blast
    show "\<exists>L'. list_detach y L = Some (LIST_SUCCESS, L') \<and> ring L' h (xs @ ys')
        \<and> (\<forall>h' zs. ring L h' zs \<and> set (h' # zs) \<inter> set (h # xs @ ys) = {} \<longrightarrow> ring L' h' zs)"
      if "ys = y # ys'" for y ys'
      using list_detach_ring [of L h xs y ys'] assms(1) frame unfolding that by blast
  qed
qed

theorem list_operations_refine_witness:
  "\<exists>L'. list_add 2 1 (INIT_LIST 2 (INIT_LIST 1 Map.empty)) = Some (LIST_SUCCESS, L') \<and> ring L' 1 [2]"
proof -
  have "ring (INIT_LIST 2 (INIT_LIST 1 Map.empty)) 1 ([] @ [])"
    by (simp add: ring_def linked_def INIT_LIST_def)
  from list_operations_refine [OF this, of 2] show ?thesis by (auto simp: INIT_LIST_def)
qed

text \<open>
  C31: The loops end: \<open>list_for_each\<close> over a list visits its elements in order, until the body returns, provided that the body
  leaves all links as they are; \<open>list_for_each_safe\<close> does so when the body leaves the links of all elements other than the one it visits, which it
  may unlink or destroy.
\<close>

theorem list_loops_visit_all:
  assumes "ring (lnk s) h xs"
  shows "((\<forall>x s s'. body x s = Some (Inr s') \<longrightarrow> lnk s' = lnk s)
        \<longrightarrow> list_for_each lnk body h s = loop_over body xs s)
    \<and> ((\<forall>x s s' r. body x s = Some (Inr s') \<and> r \<noteq> x \<longrightarrow> lnk s' r = lnk s r)
        \<longrightarrow> list_for_each_safe lnk body h s = loop_over body xs s)"
  using list_for_each_pure [of lnk s h xs body] list_for_each_safe_loop [of lnk s h xs body] assms by auto

text \<open>A list of two elements; the second loop destroys each element that it visits.\<close>

definition sample_links :: links where
  "sample_links = [1 \<mapsto> \<lparr>l_prev = 3, l_next = 2\<rparr>, 2 \<mapsto> \<lparr>l_prev = 1, l_next = 3\<rparr>, 3 \<mapsto> \<lparr>l_prev = 2, l_next = 1\<rparr>]"

theorem list_loops_visit_all_witness:
  "list_for_each fst (\<lambda>x (L, xs). Some (Inr (L, xs @ [x]) :: unit + _)) 1 (sample_links, []) = Some (Inr (sample_links, [2, 3]))
   \<and> list_for_each_safe fst (\<lambda>x (L, xs). Some (Inr (L(x := None), xs @ [x]) :: unit + _)) 1 (sample_links, [])
      = Some (Inr (sample_links(2 := None, 3 := None), [2, 3]))"
proof -
  have "ring (fst (sample_links, [] :: nat list)) 1 [2, 3]" by (simp add: ring_def linked_def sample_links_def)
  then show ?thesis
    using list_loops_visit_all [of fst "(sample_links, [] :: nat list)" 1 "[2, 3]" "\<lambda>x (L, xs). Some (Inr (L, xs @ [x]) :: unit + _)"]
      list_loops_visit_all [of fst "(sample_links, [] :: nat list)" 1 "[2, 3]" "\<lambda>x (L, xs). Some (Inr (L(x := None), xs @ [x]) :: unit + _)"]
    by simp
qed

end
