(* ===== verification/Attribute.thy ===== *)
theory Attribute
  imports CList
begin

text \<open>
  The attributes and attribute lists of \<open>src/src/libhaggle/attribute.c\<close>.  The list element of an
  attribute and the head of an attribute list are the first members of their structures, so they have
  the addresses of the structures.  A string pointer is a \<^typ>\<open>string option\<close>; strings are owned by
  the structures and copied, so they are values.  A function that can meet undefined behaviour
  returns an option.
\<close>

section \<open>Attributes\<close>

record attribute =
  attr_name :: "string option"
  attr_value :: "string option"
  attr_weight :: u64

text \<open>The attributes, and the attribute lists with their number of attributes.\<close>

record aheap = heap +
  h_attrs :: "ptr \<rightharpoonup> attribute"
  h_alists :: "ptr \<rightharpoonup> u64"

text \<open>The release of the memory of an attribute and of an attribute list.\<close>

definition free_attr :: "ptr \<Rightarrow> 'z aheap_scheme \<Rightarrow> 'z aheap_scheme" where
  "free_attr p h = h\<lparr>h_links := (h_links h)(p := None), h_attrs := (h_attrs h)(p := None)\<rparr>"

definition free_alist :: "ptr \<Rightarrow> 'z aheap_scheme \<Rightarrow> 'z aheap_scheme" where
  "free_alist p h = h\<lparr>h_links := (h_links h)(p := None), h_alists := (h_alists h)(p := None)\<rparr>"

definition haggle_attribute_new_weighted ::
    "string option \<Rightarrow> string option \<Rightarrow> u64 \<Rightarrow> 'z aheap_scheme \<Rightarrow> ptr \<times> 'z aheap_scheme" where
  "haggle_attribute_new_weighted name vl weight h =
     (if name = None \<or> vl = None then (NULL, h)
      else
        let (attr, h) = malloc h in
        if attr = NULL then (NULL, h)
        else
          let h = h\<lparr>h_links := INIT_LIST attr (h_links h),
                    h_attrs := (h_attrs h)(attr \<mapsto> \<lparr>attr_name = None, attr_value = None, attr_weight = 0\<rparr>)\<rparr>;
              (ok, h) = malloc_ok h in
          if \<not> ok then (NULL, free_attr attr h)
          else
            let (ok, h) = malloc_ok h in
            if \<not> ok then (NULL, free_attr attr h)
            else (attr, h\<lparr>h_attrs := (h_attrs h)(attr \<mapsto> \<lparr>attr_name = name, attr_value = vl, attr_weight = weight\<rparr>)\<rparr>))"

definition haggle_attribute_new :: "string option \<Rightarrow> string option \<Rightarrow> 'z aheap_scheme \<Rightarrow> ptr \<times> 'z aheap_scheme" where
  "haggle_attribute_new name vl h = haggle_attribute_new_weighted name vl 1 h"

definition haggle_attribute_copy :: "ptr \<Rightarrow> 'z aheap_scheme \<Rightarrow> (ptr \<times> 'z aheap_scheme) option" where
  "haggle_attribute_copy a h =
     do {
       v \<leftarrow> h_attrs h a;
       Some (haggle_attribute_new_weighted (attr_name v) (attr_value v) (attr_weight v) h)
     }"

definition haggle_attribute_free :: "ptr \<Rightarrow> 'z aheap_scheme \<Rightarrow> 'z aheap_scheme option" where
  "haggle_attribute_free attr h = do { _ \<leftarrow> h_attrs h attr; Some (free_attr attr h) }"

definition haggle_attribute_get_name :: "ptr \<Rightarrow> 'z aheap_scheme \<Rightarrow> string option option" where
  "haggle_attribute_get_name attr h = (if attr = NULL then Some None else map_option attr_name (h_attrs h attr))"

definition haggle_attribute_get_value :: "ptr \<Rightarrow> 'z aheap_scheme \<Rightarrow> string option option" where
  "haggle_attribute_get_value attr h = (if attr = NULL then Some None else map_option attr_value (h_attrs h attr))"

definition haggle_attribute_set_name ::
    "ptr \<Rightarrow> string option \<Rightarrow> 'z aheap_scheme \<Rightarrow> (string option \<times> 'z aheap_scheme) option" where
  "haggle_attribute_set_name attr name h =
     (if attr = NULL then Some (None, h)
      else
        do {
          s \<leftarrow> name;
          let (ok, h) = malloc_ok h in
          if \<not> ok then Some (None, h)
          else
            do {
              v \<leftarrow> h_attrs h attr;
              Some (name, h\<lparr>h_attrs := (h_attrs h)(attr \<mapsto> v\<lparr>attr_name := name\<rparr>)\<rparr>)
            }
        })"

definition haggle_attribute_set_value ::
    "ptr \<Rightarrow> string option \<Rightarrow> 'z aheap_scheme \<Rightarrow> (string option \<times> 'z aheap_scheme) option" where
  "haggle_attribute_set_value attr vl h =
     (if attr = NULL then Some (None, h)
      else
        do {
          s \<leftarrow> vl;
          let (ok, h) = malloc_ok h in
          if \<not> ok then Some (None, h)
          else
            do {
              v \<leftarrow> h_attrs h attr;
              Some (vl, h\<lparr>h_attrs := (h_attrs h)(attr \<mapsto> v\<lparr>attr_value := vl\<rparr>)\<rparr>)
            }
        })"

definition haggle_attribute_get_weight :: "ptr \<Rightarrow> 'z aheap_scheme \<Rightarrow> u64 option" where
  "haggle_attribute_get_weight attr h = (if attr = NULL then Some 1 else map_option attr_weight (h_attrs h attr))"

definition haggle_attribute_set_weight :: "ptr \<Rightarrow> u64 \<Rightarrow> 'z aheap_scheme \<Rightarrow> (u64 \<times> 'z aheap_scheme) option" where
  "haggle_attribute_set_weight attr weight h =
     (if attr = NULL then Some (0, h)
      else
        do {
          v \<leftarrow> h_attrs h attr;
          Some (weight, h\<lparr>h_attrs := (h_attrs h)(attr \<mapsto> v\<lparr>attr_weight := weight\<rparr>)\<rparr>)
        })"

section \<open>Attribute lists\<close>

definition haggle_attributelist_new :: "'z aheap_scheme \<Rightarrow> ptr \<times> 'z aheap_scheme" where
  "haggle_attributelist_new h =
     (let (al, h) = malloc h in
      if al = NULL then (NULL, h)
      else (al, h\<lparr>h_links := INIT_LIST al (h_links h), h_alists := (h_alists h)(al \<mapsto> 0)\<rparr>))"

definition haggle_attributelist_add_attribute ::
    "ptr \<Rightarrow> ptr \<Rightarrow> 'z aheap_scheme \<Rightarrow> (u64 \<times> 'z aheap_scheme) option" where
  "haggle_attributelist_add_attribute al a h =
     (if al = NULL \<or> a = NULL then Some (0, h)
      else
        do {
          unattached \<leftarrow> list_unattached a (h_links h);
          if \<not> unattached then Some (0, h)
          else
            do {
              (_, L) \<leftarrow> list_add_tail a al (h_links h);
              n \<leftarrow> h_alists h al;
              Some (n + 1, h\<lparr>h_links := L, h_alists := (h_alists h)(al \<mapsto> n + 1)\<rparr>)
            }
        })"

definition haggle_attributelist_new_from_attribute :: "ptr \<Rightarrow> 'z aheap_scheme \<Rightarrow> (ptr \<times> 'z aheap_scheme) option" where
  "haggle_attributelist_new_from_attribute a h =
     (let (al, h) = haggle_attributelist_new h in
      do {
        (n, h) \<leftarrow> haggle_attributelist_add_attribute al a h;
        Some (if n = 0 then NULL else al, h)
      })"

definition haggle_attributelist_free :: "ptr \<Rightarrow> 'z aheap_scheme \<Rightarrow> 'z aheap_scheme option" where
  "haggle_attributelist_free al h =
     (if al = NULL then Some h
      else
        do {
          r \<leftarrow> list_for_each_safe h_links (\<lambda>pos h. map_option Inr (haggle_attribute_free pos h)) al h;
          (case r of Inl (_ :: unit) \<Rightarrow> None | Inr h \<Rightarrow> Some (free_alist al h))
        })"

text \<open>The body of the loop of \<open>haggle_attributelist_copy\<close>.\<close>

definition copy_body :: "ptr \<Rightarrow> ptr \<Rightarrow> 'z aheap_scheme \<Rightarrow> (ptr \<times> 'z aheap_scheme + 'z aheap_scheme) option" where
  "copy_body alc pos h =
     do {
       (a, h) \<leftarrow> haggle_attribute_copy pos h;
       (n, h) \<leftarrow> haggle_attributelist_add_attribute alc a h;
       Some (if n = 0 then Inl (NULL, free_alist alc h) else Inr h)
     }"

definition haggle_attributelist_copy :: "ptr \<Rightarrow> 'z aheap_scheme \<Rightarrow> (ptr \<times> 'z aheap_scheme) option" where
  "haggle_attributelist_copy al h =
     (if al = NULL then Some (NULL, h)
      else
        let (alc, h) = haggle_attributelist_new h in
        if alc = NULL then Some (NULL, h)
        else
          do {
            r \<leftarrow> list_for_each h_links (copy_body alc) al h;
            Some (case r of Inl res \<Rightarrow> res | Inr h \<Rightarrow> (alc, h))
          })"

definition haggle_attributelist_get_attribute_n :: "ptr \<Rightarrow> u64 \<Rightarrow> 'z aheap_scheme \<Rightarrow> ptr option" where
  "haggle_attributelist_get_attribute_n al k h =
     (if al = NULL then Some NULL
      else
        do {
          r \<leftarrow> list_for_each (\<lambda>_. h_links h)
                (\<lambda>pos n :: u64. Some (if n = k then Inl pos else Inr (n + 1))) al 0;
          Some (case r of Inl a \<Rightarrow> a | Inr _ \<Rightarrow> NULL)
        })"

text \<open>\<open>strcmp (a->name, name) == 0\<close> and the same for the value; a comparison with \<open>NULL\<close> is undefined.\<close>

definition name_is :: "ptr \<Rightarrow> string \<Rightarrow> 'z aheap_scheme \<Rightarrow> bool option" where
  "name_is a name h = do { v \<leftarrow> h_attrs h a; s \<leftarrow> attr_name v; Some (s = name) }"

definition value_is :: "ptr \<Rightarrow> string \<Rightarrow> 'z aheap_scheme \<Rightarrow> bool option" where
  "value_is a vl h = do { v \<leftarrow> h_attrs h a; s \<leftarrow> attr_value v; Some (s = vl) }"

definition haggle_attributelist_get_attribute_by_name ::
    "ptr \<Rightarrow> string option \<Rightarrow> 'z aheap_scheme \<Rightarrow> ptr option" where
  "haggle_attributelist_get_attribute_by_name al name h =
     (case name of
        None \<Rightarrow> Some NULL
      | Some nm \<Rightarrow>
          if al = NULL then Some NULL
          else
            do {
              r \<leftarrow> list_for_each (\<lambda>_. h_links h)
                    (\<lambda>pos u. do { eq \<leftarrow> name_is pos nm h; Some (if eq then Inl pos else Inr u) }) al ();
              Some (case r of Inl a \<Rightarrow> a | Inr _ \<Rightarrow> NULL)
            })"

definition haggle_attributelist_get_attribute_by_name_value ::
    "ptr \<Rightarrow> string option \<Rightarrow> string option \<Rightarrow> 'z aheap_scheme \<Rightarrow> ptr option" where
  "haggle_attributelist_get_attribute_by_name_value al name vl h =
     (case (name, vl) of
        (Some nm, Some v) \<Rightarrow>
          if al = NULL then Some NULL
          else
            do {
              r \<leftarrow> list_for_each (\<lambda>_. h_links h)
                    (\<lambda>pos u. do {
                       eq \<leftarrow> name_is pos nm h;
                       if eq then do { eq' \<leftarrow> value_is pos v h; Some (if eq' then Inl pos else Inr u) }
                       else Some (Inr u)
                     }) al ();
              Some (case r of Inl a \<Rightarrow> a | Inr _ \<Rightarrow> NULL)
            }
      | _ \<Rightarrow> Some NULL)"

text \<open>The counter \<open>i\<close> is an \<open>int\<close>; a list of 2^31 attributes is out of reach.\<close>

definition haggle_attributelist_get_attribute_by_name_n ::
    "ptr \<Rightarrow> string option \<Rightarrow> int \<Rightarrow> 'z aheap_scheme \<Rightarrow> ptr option" where
  "haggle_attributelist_get_attribute_by_name_n al name n h =
     (case name of
        None \<Rightarrow> Some NULL
      | Some nm \<Rightarrow>
          if al = NULL then Some NULL
          else
            do {
              r \<leftarrow> list_for_each (\<lambda>_. h_links h)
                    (\<lambda>pos i :: int. do {
                       eq \<leftarrow> name_is pos nm h;
                       Some (if eq then if n = i then Inl pos else Inr (i + 1) else Inr i)
                     }) al 0;
              Some (case r of Inl a \<Rightarrow> a | Inr _ \<Rightarrow> NULL)
            })"

text \<open>The statements \<open>list_detach(&a->l); al->num_attributes--;\<close>.\<close>

definition detach_and_count :: "ptr \<Rightarrow> ptr \<Rightarrow> 'z aheap_scheme \<Rightarrow> 'z aheap_scheme option" where
  "detach_and_count al a h =
     do {
       (_, L) \<leftarrow> list_detach a (h_links h);
       n \<leftarrow> h_alists h al;
       Some (h\<lparr>h_links := L, h_alists := (h_alists h)(al \<mapsto> n - 1)\<rparr>)
     }"

definition haggle_attributelist_remove_attribute ::
    "ptr \<Rightarrow> string option \<Rightarrow> string option \<Rightarrow> 'z aheap_scheme \<Rightarrow> (ptr \<times> 'z aheap_scheme) option" where
  "haggle_attributelist_remove_attribute al name vl h =
     (if al = NULL then Some (NULL, h)
      else
        do {
          a \<leftarrow> haggle_attributelist_get_attribute_by_name_value al name vl h;
          if a = NULL then Some (NULL, h)
          else do { h \<leftarrow> detach_and_count al a h; Some (a, h) }
        })"

definition haggle_attributelist_detach_attribute ::
    "ptr \<Rightarrow> ptr \<Rightarrow> 'z aheap_scheme \<Rightarrow> (int \<times> 'z aheap_scheme) option" where
  "haggle_attributelist_detach_attribute al a h =
     (if al = NULL \<or> a = NULL then Some (HAGGLE_PARAM_ERROR, h)
      else
        do {
          v \<leftarrow> h_attrs h a;
          found \<leftarrow> haggle_attributelist_get_attribute_by_name_value al (attr_name v) (attr_value v) h;
          if found = NULL then Some (HAGGLE_PARAM_ERROR, h)
          else do { h \<leftarrow> detach_and_count al a h; Some (1, h) }
        })"

definition haggle_attributelist_size :: "ptr \<Rightarrow> 'z aheap_scheme \<Rightarrow> u64 option" where
  "haggle_attributelist_size al h = (if al = NULL then Some 0 else h_alists h al)"

definition haggle_attributelist_pop :: "ptr \<Rightarrow> 'z aheap_scheme \<Rightarrow> (ptr \<times> 'z aheap_scheme) option" where
  "haggle_attributelist_pop al h =
     (if al = NULL then Some (NULL, h)
      else
        do {
          f \<leftarrow> list_first al (h_links h);
          if f = NULL then Some (NULL, h)
          else
            do {
              n \<leftarrow> h_alists h al;
              (_, L) \<leftarrow> list_detach f (h_links h);
              Some (f, h\<lparr>h_links := L, h_alists := (h_alists h)(al \<mapsto> n - 1)\<rparr>)
            }
        })"

section \<open>Parsing a list of pairs\<close>

text \<open>\<open>strtok_r\<close> with a single delimiter: the next token and the text after it.\<close>

definition strtok_r :: "char \<Rightarrow> string \<Rightarrow> (string \<times> string) option" where
  "strtok_r d s =
     (let s = dropWhile (\<lambda>c. c = d) s in
      if s = [] then None
      else Some (takeWhile (\<lambda>c. c \<noteq> d) s, drop 1 (dropWhile (\<lambda>c. c \<noteq> d) s)))"

lemma strtok_r_shorter: "strtok_r d s = Some (tok, rest) \<Longrightarrow> length rest < length s"
proof -
  assume a: "strtok_r d s = Some (tok, rest)"
  define t where "t = dropWhile (\<lambda>c. c = d) s"
  have t: "t \<noteq> []" "rest = drop 1 (dropWhile (\<lambda>c. c \<noteq> d) t)"
    using a by (auto simp: strtok_r_def t_def Let_def split: if_splits)
  have "hd t \<noteq> d" using t(1) hd_dropWhile [of "\<lambda>c. c = d" s] by (simp add: t_def)
  then have "length rest < length t"
    using t length_dropWhile_le [of "\<lambda>c. c \<noteq> d" "tl t"] by (cases t) auto
  also have "length t \<le> length s" by (simp add: t_def length_dropWhile_le)
  finally show ?thesis .
qed

text \<open>The name and the value in a token; \<open>None\<close> is the error of a bad pair.\<close>

definition name_value :: "string \<Rightarrow> (string \<times> string) option" where
  "name_value token =
     do {
       (name, rest) \<leftarrow> strtok_r (CHR ''='') token;
       (vl, _) \<leftarrow> strtok_r (CHR ''='') rest;
       Some (name, vl)
     }"

text \<open>The loop over the tokens: the value \<open>Inl\<close> after a bad pair and the number of pairs otherwise.\<close>

function parse_pairs :: "ptr \<Rightarrow> string \<Rightarrow> nat \<Rightarrow> 'z aheap_scheme
    \<Rightarrow> ('z aheap_scheme + nat \<times> 'z aheap_scheme) option" where
  "parse_pairs al s n h =
     (case strtok_r (CHR '','') s of
        None \<Rightarrow> Some (Inr (n, h))
      | Some (token, rest) \<Rightarrow>
          (case name_value token of
             None \<Rightarrow> map_option Inl (haggle_attributelist_free al h)
           | Some (name, vl) \<Rightarrow>
               let (a, h) = haggle_attribute_new (Some name) (Some vl) h in
               do {
                 (_, h) \<leftarrow> haggle_attributelist_add_attribute al a h;
                 parse_pairs al rest (n + 1) h
               }))"
  by pat_completeness auto
termination
  by (relation "measure (\<lambda>(al, s, n, h). length s)") (auto dest: strtok_r_shorter)

declare parse_pairs.simps [simp del]

text \<open>
  \<open>haggle_attributelist_new_from_string\<close>: the block for the working copy has \<open>strlen(str)\<close> bytes.
\<close>

definition haggle_attributelist_new_from_string :: "string \<Rightarrow> 'z aheap_scheme \<Rightarrow> (ptr \<times> 'z aheap_scheme) option" where
  "haggle_attributelist_new_from_string str h =
     (let wstr = replicate (length str) None; (ok, h) = malloc_ok h in
      if \<not> ok then Some (NULL, h)
      else
        let (al, h) = haggle_attributelist_new h in
        if al = NULL then Some (NULL, h)
        else
          do {
            wstr \<leftarrow> strcpy wstr str;
            s \<leftarrow> read_string wstr;
            r \<leftarrow> parse_pairs al s 0 h;
            (case r of
               Inl h \<Rightarrow> Some (NULL, h)
             | Inr (n, h) \<Rightarrow>
                 if n = 0 then do { h \<leftarrow> haggle_attributelist_free al h; Some (NULL, h) }
                 else Some (al, h))
          })"

section \<open>Well-formed memory\<close>

definition wf_heap :: "'z aheap_scheme \<Rightarrow> bool" where
  "wf_heap h \<longleftrightarrow> 0 < h_brk h
     \<and> h_links h NULL = None \<and> h_attrs h NULL = None \<and> h_alists h NULL = None
     \<and> (\<forall>p \<ge> h_brk h. h_links h p = None \<and> h_attrs h p = None \<and> h_alists h p = None)"

text \<open>Two memories with the same objects.\<close>

definition same_objects :: "'z aheap_scheme \<Rightarrow> 'z aheap_scheme \<Rightarrow> bool" where
  "same_objects h h' \<longleftrightarrow> h_links h' = h_links h \<and> h_attrs h' = h_attrs h \<and> h_alists h' = h_alists h"

lemma malloc_ok_frame:
  "malloc_ok h = (ok, h') \<Longrightarrow> h_links h' = h_links h \<and> h_brk h' = h_brk h \<and> (h_mem h = [] \<longrightarrow> ok \<and> h_mem h' = [])"
  by (auto simp: malloc_ok_def split: list.splits)

lemma malloc_ok_same: "malloc_ok h = (ok, h') \<Longrightarrow> same_objects h h'"
  by (auto simp: malloc_ok_def same_objects_def split: list.splits)

lemma malloc_cases:
  assumes "malloc h = (p, h')"
  shows "p = NULL \<and> h_brk h' = h_brk h \<and> h_mem h \<noteq> [] \<or> p = h_brk h \<and> h_brk h' = h_brk h + 4"
    and "same_objects h h'" and "h_mem h = [] \<Longrightarrow> h_mem h' = []"
  using assms by (auto simp: malloc_def malloc_ok_def same_objects_def split: list.splits if_splits)

lemma wf_heap_brk: "wf_heap h \<Longrightarrow> h_links h (h_brk h) = None \<and> h_attrs h (h_brk h) = None \<and> h_alists h (h_brk h) = None \<and> h_brk h \<noteq> NULL"
  by (auto simp: wf_heap_def)

lemma haggle_attribute_new_weighted_cases:
  assumes "wf_heap h" "haggle_attribute_new_weighted (Some nm) (Some vl) w h = (a, h')"
  shows "wf_heap h'" "h_brk h \<le> h_brk h'"
    "h_mem h = [] \<Longrightarrow> a \<noteq> NULL \<and> h_mem h' = []"
    "a = NULL \<and> same_objects h h'
     \<or> a = h_brk h \<and> a < h_brk h' \<and> h_links h' = INIT_LIST a (h_links h) \<and> h_alists h' = h_alists h
       \<and> h_attrs h' = (h_attrs h)(a \<mapsto> \<lparr>attr_name = Some nm, attr_value = Some vl, attr_weight = w\<rparr>)"
  using assms wf_heap_brk [OF assms(1)]
  by (auto simp: haggle_attribute_new_weighted_def malloc_def malloc_ok_def wf_heap_def same_objects_def INIT_LIST_def
      free_attr_def Let_def fun_upd_idem split: list.splits if_splits)

lemma haggle_attributelist_new_cases:
  assumes "wf_heap h" "haggle_attributelist_new h = (al, h')"
  shows "wf_heap h'" "h_brk h \<le> h_brk h'"
    "h_mem h = [] \<Longrightarrow> al \<noteq> NULL \<and> h_mem h' = []"
    "al = NULL \<and> same_objects h h'
     \<or> al = h_brk h \<and> al < h_brk h' \<and> h_links h' = INIT_LIST al (h_links h)
       \<and> h_alists h' = (h_alists h)(al \<mapsto> 0) \<and> h_attrs h' = h_attrs h"
  using assms wf_heap_brk [OF assms(1)]
  by (auto simp: haggle_attributelist_new_def malloc_def malloc_ok_def wf_heap_def same_objects_def INIT_LIST_def
      Let_def split: list.splits if_splits)

section \<open>The abstraction to a list of attributes\<close>

text \<open>The list at \<open>al\<close> consists of the elements \<open>xs\<close>, which hold the attributes \<open>vs\<close>.\<close>

definition alist :: "'z aheap_scheme \<Rightarrow> ptr \<Rightarrow> ptr list \<Rightarrow> attribute list \<Rightarrow> bool" where
  "alist h al xs vs \<longleftrightarrow> ring (h_links h) al xs \<and> h_alists h al = Some (of_nat (length xs))
     \<and> map (h_attrs h) xs = map Some vs \<and> (\<forall>v \<in> set vs. attr_name v \<noteq> None \<and> attr_value v \<noteq> None)"

lemma alist_length: "alist h al xs vs \<Longrightarrow> length vs = length xs"
  by (auto simp: alist_def dest: map_eq_imp_length_eq)

lemma alist_not_NULL: "alist h al xs vs \<Longrightarrow> al \<noteq> NULL \<and> NULL \<notin> set xs"
  by (auto simp: alist_def ring_def)

lemma ring_unattached_notin:
  assumes "ring L h xs" "list_unattached a L = Some True" "a \<noteq> h"
  shows "a \<notin> set xs"
proof
  assume "a \<in> set xs"
  then obtain us ws where xs: "xs = us @ a # ws" by (meson split_list)
  then have "linked L a (hd (ws @ [h]))" "distinct (h # us @ a # ws)"
    using assms(1) seg_hd_linked by (auto simp: ring_def seg_append)
  then have "hd (ws @ [h]) \<noteq> a" using assms(3) by (cases ws) auto
  with \<open>linked L a (hd (ws @ [h]))\<close> assms(2) show False by (auto simp: list_unattached_def linked_def)
qed

lemma add_attribute_alist:
  assumes "alist h al xs vs" "h_attrs h a = Some v" "attr_name v \<noteq> None" "attr_value v \<noteq> None"
    "list_unattached a (h_links h) = Some True" "a \<noteq> al" "a \<noteq> NULL"
  shows "\<exists>h'. haggle_attributelist_add_attribute al a h = Some (of_nat (length xs) + 1, h')
    \<and> alist h' al (xs @ [a]) (vs @ [v]) \<and> h_attrs h' = h_attrs h
    \<and> (\<forall>p. p \<noteq> al \<longrightarrow> h_alists h' p = h_alists h p) \<and> h_brk h' = h_brk h \<and> h_mem h' = h_mem h
    \<and> same_outside (insert a (set (al # xs))) (h_links h) (h_links h')"
proof -
  have r: "ring (h_links h) al xs" "h_alists h al = Some (of_nat (length xs))" "al \<noteq> NULL"
    using assms(1) by (auto simp: alist_def ring_def)
  have a: "a \<in> dom (h_links h)" "a \<notin> set (al # xs)"
    using assms(5,6) ring_unattached_notin [OF r(1) assms(5)] by (auto simp: list_unattached_def)
  obtain L' where L': "list_add_tail a al (h_links h) = Some (LIST_SUCCESS, L')" "ring L' al (xs @ [a])"
    "same_outside (insert a (set (al # xs))) (h_links h) L'"
    using list_add_tail_ring [OF r(1) a(1) assms(7) a(2)] by blast
  then show ?thesis
    using assms r by (auto simp: haggle_attributelist_add_attribute_def alist_def add.commute)
qed

lemma detach_and_count_alist:
  assumes "alist h al (xs @ a # ys) (vs @ v # ws)" "length vs = length xs"
  shows "\<exists>h'. detach_and_count al a h = Some h' \<and> alist h' al (xs @ ys) (vs @ ws)
    \<and> h_links h' a = Some \<lparr>l_prev = NULL, l_next = NULL\<rparr> \<and> h_attrs h' = h_attrs h
    \<and> (\<forall>p. p \<noteq> al \<longrightarrow> h_alists h' p = h_alists h p)
    \<and> same_outside (set (al # xs @ a # ys)) (h_links h) (h_links h')"
proof -
  have r: "ring (h_links h) al (xs @ a # ys)" "h_alists h al = Some (of_nat (length (xs @ a # ys)))"
    using assms(1) by (auto simp: alist_def)
  obtain L' where L': "list_detach a (h_links h) = Some (LIST_SUCCESS, L')" "ring L' al (xs @ ys)"
    "L' a = Some \<lparr>l_prev = NULL, l_next = NULL\<rparr>" "same_outside (set (al # xs @ a # ys)) (h_links h) L'"
    using list_detach_ring [OF r(1)] by blast
  then show ?thesis
    using assms r by (auto simp: detach_and_count_def alist_def)
qed

section \<open>Searching\<close>

definition first_match :: "(attribute \<Rightarrow> bool) \<Rightarrow> ptr list \<Rightarrow> attribute list \<Rightarrow> ptr" where
  "first_match P xs vs = (case find (\<lambda>(x, v). P v) (zip xs vs) of Some (x, _) \<Rightarrow> x | None \<Rightarrow> NULL)"

lemma first_match_in: "first_match P xs vs \<noteq> NULL \<Longrightarrow> first_match P xs vs \<in> set xs"
proof (cases "find (\<lambda>(x, v). P v) (zip xs vs)")
  case (Some p)
  then have "p \<in> set (zip xs vs)" by (metis find_Some_iff nth_mem)
  then show ?thesis using Some by (auto simp: first_match_def split: prod.splits dest: set_zip_leftD)
qed (simp add: first_match_def)

lemma loop_over_search:
  assumes "length vs = length xs" "\<forall>(x, v) \<in> set (zip xs vs). body x () = Some (if P v then Inl x else Inr ())"
  shows "loop_over body xs () = Some (case find (\<lambda>(x, v). P v) (zip xs vs) of Some (x, _) \<Rightarrow> Inl x | None \<Rightarrow> Inr ())"
  using assms by (induction xs vs rule: list_induct2') auto

lemma alist_attrs:
  assumes "alist h al xs vs" "(x, v) \<in> set (zip xs vs)"
  shows "h_attrs h x = Some v" "\<exists>nm vl. attr_name v = Some nm \<and> attr_value v = Some vl"
proof -
  obtain i where "i < length xs" "x = xs ! i" "v = vs ! i"
    using assms(2) alist_length [OF assms(1)] by (auto simp: in_set_zip)
  moreover have "map (h_attrs h) xs ! i = map Some vs ! i" using assms(1) by (simp add: alist_def)
  ultimately show "h_attrs h x = Some v" using alist_length [OF assms(1)] by simp
  have "v \<in> set vs" using assms(2) by (auto dest: set_zip_rightD)
  then show "\<exists>nm vl. attr_name v = Some nm \<and> attr_value v = Some vl" using assms(1) by (auto simp: alist_def)
qed

lemma get_attribute_by_name_alist:
  assumes "alist h al xs vs"
  shows "haggle_attributelist_get_attribute_by_name al (Some nm) h
    = Some (first_match (\<lambda>v. attr_name v = Some nm) xs vs)"
proof -
  let ?body = "\<lambda>pos u. do { eq \<leftarrow> name_is pos nm h; Some (if eq then Inl pos else Inr u) }"
  have "list_for_each (\<lambda>_. h_links h) ?body al () = loop_over ?body xs ()"
    by (rule list_for_each_pure) (use assms in \<open>simp_all add: alist_def\<close>)
  also have "\<dots> = Some (case find (\<lambda>(x, v). attr_name v = Some nm) (zip xs vs) of Some (x, _) \<Rightarrow> Inl x | None \<Rightarrow> Inr ())"
    by (rule loop_over_search) (use alist_length [OF assms] alist_attrs [OF assms] in \<open>fastforce simp: name_is_def\<close>)+
  finally show ?thesis
    using alist_not_NULL [OF assms]
    by (simp add: haggle_attributelist_get_attribute_by_name_def first_match_def split: option.splits prod.splits)
qed

lemma get_attribute_by_name_value_alist:
  assumes "alist h al xs vs"
  shows "haggle_attributelist_get_attribute_by_name_value al (Some nm) (Some vl) h
    = Some (first_match (\<lambda>v. attr_name v = Some nm \<and> attr_value v = Some vl) xs vs)"
proof -
  let ?body = "\<lambda>pos u. do {
       eq \<leftarrow> name_is pos nm h;
       if eq then do { eq' \<leftarrow> value_is pos vl h; Some (if eq' then Inl pos else Inr u) }
       else Some (Inr u) }"
  have "list_for_each (\<lambda>_. h_links h) ?body al () = loop_over ?body xs ()"
    by (rule list_for_each_pure) (use assms in \<open>simp_all add: alist_def\<close>)
  also have "\<dots> = Some (case find (\<lambda>(x, v). attr_name v = Some nm \<and> attr_value v = Some vl) (zip xs vs)
      of Some (x, _) \<Rightarrow> Inl x | None \<Rightarrow> Inr ())"
    by (rule loop_over_search)
      (use alist_length [OF assms] alist_attrs [OF assms] in \<open>fastforce simp: name_is_def value_is_def\<close>)+
  finally show ?thesis
    using alist_not_NULL [OF assms]
    by (simp add: haggle_attributelist_get_attribute_by_name_value_def first_match_def split: option.splits prod.splits)
qed


lemma loop_over_nth:
  "i + length xs < 2 ^ 64 \<Longrightarrow> i \<le> unat k \<Longrightarrow>
   loop_over (\<lambda>pos n. Some (if n = k then Inl pos else Inr (n + 1))) xs (of_nat i :: u64)
     = Some (if unat k < i + length xs then Inl (xs ! (unat k - i)) else Inr (of_nat (i + length xs)))"
proof (induction xs arbitrary: i)
  case (Cons x xs)
  have eq: "(of_nat i = k) = (i = unat k)"
    using Cons.prems by (auto simp: word_unat_eq_iff unat_of_nat)
  show ?case
    using Cons.IH [of "Suc i"] Cons.prems by (cases "i = unat k") (auto simp: eq add.commute nth_Cons' Suc_diff_Suc)
qed auto

lemma get_attribute_n_alist:
  assumes "alist h al xs vs" "length xs < 2 ^ 64"
  shows "haggle_attributelist_get_attribute_n al k h = Some (if unat k < length xs then xs ! unat k else NULL)"
proof -
  let ?body = "\<lambda>pos n :: u64. Some (if n = k then Inl pos else Inr (n + 1))"
  have "list_for_each (\<lambda>_. h_links h) ?body al 0 = loop_over ?body xs 0"
    by (rule list_for_each_pure) (use assms in \<open>simp_all add: alist_def\<close>)
  then show ?thesis
    using loop_over_nth [of 0 xs k] assms(2) alist_not_NULL [OF assms(1)]
    by (simp add: haggle_attributelist_get_attribute_n_def)
qed

definition nth_match :: "(attribute \<Rightarrow> bool) \<Rightarrow> int \<Rightarrow> ptr list \<Rightarrow> attribute list \<Rightarrow> ptr" where
  "nth_match P n xs vs =
     (let ms = filter (\<lambda>(x, v). P v) (zip xs vs) in
      if 0 \<le> n \<and> nat n < length ms then fst (ms ! nat n) else NULL)"

lemma loop_over_nth_match:
  assumes "length vs = length xs"
    "\<forall>(x, v) \<in> set (zip xs vs). \<forall>i. body x i = Some (if P v then if n = i then Inl x else Inr (i + 1) else Inr i)"
  shows "\<exists>j. loop_over body xs i = Some (let ms = filter (\<lambda>(x, v). P v) (zip xs vs) in
     if i \<le> n \<and> nat (n - i) < length ms then Inl (fst (ms ! nat (n - i))) else Inr (j :: int))"
  using assms
proof (induction xs vs arbitrary: i rule: list_induct2')
  case (4 x xs v vs)
  show ?case
  proof (cases "P v \<and> n \<noteq> i")
    case True
    then have b: "loop_over body (x # xs) i = loop_over body xs (i + 1)" using "4.prems" by auto
    have k: "nat (n - i) = Suc (nat (n - (i + 1)))" if "i < n" using that by simp
    show ?thesis
      unfolding b using "4.IH" [of "i + 1"] "4.prems" True by (cases "i < n") (auto simp: Let_def k)
  next
    case False
    then show ?thesis using "4.IH" [of i] "4.prems" by (auto simp: Let_def)
  qed
qed auto

lemma get_attribute_by_name_n_alist:
  assumes "alist h al xs vs"
  shows "haggle_attributelist_get_attribute_by_name_n al (Some nm) n h
    = Some (nth_match (\<lambda>v. attr_name v = Some nm) n xs vs)"
proof -
  let ?body = "\<lambda>pos i. do { eq \<leftarrow> name_is pos nm h; Some (if eq then if n = i then Inl pos else Inr (i + 1) else Inr i) }"
  have loop: "list_for_each (\<lambda>_. h_links h) ?body al 0 = loop_over ?body xs 0"
    by (rule list_for_each_pure) (use assms in \<open>simp_all add: alist_def\<close>)
  have "\<exists>j. loop_over ?body xs 0 = Some (let ms = filter (\<lambda>(x, v). attr_name v = Some nm) (zip xs vs) in
     if 0 \<le> n \<and> nat (n - 0) < length ms then Inl (fst (ms ! nat (n - 0))) else Inr j)"
    by (rule loop_over_nth_match) (use alist_length [OF assms] alist_attrs [OF assms] in \<open>fastforce simp: name_is_def\<close>)+
  then show ?thesis
    using alist_not_NULL [OF assms]
    by (auto simp: haggle_attributelist_get_attribute_by_name_n_def nth_match_def loop Let_def)
qed

section \<open>Copying\<close>

text \<open>The objects of a list are below an address, so that a new object is none of them.\<close>

lemma alist_below:
  assumes "wf_heap h" "alist h al xs vs" "p \<in> set (al # xs)"
  shows "p < h_brk h"
proof (rule ccontr)
  assume "\<not> p < h_brk h"
  then have "h_links h p = None" using assms(1) by (simp add: wf_heap_def)
  then show False using ring_dom [of "h_links h" al xs] assms(2,3) by (auto simp: alist_def)
qed

lemma alist_same_objects: "same_objects h h' \<Longrightarrow> alist h al xs vs = alist h' al xs vs"
  by (simp add: alist_def same_objects_def)

lemma alist_cong:
  assumes "alist h al xs vs" "\<And>p. p \<in> set (al # xs) \<Longrightarrow> h_links h' p = h_links h p"
    "\<And>p. p \<in> set xs \<Longrightarrow> h_attrs h' p = h_attrs h p" "h_alists h' al = h_alists h al"
  shows "alist h' al xs vs"
  using assms ring_cong [of al xs "h_links h'" "h_links h"] by (auto simp: alist_def cong: map_cong)

lemma attribute_new_alist:
  assumes "wf_heap h" "haggle_attribute_new_weighted (Some nm) (Some vl) w h = (a, h')" "alist h al xs vs"
  shows "alist h' al xs vs"
proof -
  have "h_brk h \<notin> set (al # xs)" using alist_below [OF assms(1,3)] by blast
  with haggle_attribute_new_weighted_cases(4) [OF assms(1,2)] show ?thesis
  proof (elim disjE conjE)
    assume "same_objects h h'"
    then show ?thesis using alist_same_objects assms(3) by blast
  qed (auto intro!: alist_cong [OF assms(3)] simp: INIT_LIST_def)
qed

lemma same_outside_None: "same_outside A L L' \<Longrightarrow> (L' p = None) = (L p = None)"
  by (metis domIff same_outside_def)

text \<open>One attribute is created and appended.\<close>

lemma new_and_add:
  assumes "wf_heap h" "alist h al xs vs"
    "haggle_attribute_new_weighted (Some nm) (Some vl) w h = (a, h1)"
  shows "\<exists>n h2. haggle_attributelist_add_attribute al a h1 = Some (n, h2) \<and> wf_heap h2
    \<and> (h_mem h = [] \<longrightarrow> a \<noteq> NULL \<and> h_mem h2 = []) \<and> h_brk h \<le> h_brk h2
    \<and> (if a = NULL then n = 0 \<and> same_objects h h2
       else n = of_nat (length xs) + 1 \<and> a = h_brk h \<and> a < h_brk h2
        \<and> alist h2 al (xs @ [a]) (vs @ [\<lparr>attr_name = Some nm, attr_value = Some vl, attr_weight = w\<rparr>]))
    \<and> (\<forall>al' xs' vs'. alist h al' xs' vs' \<and> set (al' # xs') \<inter> set (al # xs) = {} \<longrightarrow> alist h2 al' xs' vs')"
proof -
  note N = haggle_attribute_new_weighted_cases [OF assms(1,3)]
  let ?v = "\<lparr>attr_name = Some nm, attr_value = Some vl, attr_weight = w\<rparr>"
  show ?thesis
  proof (cases "a = NULL")
    case True
    then have "same_objects h h1" using N(4) assms(1) by (auto simp: wf_heap_def)
    then show ?thesis
      using True N(1-3) alist_same_objects [of h h1] by (auto simp: haggle_attributelist_add_attribute_def)
  next
    case False
    then have a: "a = h_brk h" "a < h_brk h1" "h_links h1 = INIT_LIST a (h_links h)" "h_alists h1 = h_alists h"
      "h_attrs h1 = (h_attrs h)(a \<mapsto> ?v)"
      using N(4) by auto
    have al: "alist h1 al xs vs" by (rule attribute_new_alist [OF assms(1,3,2)])
    have "a \<noteq> al" using alist_below [OF assms(1,2), of al] a(1) by auto
    then obtain h2 where h2: "haggle_attributelist_add_attribute al a h1 = Some (of_nat (length xs) + 1, h2)"
      "alist h2 al (xs @ [a]) (vs @ [?v])" "h_attrs h2 = h_attrs h1" "\<forall>p. p \<noteq> al \<longrightarrow> h_alists h2 p = h_alists h1 p"
      "h_brk h2 = h_brk h1" "h_mem h2 = h_mem h1" "same_outside (insert a (set (al # xs))) (h_links h1) (h_links h2)"
      using add_attribute_alist [OF al, of a ?v] False a by (auto simp: list_unattached_def INIT_LIST_def)
    have alb: "al < h_brk h" "al \<noteq> NULL"
      using alist_below [OF assms(1,2), of al] alist_not_NULL [OF assms(2)] by simp_all
    have "wf_heap h2" using N(1) h2 a alb same_outside_None [OF h2(7)] by (auto simp: wf_heap_def)
    moreover have "alist h2 al' xs' vs'" if o: "alist h al' xs' vs'" "set (al' # xs') \<inter> set (al # xs) = {}" for al' xs' vs'
    proof (rule alist_cong [OF attribute_new_alist [OF assms(1,3) o(1)]])
      have "a \<notin> set (al' # xs')" using alist_below [OF assms(1) o(1)] a(1) by blast
      then show "h_links h2 p = h_links h1 p" if "p \<in> set (al' # xs')" for p
        using h2(7) o(2) that unfolding same_outside_def by (metis disjoint_iff insert_iff)
    qed (use h2 o in auto)
    ultimately show ?thesis using h2 a N(2,3) False by auto
  qed
qed

lemma copy_body_step:
  assumes "wf_heap h" "alist h al S V" "(x, v) \<in> set (zip S V)" "alist h alc ys us"
    "set (al # S) \<inter> set (alc # ys) = {}"
  shows "\<exists>r. copy_body alc x h = Some r \<and> (h_mem h = [] \<and> length ys + 1 < 2 ^ 64 \<longrightarrow> \<not> isl r)
    \<and> (case r of
         Inl (p, h') \<Rightarrow> p = NULL \<and> alist h' al S V
       | Inr h' \<Rightarrow> wf_heap h' \<and> alist h' al S V \<and> alist h' alc (ys @ [h_brk h]) (us @ [v])
           \<and> h_brk h < h_brk h' \<and> (h_mem h = [] \<longrightarrow> h_mem h' = []))"
proof -
  obtain nm vl w where v: "v = \<lparr>attr_name = Some nm, attr_value = Some vl, attr_weight = w\<rparr>" "h_attrs h x = Some v"
    using alist_attrs [OF assms(2,3)] by (cases v) auto
  obtain a h1 where ah: "haggle_attribute_new_weighted (Some nm) (Some vl) w h = (a, h1)" by fastforce
  have c: "haggle_attribute_copy x h = Some (a, h1)" using v ah by (simp add: haggle_attribute_copy_def)
  obtain n h2 where h2: "haggle_attributelist_add_attribute alc a h1 = Some (n, h2)" "wf_heap h2"
    "h_mem h = [] \<longrightarrow> a \<noteq> NULL \<and> h_mem h2 = []"
    "if a = NULL then n = 0 \<and> same_objects h h2
       else n = of_nat (length ys) + 1 \<and> a = h_brk h \<and> a < h_brk h2 \<and> alist h2 alc (ys @ [a]) (us @ [v])"
    "\<forall>al' xs' vs'. alist h al' xs' vs' \<and> set (al' # xs') \<inter> set (alc # ys) = {} \<longrightarrow> alist h2 al' xs' vs'"
    using new_and_add [OF assms(1,4) ah] v(1) by blast
  have src: "alist h2 al S V" using h2(5) assms(2,5) by blast
  have freed: "alist (free_alist alc h2) al S V"
    by (rule alist_cong [OF src]) (use assms(5) in \<open>auto simp: free_alist_def\<close>)
  have "(of_nat (length ys) + 1 :: u64) \<noteq> 0" if "length ys + 1 < 2 ^ 64"
    using that of_nat_inverse [of "length ys + 1" "of_nat (length ys) + 1 :: u64"] by auto
  then show ?thesis
    using c h2 src freed by (auto simp: copy_body_def split: if_splits)
qed

lemma copy_loop:
  assumes "wf_heap h" "alist h al S V" "set (zip xs vs) \<subseteq> set (zip S V)" "length vs = length xs"
    "alist h alc ys us" "set (al # S) \<inter> set (alc # ys) = {}"
  shows "\<exists>r. loop_over (copy_body alc) xs h = Some r \<and> (h_mem h = [] \<and> length ys + length xs < 2 ^ 64 \<longrightarrow> \<not> isl r)
    \<and> (case r of
         Inl (p, h') \<Rightarrow> p = NULL \<and> alist h' al S V
       | Inr h' \<Rightarrow> wf_heap h' \<and> alist h' al S V
           \<and> (\<exists>zs. alist h' alc (ys @ zs) (us @ vs) \<and> set (al # S) \<inter> set (alc # ys @ zs) = {}))"
  using assms
proof (induction xs vs arbitrary: h ys us rule: list_induct2')
  case 1
  then show ?case by (auto intro!: exI [of _ "[]"])
next
  case (4 x xs v vs)
  have xv: "(x, v) \<in> set (zip S V)" using "4.prems"(3) by auto
  obtain r where r: "copy_body alc x h = Some r" "h_mem h = [] \<and> length ys + 1 < 2 ^ 64 \<longrightarrow> \<not> isl r"
    "case r of
         Inl (p, h') \<Rightarrow> p = NULL \<and> alist h' al S V
       | Inr h' \<Rightarrow> wf_heap h' \<and> alist h' al S V \<and> alist h' alc (ys @ [h_brk h]) (us @ [v])
           \<and> h_brk h < h_brk h' \<and> (h_mem h = [] \<longrightarrow> h_mem h' = [])"
    using copy_body_step [OF "4.prems"(1,2) xv "4.prems"(5,6)] by blast
  show ?case
  proof (cases r)
    case (Inl q)
    then show ?thesis using r by auto
  next
    case (Inr h')
    then have h': "wf_heap h'" "alist h' al S V" "alist h' alc (ys @ [h_brk h]) (us @ [v])" "h_mem h = [] \<longrightarrow> h_mem h' = []"
      using r(3) by auto
    have "h_brk h \<notin> set (al # S)" using alist_below [OF "4.prems"(1,2)] by blast
    then have "set (al # S) \<inter> set (alc # ys @ [h_brk h]) = {}" using "4.prems"(6) by auto
    then obtain r' where r': "loop_over (copy_body alc) xs h' = Some r'"
      "h_mem h' = [] \<and> length (ys @ [h_brk h]) + length xs < 2 ^ 64 \<longrightarrow> \<not> isl r'"
      "case r' of
         Inl (p, h'') \<Rightarrow> p = NULL \<and> alist h'' al S V
       | Inr h'' \<Rightarrow> wf_heap h'' \<and> alist h'' al S V
           \<and> (\<exists>zs. alist h'' alc ((ys @ [h_brk h]) @ zs) ((us @ [v]) @ vs) \<and> set (al # S) \<inter> set (alc # (ys @ [h_brk h]) @ zs) = {})"
      using "4.IH" [OF h'(1,2) _ _ h'(3)] "4.prems"(3,4) by auto
    have "loop_over (copy_body alc) (x # xs) h = Some r'" using r(1) Inr r'(1) by simp
    moreover have "case r' of
         Inl (p, h'') \<Rightarrow> p = NULL \<and> alist h'' al S V
       | Inr h'' \<Rightarrow> wf_heap h'' \<and> alist h'' al S V
           \<and> (\<exists>zs. alist h'' alc (ys @ zs) (us @ v # vs) \<and> set (al # S) \<inter> set (alc # ys @ zs) = {})"
    proof (cases r')
      case (Inl q)
      then show ?thesis using r'(3) by simp
    next
      case (Inr h'')
      then obtain zs where "alist h'' alc ((ys @ [h_brk h]) @ zs) ((us @ [v]) @ vs)"
        "set (al # S) \<inter> set (alc # (ys @ [h_brk h]) @ zs) = {}" "wf_heap h''" "alist h'' al S V"
        using r'(3) by auto
      then show ?thesis using Inr by (auto intro!: exI [of _ "h_brk h # zs"])
    qed
    ultimately show ?thesis using r'(2) h'(4) by auto
  qed
qed auto

lemma copy_alist:
  assumes "wf_heap h" "alist h al xs vs"
  shows "\<exists>p h'. haggle_attributelist_copy al h = Some (p, h') \<and> alist h' al xs vs
    \<and> (h_mem h = [] \<and> length xs < 2 ^ 64 \<longrightarrow> p \<noteq> NULL)
    \<and> (p \<noteq> NULL \<longrightarrow> wf_heap h' \<and> (\<exists>ys. alist h' p ys vs \<and> set (al # xs) \<inter> set (p # ys) = {}))"
proof -
  obtain alc h1 where n: "haggle_attributelist_new h = (alc, h1)" by fastforce
  note N = haggle_attributelist_new_cases [OF assms(1) n]
  have al: "al \<noteq> NULL" "h_brk h \<notin> set (al # xs)"
    using alist_not_NULL [OF assms(2)] alist_below [OF assms(1,2)] by blast+
  show ?thesis
  proof (cases "alc = NULL")
    case True
    then have "same_objects h h1" using N(4) assms(1) by (auto simp: wf_heap_def)
    then have "alist h1 al xs vs" using alist_same_objects assms(2) by blast
    then show ?thesis using True N(3) al n by (auto simp: haggle_attributelist_copy_def)
  next
    case False
    then have c: "alc = h_brk h" "h_links h1 = INIT_LIST alc (h_links h)" "h_alists h1 = (h_alists h)(alc \<mapsto> 0)"
      "h_attrs h1 = h_attrs h"
      using N(4) by auto
    have src: "alist h1 al xs vs"
      by (rule alist_cong [OF assms(2)]) (use al(2) c in \<open>auto simp: INIT_LIST_def\<close>)
    have new: "alist h1 alc [] []" using c False ring_init [of alc "h_links h"] by (simp add: alist_def)
    have dj: "set (al # xs) \<inter> set [alc] = {}" using al(2) c(1) by auto
    let ?I = "\<lambda>s. wf_heap s \<and> alist s al xs vs \<and> (\<exists>ys us. alist s alc ys us \<and> set (al # xs) \<inter> set (alc # ys) = {})"
    have "list_for_each h_links (copy_body alc) al h1 = loop_over (copy_body alc) xs h1"
    proof (rule list_for_each_loop [of ?I])
      show "ring (h_links s) al xs" if "?I s" for s using that by (auto simp: alist_def)
      show "?I s'" if x: "x \<in> set xs" and inv: "?I s" and b: "copy_body alc x s = Some (Inr s')" for x s s'
      proof -
        obtain ys us where I: "wf_heap s" "alist s al xs vs" "alist s alc ys us" "set (al # xs) \<inter> set (alc # ys) = {}"
          using inv by blast
        obtain v where v: "(x, v) \<in> set (zip xs vs)"
          using x alist_length [OF I(2)] by (metis in_set_impl_in_set_zip1)
        have "h_brk s \<notin> set (al # xs)" using alist_below [OF I(1,2)] by blast
        then show ?thesis
          using copy_body_step [OF I(1,2) v I(3,4)] b I(4) by (auto intro!: exI [of _ "ys @ [h_brk s]"])
      qed
      show "?I h1" using N(1) src new dj by blast
    qed
    moreover obtain r where r: "loop_over (copy_body alc) xs h1 = Some r"
      "h_mem h1 = [] \<and> length xs < 2 ^ 64 \<longrightarrow> \<not> isl r"
      "case r of
         Inl (p, h') \<Rightarrow> p = NULL \<and> alist h' al xs vs
       | Inr h' \<Rightarrow> wf_heap h' \<and> alist h' al xs vs \<and> (\<exists>zs. alist h' alc zs vs \<and> set (al # xs) \<inter> set (alc # zs) = {})"
      using copy_loop [OF N(1) src subset_refl alist_length [OF src] new dj, unfolded append_Nil list.size add_0] by blast
    ultimately have "haggle_attributelist_copy al h = Some (case r of Inl res \<Rightarrow> res | Inr h \<Rightarrow> (alc, h))"
      using n False al(1) by (simp add: haggle_attributelist_copy_def)
    then show ?thesis using r(2,3) N(3) False by (auto split: sum.splits)
  qed
qed

section \<open>Releasing a list\<close>

lemma fold_free_attr:
  "h_links (fold free_attr xs h) = h_links h |` (- set xs)" "h_attrs (fold free_attr xs h) = h_attrs h |` (- set xs)"
  "h_alists (fold free_attr xs h) = h_alists h"
  by (induction xs arbitrary: h) (auto simp: free_attr_def restrict_map_def fun_eq_iff)

lemma loop_over_free:
  "distinct xs \<Longrightarrow> set xs \<subseteq> dom (h_attrs h)
   \<Longrightarrow> loop_over (\<lambda>pos h. map_option Inr (haggle_attribute_free pos h)) xs h = Some (Inr (fold free_attr xs h) :: unit + _)"
proof (induction xs arbitrary: h)
  case (Cons x xs)
  then have "set xs \<subseteq> dom (h_attrs (free_attr x h))" by (auto simp: free_attr_def)
  then show ?case using Cons by (auto simp: haggle_attribute_free_def)
qed simp

lemma free_alist_all:
  assumes "alist h al xs vs"
  shows "haggle_attributelist_free al h = Some (free_alist al (fold free_attr xs h))"
proof -
  let ?body = "\<lambda>pos h. map_option Inr (haggle_attribute_free pos h)"
  have "list_for_each_safe h_links ?body al h = (loop_over ?body xs h :: (unit + _) option)"
    by (rule list_for_each_safe_loop)
      (use assms in \<open>auto simp: alist_def haggle_attribute_free_def free_attr_def bind_eq_Some_conv\<close>)
  moreover have "distinct xs" "set xs \<subseteq> dom (h_attrs h)"
    using assms alist_attrs(1) [OF assms] alist_length [OF assms]
    by (auto simp: alist_def ring_def) (metis in_set_impl_in_set_zip1)
  ultimately show ?thesis
    using loop_over_free [of xs h] alist_not_NULL [OF assms] by (simp add: haggle_attributelist_free_def)
qed

section \<open>Parsing\<close>

definition pair_text :: "string \<times> string \<Rightarrow> string" where
  "pair_text p = fst p @ CHR ''='' # snd p"

fun pairs_text :: "(string \<times> string) list \<Rightarrow> string" where
  "pairs_text [] = []"
| "pairs_text [p] = pair_text p"
| "pairs_text (p # ps) = pair_text p @ CHR '','' # pairs_text ps"

text \<open>The pairs at the beginning of a longer text.\<close>

definition pairs_prefix :: "(string \<times> string) list \<Rightarrow> string" where
  "pairs_prefix ps = concat (map (\<lambda>p. pair_text p @ '','') ps)"

definition plain :: "string \<Rightarrow> bool" where
  "plain s \<longleftrightarrow> s \<noteq> [] \<and> CHR '','' \<notin> set s \<and> CHR ''='' \<notin> set s"

definition plain_attr :: "string \<times> string \<Rightarrow> attribute" where
  "plain_attr p = \<lparr>attr_name = Some (fst p), attr_value = Some (snd p), attr_weight = 1\<rparr>"

lemma strtok_r_token:
  assumes "tok \<noteq> []" "d \<notin> set tok"
  shows "strtok_r d (tok @ d # rest) = Some (tok, rest)" "strtok_r d tok = Some (tok, [])"
proof -
  have "dropWhile (\<lambda>c. c = d) (tok @ r) = tok @ r" for r using assms by (cases tok) auto
  moreover from this [of "[]"] have "dropWhile (\<lambda>c. c = d) tok = tok" by simp
  moreover have "takeWhile (\<lambda>c. c \<noteq> d) (tok @ d # rest) = tok" "dropWhile (\<lambda>c. c \<noteq> d) (tok @ d # rest) = d # rest"
    "takeWhile (\<lambda>c. c \<noteq> d) tok = tok" "dropWhile (\<lambda>c. c \<noteq> d) tok = []"
    using assms by (auto simp: takeWhile_append dropWhile_append)
  ultimately show "strtok_r d (tok @ d # rest) = Some (tok, rest)" "strtok_r d tok = Some (tok, [])"
    using assms by (simp_all add: strtok_r_def Let_def del: dropWhile_eq_Nil_conv)
qed

lemma name_value_pair: "plain nm \<Longrightarrow> plain vl \<Longrightarrow> name_value (pair_text (nm, vl)) = Some (nm, vl)"
  by (simp add: name_value_def pair_text_def plain_def strtok_r_token)

lemma parse_pairs_step:
  assumes "wf_heap h" "h_mem h = []" "alist h al xs vs" "plain nm" "plain vl"
    "strtok_r (CHR '','') s = Some (pair_text (nm, vl), rest)"
  shows "\<exists>h2. parse_pairs al s n h = parse_pairs al rest (n + 1) h2 \<and> wf_heap h2 \<and> h_mem h2 = []
    \<and> alist h2 al (xs @ [h_brk h]) (vs @ [plain_attr (nm, vl)])"
proof -
  obtain a h1 where ah: "haggle_attribute_new_weighted (Some nm) (Some vl) 1 h = (a, h1)" by fastforce
  obtain m h2 where h2: "haggle_attributelist_add_attribute al a h1 = Some (m, h2)" "wf_heap h2" "a \<noteq> NULL" "h_mem h2 = []"
    "alist h2 al (xs @ [h_brk h]) (vs @ [plain_attr (nm, vl)])"
    using new_and_add [OF assms(1,3) ah] assms(2) by (auto simp: plain_attr_def)
  then show ?thesis
    using assms(6) name_value_pair [OF assms(4,5)] ah
    by (subst parse_pairs.simps) (auto simp: haggle_attribute_new_def)
qed

lemma parse_pairs_prefix:
  assumes "wf_heap h" "h_mem h = []" "alist h al xs vs" "\<forall>(nm, vl) \<in> set ps. plain nm \<and> plain vl"
  shows "\<exists>h' ys. parse_pairs al (pairs_prefix ps @ s) n h = parse_pairs al s (n + length ps) h' \<and> alist h' al (xs @ ys) (vs @ map plain_attr ps)"
  using assms
proof (induction ps arbitrary: h xs vs n)
  case Nil
  then show ?case by (auto simp: pairs_prefix_def intro!: exI [of _ "[]"])
next
  case (Cons p ps)
  obtain nm vl where p: "p = (nm, vl)" by fastforce
  then have pl: "plain nm" "plain vl" using Cons.prems(4) by auto
  have "strtok_r (CHR '','') (pairs_prefix (p # ps) @ s) = Some (pair_text (nm, vl), pairs_prefix ps @ s)"
    using pl strtok_r_token(1) [of "pair_text (nm, vl)" "CHR '',''"] by (simp add: p pairs_prefix_def pair_text_def plain_def)
  from parse_pairs_step [OF Cons.prems(1-3) pl this, of n]
  obtain h2 where h2: "parse_pairs al (pairs_prefix (p # ps) @ s) n h = parse_pairs al (pairs_prefix ps @ s) (n + 1) h2"
    "wf_heap h2" "h_mem h2 = []" "alist h2 al (xs @ [h_brk h]) (vs @ [plain_attr p])" unfolding p by blast
  obtain h' ys where "parse_pairs al (pairs_prefix ps @ s) (n + 1) h2 = parse_pairs al s (n + 1 + length ps) h'"
    "alist h' al ((xs @ [h_brk h]) @ ys) ((vs @ [plain_attr p]) @ map plain_attr ps)"
    using Cons.IH [OF h2(2-4), of "n + 1"] Cons.prems(4) by auto
  then show ?case using h2(1) by (auto intro!: exI [of _ "h_brk h # ys"])
qed

lemma parse_pairs_text:
  assumes "wf_heap h" "h_mem h = []" "alist h al xs vs" "\<forall>(nm, vl) \<in> set ps. plain nm \<and> plain vl"
  shows "\<exists>h' ys. parse_pairs al (pairs_text ps) n h = Some (Inr (n + length ps, h')) \<and> wf_heap h'
    \<and> alist h' al (xs @ ys) (vs @ map plain_attr ps)"
  using assms
proof (induction ps arbitrary: h xs vs n rule: pairs_text.induct)
  case 1
  then show ?case by (subst parse_pairs.simps) (auto simp: strtok_r_def intro!: exI [of _ "[]"])
next
  case (2 p)
  obtain nm vl where p: "p = (nm, vl)" by fastforce
  then have pl: "plain nm" "plain vl" using "2.prems"(4) by auto
  have "strtok_r (CHR '','') (pairs_text [p]) = Some (pair_text (nm, vl), [])"
    using pl by (simp add: p strtok_r_token pair_text_def plain_def)
  from parse_pairs_step [OF "2.prems"(1-3) pl this, of n]
  obtain h2 where h2: "parse_pairs al (pairs_text [p]) n h = parse_pairs al [] (n + 1) h2" "wf_heap h2"
    "alist h2 al (xs @ [h_brk h]) (vs @ [plain_attr p])" unfolding p by blast
  have "parse_pairs al [] (n + 1) h2 = Some (Inr (n + 1, h2))" by (subst parse_pairs.simps) (simp add: strtok_r_def)
  then show ?case using h2 by auto
next
  case (3 p q ps)
  obtain nm vl where p: "p = (nm, vl)" by fastforce
  then have pl: "plain nm" "plain vl" using "3.prems"(4) by auto
  have "strtok_r (CHR '','') (pairs_text (p # q # ps)) = Some (pair_text (nm, vl), pairs_text (q # ps))"
    using pl strtok_r_token(1) [of "pair_text (nm, vl)" "CHR '',''"] by (simp add: p pair_text_def plain_def)
  from parse_pairs_step [OF "3.prems"(1-3) pl this, of n]
  obtain h2 where h2: "parse_pairs al (pairs_text (p # q # ps)) n h = parse_pairs al (pairs_text (q # ps)) (n + 1) h2"
    "wf_heap h2" "h_mem h2 = []" "alist h2 al (xs @ [h_brk h]) (vs @ [plain_attr p])" unfolding p by blast
  obtain h' ys where "parse_pairs al (pairs_text (q # ps)) (n + 1) h2 = Some (Inr (n + 1 + length (q # ps), h'))"
    "wf_heap h'" "alist h' al ((xs @ [h_brk h]) @ ys) ((vs @ [plain_attr p]) @ map plain_attr (q # ps))"
    using "3.IH" [OF h2(2,3,4), of "n + 1"] "3.prems"(4) by auto
  then show ?case using h2(1) by (auto intro!: exI [of _ "h_brk h # ys"])
qed


section \<open>Properties\<close>

text \<open>
  Adding an attribute appends it: for an attribute that is in no list, the call returns the new number
  of attributes, the list holds the old attributes and then the new one, and every list that shares no
  element with it is unchanged.
\<close>

theorem add_attribute_appends:
  assumes "alist h al xs vs" "h_attrs h a = Some v" "attr_name v \<noteq> None" "attr_value v \<noteq> None"
    "list_unattached a (h_links h) = Some True" "a \<noteq> al" "a \<noteq> NULL"
  shows "\<exists>h'. haggle_attributelist_add_attribute al a h = Some (of_nat (length xs + 1), h')
    \<and> alist h' al (xs @ [a]) (vs @ [v])
    \<and> (\<forall>al' xs' vs'. alist h al' xs' vs' \<and> a \<notin> set (al' # xs') \<and> set (al' # xs') \<inter> set (al # xs) = {}
         \<longrightarrow> alist h' al' xs' vs')"
proof -
  obtain h' where h': "haggle_attributelist_add_attribute al a h = Some (of_nat (length xs) + 1, h')"
    "alist h' al (xs @ [a]) (vs @ [v])" "h_attrs h' = h_attrs h" "\<forall>p. p \<noteq> al \<longrightarrow> h_alists h' p = h_alists h p"
    "same_outside (insert a (set (al # xs))) (h_links h) (h_links h')"
    using add_attribute_alist [OF assms] by blast
  have "alist h' al' xs' vs'"
    if o: "alist h al' xs' vs'" "a \<notin> set (al' # xs')" "set (al' # xs') \<inter> set (al # xs) = {}" for al' xs' vs'
  proof (rule alist_cong [OF o(1)])
    show "h_links h' p = h_links h p" if "p \<in> set (al' # xs')" for p
      using h'(5) o(2,3) that unfolding same_outside_def by (metis disjoint_iff insert_iff)
  qed (use h' o in auto)
  then show ?thesis using h' by (auto simp: add.commute)
qed

text \<open>A list with the two attributes \<open>a=1\<close> and \<open>b=2\<close>, and one attribute that is in no list.\<close>

definition sample_heap :: aheap where
  "sample_heap =
     (let (a1, h) = haggle_attribute_new (Some ''a'') (Some ''1'')
                      \<lparr>h_links = Map.empty, h_brk = 1, h_mem = [], h_attrs = Map.empty, h_alists = Map.empty\<rparr>;
          (a2, h) = haggle_attribute_new (Some ''b'') (Some ''2'') h;
          (a3, h) = haggle_attribute_new (Some ''c'') (Some ''3'') h;
          (al, h) = haggle_attributelist_new h;
          (_, h) = the (haggle_attributelist_add_attribute al a1 h);
          (_, h) = the (haggle_attributelist_add_attribute al a2 h) in h)"

lemma sample_alist:
  "alist sample_heap 13 [1, 5] [plain_attr (''a'', ''1''), plain_attr (''b'', ''2'')]"
  "h_attrs sample_heap 9 = Some (plain_attr (''c'', ''3''))"
  "list_unattached 9 (h_links sample_heap) = Some True"
  "wf_heap sample_heap" "h_mem sample_heap = []" "h_links sample_heap 13 = Some \<lparr>l_prev = 5, l_next = 1\<rparr>"
  by (simp_all add: sample_heap_def alist_def wf_heap_def plain_attr_def ring_def linked_def list_unattached_def
      haggle_attribute_new_def haggle_attribute_new_weighted_def haggle_attributelist_new_def malloc_def
      malloc_ok_def INIT_LIST_def haggle_attributelist_add_attribute_def list_add_tail_def listelm_add_def
      set_next_def set_prev_def Let_def)

theorem add_attribute_appends_witness:
  "\<exists>h'. haggle_attributelist_add_attribute 13 9 sample_heap = Some (3, h')"
  using add_attribute_appends [OF sample_alist(1,2) _ _ sample_alist(3)] by (auto simp: plain_attr_def)

text \<open>
  The four lookup functions search the list in order: the first attribute with the name, the first with
  the name and the value, the attribute at a position, and the \<open>n\<close>-th attribute with the name; they
  return \<open>NULL\<close> when there is none.
\<close>

theorem attribute_lookups:
  assumes "alist h al xs vs" "length xs < 2 ^ 64"
  shows "haggle_attributelist_get_attribute_by_name al (Some nm) h
      = Some (first_match (\<lambda>v. attr_name v = Some nm) xs vs)
    \<and> haggle_attributelist_get_attribute_by_name_value al (Some nm) (Some vl) h
      = Some (first_match (\<lambda>v. attr_name v = Some nm \<and> attr_value v = Some vl) xs vs)
    \<and> haggle_attributelist_get_attribute_n al k h = Some (if unat k < length xs then xs ! unat k else NULL)
    \<and> haggle_attributelist_get_attribute_by_name_n al (Some nm) n h
      = Some (nth_match (\<lambda>v. attr_name v = Some nm) n xs vs)"
  using get_attribute_by_name_alist [OF assms(1)] get_attribute_by_name_value_alist [OF assms(1)]
    get_attribute_n_alist [OF assms] get_attribute_by_name_n_alist [OF assms(1)] by simp

theorem attribute_lookups_witness:
  "haggle_attributelist_get_attribute_by_name 13 (Some ''b'') sample_heap = Some 5
   \<and> haggle_attributelist_get_attribute_n 13 9 sample_heap = Some NULL"
  using attribute_lookups [OF sample_alist(1), where nm = "''b''" and k = 9]
  by (simp add: first_match_def plain_attr_def)

text \<open>
  Removing an attribute by name and value takes the first match out of the list and returns it, keeps
  the other attributes in their order and the count right; with no match the memory is unchanged.
\<close>

theorem remove_attribute_removes:
  fixes nm vl :: string
  assumes "alist h al xs vs"
  defines "a \<equiv> first_match (\<lambda>v. attr_name v = Some nm \<and> attr_value v = Some vl) xs vs"
  shows "if a = NULL then haggle_attributelist_remove_attribute al (Some nm) (Some vl) h = Some (NULL, h)
    else \<exists>h' i. i < length xs \<and> xs ! i = a
      \<and> haggle_attributelist_remove_attribute al (Some nm) (Some vl) h = Some (a, h')
      \<and> alist h' al (take i xs @ drop (Suc i) xs) (take i vs @ drop (Suc i) vs)"
proof (cases "a = NULL")
  case True
  then show ?thesis
    using get_attribute_by_name_value_alist [OF assms(1)] alist_not_NULL [OF assms(1)]
    by (simp add: haggle_attributelist_remove_attribute_def a_def)
next
  case False
  then have "a \<in> set xs" using first_match_in unfolding a_def by blast
  then obtain i where i: "i < length xs" "xs ! i = a" by (auto simp: in_set_conv_nth)
  have split: "xs = take i xs @ a # drop (Suc i) xs" "vs = take i vs @ vs ! i # drop (Suc i) vs"
    using i alist_length [OF assms(1)] id_take_nth_drop [of i xs] id_take_nth_drop [of i vs] by simp_all
  have len: "length (take i vs) = length (take i xs)" using alist_length [OF assms(1)] by simp
  obtain h' where "detach_and_count al a h = Some h'" "alist h' al (take i xs @ drop (Suc i) xs) (take i vs @ drop (Suc i) vs)"
    using detach_and_count_alist [of h al "take i xs" a "drop (Suc i) xs" "take i vs" "vs ! i" "drop (Suc i) vs", OF _ len]
      assms(1) split by auto
  moreover have "haggle_attributelist_get_attribute_by_name_value al (Some nm) (Some vl) h = Some a"
    using get_attribute_by_name_value_alist [OF assms(1)] by (simp add: a_def)
  ultimately show ?thesis
    using False i alist_not_NULL [OF assms(1)] by (auto simp: haggle_attributelist_remove_attribute_def)
qed

theorem remove_attribute_removes_witness:
  "\<exists>h'. haggle_attributelist_remove_attribute 13 (Some ''a'') (Some ''1'') sample_heap = Some (1, h')
     \<and> alist h' 13 [5] [plain_attr (''b'', ''2'')]"
  using remove_attribute_removes [OF sample_alist(1), where nm = "''a''" and vl = "''1''"]
  by (auto simp: first_match_def plain_attr_def less_Suc_eq)

text \<open>
  An attribute taken out of a list can never be added to a list again: \<open>list_detach\<close> leaves its
  pointers \<open>NULL\<close> while \<open>list_unattached\<close> asks for pointers to itself, so adding it returns 0.
\<close>

theorem removed_attribute_not_readded:
  assumes "alist h al xs vs" "haggle_attributelist_remove_attribute al (Some nm) (Some vl) h = Some (a, h')"
    "a \<noteq> NULL"
  shows "haggle_attributelist_add_attribute al' a h' = Some (0, h')"
proof -
  have found: "haggle_attributelist_get_attribute_by_name_value al (Some nm) (Some vl) h = Some a"
    and d: "detach_and_count al a h = Some h'"
    using assms(2,3) by (auto simp: haggle_attributelist_remove_attribute_def bind_eq_Some_conv split: if_splits)
  have "a = first_match (\<lambda>v. attr_name v = Some nm \<and> attr_value v = Some vl) xs vs"
    using found get_attribute_by_name_value_alist [OF assms(1)] by simp
  then have "a \<in> set xs" using assms(3) first_match_in by blast
  then obtain us ws where xs: "xs = us @ a # ws" by (meson split_list)
  then have "ring (h_links h) al (us @ a # ws)" using assms(1) by (simp add: alist_def)
  then have "h_links h' a = Some \<lparr>l_prev = NULL, l_next = NULL\<rparr>"
    using d list_detach_ring by (fastforce simp: detach_and_count_def bind_eq_Some_conv)
  then show ?thesis
    using assms(3) by (simp add: haggle_attributelist_add_attribute_def list_unattached_def)
qed

theorem removed_attribute_not_readded_witness:
  "\<exists>h'. haggle_attributelist_remove_attribute 13 (Some ''a'') (Some ''1'') sample_heap = Some (1, h')
     \<and> haggle_attributelist_add_attribute 13 1 h' = Some (0, h')"
proof -
  have "haggle_attributelist_get_attribute_by_name_value 13 (Some ''a'') (Some ''1'') sample_heap = Some 1"
    using get_attribute_by_name_value_alist [OF sample_alist(1)] by (simp add: first_match_def plain_attr_def)
  moreover have "\<exists>h'. detach_and_count 13 1 sample_heap = Some h'"
    using detach_and_count_alist [of sample_heap 13 "[]" 1 "[5]" "[]"
      "plain_attr (''a'', ''1'')" "[plain_attr (''b'', ''2'')]"] sample_alist(1) by auto
  ultimately obtain h' where "haggle_attributelist_remove_attribute 13 (Some ''a'') (Some ''1'') sample_heap = Some (1, h')"
    by (auto simp: haggle_attributelist_remove_attribute_def)
  then show ?thesis using removed_attribute_not_readded [OF sample_alist(1), of "''a''" "''1''" 1 h' 13] by auto
qed

text \<open>
  \<open>haggle_attributelist_pop\<close> takes the first attribute out of a non-empty list; on an empty list it
  returns the list itself as an attribute, sets the pointers of the head to \<open>NULL\<close> and wraps the
  count around to 2^64 - 1, and every later walk through the list is undefined.
\<close>

theorem attributelist_pop_cases:
  assumes "wf_heap h" "alist h al xs vs"
  shows "case xs of
      x # xs' \<Rightarrow> \<exists>h'. haggle_attributelist_pop al h = Some (x, h') \<and> alist h' al xs' (tl vs)
    | [] \<Rightarrow> \<exists>h'. haggle_attributelist_pop al h = Some (al, h') \<and> haggle_attributelist_size al h' = Some (- 1)
        \<and> haggle_attributelist_get_attribute_by_name al (Some nm) h' = None"
proof (cases xs)
  case Nil
  then have r: "linked (h_links h) al al" "al \<noteq> NULL" "h_alists h al = Some 0"
    using assms by (auto simp: alist_def ring_def)
  then obtain h' where h': "haggle_attributelist_pop al h = Some (al, h')" "haggle_attributelist_size al h' = Some (- 1)"
    "h_links h' al = Some \<lparr>l_prev = NULL, l_next = NULL\<rparr>" "h_attrs h' = h_attrs h"
    by (auto simp: haggle_attributelist_pop_def haggle_attributelist_size_def list_first_def linked_def list_detach_def
        listelm_detach_def set_next_def set_prev_def)
  have "h_attrs h NULL = None" using assms(1) by (simp add: wf_heap_def)
  then show ?thesis
    using h' r(2) Nil by (auto simp: haggle_attributelist_get_attribute_by_name_def list_for_each_def
        for_each_from.simps [of _ _ _ NULL] name_is_def)
next
  case (Cons x xs')
  then obtain v vs' where v: "vs = v # vs'" using alist_length [OF assms(2)] by (cases vs) auto
  have "list_first al (h_links h) = Some x" "x \<noteq> NULL" "al \<noteq> NULL"
    using assms Cons by (auto simp: alist_def ring_def linked_def list_first_def)
  moreover obtain h' where "detach_and_count al x h = Some h'" "alist h' al xs' vs'"
    using detach_and_count_alist [of h al "[]" x xs' "[]" v vs'] assms Cons v by auto
  ultimately show ?thesis
    using Cons v by (auto simp: haggle_attributelist_pop_def detach_and_count_def bind_eq_Some_conv)
qed

theorem attributelist_pop_cases_witness:
  "\<exists>h'. haggle_attributelist_pop 13 sample_heap = Some (1, h') \<and> alist h' 13 [5] [plain_attr (''b'', ''2'')]"
  using attributelist_pop_cases [OF sample_alist(4,1)] by simp

text \<open>
  C20: Copying a list: the copy, unless an allocation failed, is a new list with equal attributes in the
  same order that shares no element with the original, and the original is unchanged in every
  case; without allocation failures the copy is made.
\<close>

theorem attributelist_copy_independent:
  assumes "wf_heap h" "alist h al xs vs"
  shows "\<exists>p h'. haggle_attributelist_copy al h = Some (p, h') \<and> alist h' al xs vs
    \<and> (h_mem h = [] \<and> length xs < 2 ^ 64 \<longrightarrow> p \<noteq> NULL)
    \<and> (p \<noteq> NULL \<longrightarrow> wf_heap h' \<and> (\<exists>ys. alist h' p ys vs \<and> set (al # xs) \<inter> set (p # ys) = {}))"
  by (rule copy_alist [OF assms])

theorem attributelist_copy_independent_witness:
  "\<exists>p h' ys. haggle_attributelist_copy 13 sample_heap = Some (p, h') \<and> p \<noteq> NULL
     \<and> alist h' p ys [plain_attr (''a'', ''1''), plain_attr (''b'', ''2'')]"
  using attributelist_copy_independent [OF sample_alist(4,1)] by (auto simp: sample_alist(5))

text \<open>
  \<open>haggle_attributelist_free\<close> releases the list and each of its attributes, every one exactly once and
  nothing else.
\<close>

theorem attributelist_free_releases:
  assumes "alist h al xs vs"
  shows "\<exists>h'. haggle_attributelist_free al h = Some h'
    \<and> h_links h' = h_links h |` (- set (al # xs)) \<and> h_attrs h' = h_attrs h |` (- set xs)
    \<and> h_alists h' = h_alists h |` (- {al})"
  using free_alist_all [OF assms]
  by (auto simp: free_alist_def fold_free_attr restrict_map_def fun_eq_iff)

theorem attributelist_free_releases_witness:
  "\<exists>h'. haggle_attributelist_free 13 sample_heap = Some h' \<and> h_attrs h' 1 = None \<and> h_attrs h' 9 \<noteq> None"
  using attributelist_free_releases [OF sample_alist(1)] sample_alist(2) by auto

text \<open>
  C32: The loop of \<open>haggle_attributelist_new_from_string\<close> over the working copy of the string: for the text of a list of pairs, names and values not
  empty and without commas and equals signs, it appends exactly these attributes, with weight 1; at a pair without a name or a value it
  releases the list with all its attributes.  The function as a whole never reaches the loop: the block for the copy has
  \<open>strlen(str)\<close> bytes, so copying the terminator into it is undefined for every string.
\<close>

theorem attributelist_from_string:
  assumes "wf_heap h" "h_mem h = []" "alist h al xs vs" "\<forall>(nm, vl) \<in> set ps. plain nm \<and> plain vl"
    and "bad \<noteq> []" "CHR '','' \<notin> set bad" "name_value bad = None" "rest = [] \<or> hd rest = CHR '',''"
  shows "(\<exists>h' ys. parse_pairs al (pairs_text ps) 0 h = Some (Inr (length ps, h')) \<and> alist h' al (xs @ ys) (vs @ map plain_attr ps))
    \<and> (\<exists>h1 ys h'. parse_pairs al (pairs_prefix ps @ bad @ rest) 0 h = Some (Inl h') \<and> alist h1 al (xs @ ys) (vs @ map plain_attr ps)
        \<and> haggle_attributelist_free al h1 = Some h' \<and> h_alists h' al = None \<and> (\<forall>x \<in> set (xs @ ys). h_attrs h' x = None))
    \<and> haggle_attributelist_new_from_string str h = None"
proof (intro conjI)
  show "\<exists>h' ys. parse_pairs al (pairs_text ps) 0 h = Some (Inr (length ps, h')) \<and> alist h' al (xs @ ys) (vs @ map plain_attr ps)"
    using parse_pairs_text [OF assms(1-4), of 0] by auto
  obtain h1 ys where h1: "parse_pairs al (pairs_prefix ps @ bad @ rest) 0 h = parse_pairs al (bad @ rest) (length ps) h1"
    "alist h1 al (xs @ ys) (vs @ map plain_attr ps)"
    using parse_pairs_prefix [OF assms(1-4), of "bad @ rest" 0] by auto
  define h' where "h' = free_alist al (fold free_attr (xs @ ys) h1)"
  have f: "haggle_attributelist_free al h1 = Some h'" unfolding h'_def by (rule free_alist_all [OF h1(2)])
  have "strtok_r (CHR '','') (bad @ rest) = Some (bad, drop 1 rest)"
    using assms(8) strtok_r_token [OF assms(5,6)] by (cases rest) auto
  then have "parse_pairs al (bad @ rest) (length ps) h1 = Some (Inl h')"
    using assms(7) f by (subst parse_pairs.simps) simp
  moreover have "h_alists h' al = None \<and> (\<forall>x \<in> set (xs @ ys). h_attrs h' x = None)"
    by (auto simp: h'_def free_alist_def fold_free_attr restrict_map_def)
  ultimately show "\<exists>h1 ys h'. parse_pairs al (pairs_prefix ps @ bad @ rest) 0 h = Some (Inl h') \<and> alist h1 al (xs @ ys) (vs @ map plain_attr ps)
      \<and> haggle_attributelist_free al h1 = Some h' \<and> h_alists h' al = None \<and> (\<forall>x \<in> set (xs @ ys). h_attrs h' x = None)"
    using h1 f by metis
  obtain al h1 where n: "haggle_attributelist_new h = (al, h1)" by fastforce
  then have "al \<noteq> NULL" using haggle_attributelist_new_cases(3) [OF assms(1) n] assms(2) by auto
  then show "haggle_attributelist_new_from_string str h = None"
    using assms(2) n by (simp add: haggle_attributelist_new_from_string_def malloc_ok_def strcpy_def)
qed

theorem attributelist_from_string_witness:
  "(\<exists>h' ys. parse_pairs 13 ''a=1,b=2'' 0 sample_heap = Some (Inr (2, h'))
      \<and> alist h' 13 (1 # 5 # ys) (map plain_attr [(''a'', ''1''), (''b'', ''2''), (''a'', ''1''), (''b'', ''2'')]))
   \<and> (\<exists>h'. parse_pairs 13 ''a=1,b=2,c,d=4'' 0 sample_heap = Some (Inl h') \<and> h_alists h' 13 = None)
   \<and> haggle_attributelist_new_from_string ''a=1,b=2'' sample_heap = None"
proof -
  have "name_value ''c'' = None" by code_simp
  then show ?thesis
    using attributelist_from_string [OF sample_alist(4,5,1), of "[(''a'', ''1''), (''b'', ''2'')]" "''c''" "'',d=4''" "''a=1,b=2''"]
    by (simp add: plain_def pair_text_def pairs_prefix_def numeral_2_eq_2) blast
qed

end
