(* ===== verification/Metadata.thy ===== *)
theory Metadata
  imports Attribute
begin

text \<open>
  The metadata trees of \<open>src/src/libhaggle/metadata.c\<close> over the memory of \<open>CList\<close> and \<open>Attribute\<close>.  The
  list element of a metadata node is its first member and has the address of the node; the head of
  its list of children is at the address after it.  The member \<open>num_children\<close> is never used.
\<close>

section \<open>Nodes\<close>

record metadata =
  it_name :: "string option"
  it_head :: ptr
  it_tmp :: ptr
  it_pos :: ptr
  md_parent :: ptr
  md_name :: "string option"
  md_content :: "string option"
  md_parameters :: ptr

record mheap = aheap +
  h_mds :: "ptr \<rightharpoonup> metadata"

abbreviation children :: "ptr \<Rightarrow> ptr" where "children m \<equiv> m + 1"

definition set_md :: "ptr \<Rightarrow> metadata \<Rightarrow> 'z mheap_scheme \<Rightarrow> 'z mheap_scheme" where
  "set_md m md h = h\<lparr>h_mds := (h_mds h)(m \<mapsto> md)\<rparr>"

definition free_md :: "ptr \<Rightarrow> 'z mheap_scheme \<Rightarrow> 'z mheap_scheme" where
  "free_md m h = h\<lparr>h_links := (h_links h)(m := None, children m := None), h_mds := (h_mds h)(m := None)\<rparr>"

definition metadata_name_is :: "ptr \<Rightarrow> string \<Rightarrow> 'z mheap_scheme \<Rightarrow> int option" where
  "metadata_name_is m name h =
     (if m = NULL then Some (-1)
      else do { md \<leftarrow> h_mds h m; Some (if md_name md = Some name then 1 else 0) })"

definition metadata_get_name :: "ptr \<Rightarrow> 'z mheap_scheme \<Rightarrow> string option option" where
  "metadata_get_name m h = (if m = NULL then Some None else map_option md_name (h_mds h m))"

definition metadata_get_content :: "ptr \<Rightarrow> 'z mheap_scheme \<Rightarrow> string option option" where
  "metadata_get_content m h = (if m = NULL then Some None else map_option md_content (h_mds h m))"

definition metadata_set_name ::
    "ptr \<Rightarrow> string option \<Rightarrow> 'z mheap_scheme \<Rightarrow> (string option \<times> 'z mheap_scheme) option" where
  "metadata_set_name m name h =
     (if m = NULL \<or> name = None then Some (None, h)
      else
        let (ok, h) = malloc_ok h in
        if \<not> ok then Some (None, h)
        else do { md \<leftarrow> h_mds h m; Some (name, set_md m (md\<lparr>md_name := name\<rparr>) h) })"

definition metadata_set_content ::
    "ptr \<Rightarrow> string option \<Rightarrow> 'z mheap_scheme \<Rightarrow> (string option \<times> 'z mheap_scheme) option" where
  "metadata_set_content m content h =
     (if m = NULL \<or> content = None then Some (None, h)
      else
        let (ok, h) = malloc_ok h in
        if \<not> ok then Some (None, h)
        else do { md \<leftarrow> h_mds h m; Some (content, set_md m (md\<lparr>md_content := content\<rparr>) h) })"

section \<open>The tree\<close>

definition metadata_detach :: "ptr \<Rightarrow> 'z mheap_scheme \<Rightarrow> (int \<times> 'z mheap_scheme) option" where
  "metadata_detach child h =
     (if child = NULL then Some (HAGGLE_ERROR, h)
      else
        do {
          (_, L) \<leftarrow> list_detach child (h_links h);
          md \<leftarrow> h_mds h child;
          Some (HAGGLE_NO_ERROR, set_md child (md\<lparr>md_parent := NULL\<rparr>) (h\<lparr>h_links := L\<rparr>))
        })"

definition metadata_add :: "ptr \<Rightarrow> ptr \<Rightarrow> 'z mheap_scheme \<Rightarrow> (int \<times> 'z mheap_scheme) option" where
  "metadata_add parent child h =
     (if parent = NULL \<or> child = NULL then Some (HAGGLE_ERROR, h)
      else
        do {
          (_, h) \<leftarrow> metadata_detach child h;
          md \<leftarrow> h_mds h child;
          let h = set_md child (md\<lparr>md_parent := parent\<rparr>) h in
          do {
            (_, L) \<leftarrow> list_add_tail child (children parent) (h_links h);
            Some (HAGGLE_NO_ERROR, h\<lparr>h_links := L\<rparr>)
          }
        })"

text \<open>
  \<open>metadata_new\<close>: the results of setting the name and the content are ignored.  The structure is cleared
  after its allocation.
\<close>

definition metadata_new ::
    "string option \<Rightarrow> string option \<Rightarrow> ptr \<Rightarrow> 'z mheap_scheme \<Rightarrow> (ptr \<times> 'z mheap_scheme) option" where
  "metadata_new name content parent h =
     (let (m, h) = malloc h in
      if m = NULL then Some (NULL, h)
      else
        let h = set_md m \<lparr>it_name = None, it_head = NULL, it_tmp = NULL, it_pos = NULL, md_parent = NULL,
                   md_name = None, md_content = None, md_parameters = NULL\<rparr>
                  (h\<lparr>h_links := INIT_LIST (children m) (INIT_LIST m (h_links h))\<rparr>);
            (al, h) = haggle_attributelist_new h in
        if al = NULL then Some (NULL, free_md m h)
        else
          do {
            md \<leftarrow> h_mds h m;
            (_, h) \<leftarrow> metadata_set_name m name (set_md m (md\<lparr>md_parameters := al\<rparr>) h);
            (_, h) \<leftarrow> metadata_set_content m content h;
            if parent \<noteq> NULL
            then do { (_, h) \<leftarrow> metadata_add parent m h; Some (m, h) }
            else do { md \<leftarrow> h_mds h m; Some (m, set_md m (md\<lparr>md_parent := m\<rparr>) h) }
          })"

text \<open>
  \<open>metadata_free\<close>: the recursion through the children.  The argument \<open>Inl m\<close> is a call for the node \<open>m\<close>, the
  argument \<open>Inr m\<close> is the loop over the children of \<open>m\<close>.
\<close>

partial_function (option) metadata_free_rec :: "ptr + ptr \<Rightarrow> 'z mheap_scheme \<Rightarrow> 'z mheap_scheme option" where
  "metadata_free_rec arg h =
     (case arg of
        Inl m \<Rightarrow>
          do {
            (_, h) \<leftarrow> metadata_detach m h;
            h \<leftarrow> metadata_free_rec (Inr m) h;
            md \<leftarrow> h_mds h m;
            h \<leftarrow> haggle_attributelist_free (md_parameters md) h;
            Some (free_md m h)
          }
      | Inr m \<Rightarrow>
          do {
            f \<leftarrow> list_first (children m) (h_links h);
            (if f = children m then Some h
             else do { h \<leftarrow> metadata_free_rec (Inl f) h; metadata_free_rec (Inr m) h })
          })"

definition metadata_free :: "ptr \<Rightarrow> 'z mheap_scheme \<Rightarrow> 'z mheap_scheme option" where
  "metadata_free m h = (if m = NULL then Some h else metadata_free_rec (Inl m) h)"

section \<open>Iteration over the children\<close>

text \<open>The loops that advance to the next child with a name; a comparison with a name \<open>NULL\<close> is undefined.\<close>

partial_function (option) iterator_scan :: "'z mheap_scheme \<Rightarrow> string \<Rightarrow> ptr \<Rightarrow> ptr \<Rightarrow> ptr option" where
  "iterator_scan h name head pos =
     (if pos = head then Some pos
      else
        do {
          md \<leftarrow> h_mds h pos;
          s \<leftarrow> md_name md;
          (if s = name then Some pos
           else do { l \<leftarrow> h_links h pos; iterator_scan h name head (l_next l) })
        })"

definition metadata_iterator_init :: "ptr \<Rightarrow> ptr \<Rightarrow> string option \<Rightarrow> 'z mheap_scheme \<Rightarrow> 'z mheap_scheme option" where
  "metadata_iterator_init m head name h =
     do {
       md \<leftarrow> h_mds h m;
       hd \<leftarrow> h_links h head;
       l \<leftarrow> h_links h (l_next hd);
       let md = md\<lparr>it_head := head, it_pos := l_next hd, it_tmp := l_next l, it_name := None\<rparr> in
       (case name of
          None \<Rightarrow> Some (set_md m md h)
        | Some s \<Rightarrow>
            if s = [] then Some (set_md m md h)
            else
              let (ok, h) = malloc_ok h in
              if \<not> ok then Some (set_md m md h)
              else
                do {
                  pos \<leftarrow> iterator_scan h s head (it_pos md);
                  l \<leftarrow> h_links h pos;
                  Some (set_md m (md\<lparr>it_name := name, it_pos := pos, it_tmp := l_next l\<rparr>) h)
                })
     }"

definition metadata_iterator_next :: "ptr \<Rightarrow> 'z mheap_scheme \<Rightarrow> (int \<times> 'z mheap_scheme) option" where
  "metadata_iterator_next m h =
     do {
       md \<leftarrow> h_mds h m;
       if it_pos md = it_head md then Some (0, h)
       else
         do {
           l \<leftarrow> h_links h (it_tmp md);
           let md = md\<lparr>it_pos := it_tmp md, it_tmp := l_next l\<rparr> in
           if it_pos md = it_head md then Some (0, set_md m md h)
           else
             (case it_name md of
                None \<Rightarrow> Some (1, set_md m md h)
              | Some s \<Rightarrow>
                  do {
                    pos \<leftarrow> iterator_scan h s (it_head md) (it_pos md);
                    l \<leftarrow> h_links h pos;
                    Some (if pos = it_head md then 0 else 1, set_md m (md\<lparr>it_pos := pos, it_tmp := l_next l\<rparr>) h)
                  })
         }
     }"

definition metadata_iterator_deref :: "ptr \<Rightarrow> 'z mheap_scheme \<Rightarrow> ptr option" where
  "metadata_iterator_deref m h =
     do { md \<leftarrow> h_mds h m; Some (if it_pos md = it_head md then NULL else it_pos md) }"

definition metadata_get_next :: "ptr \<Rightarrow> 'z mheap_scheme \<Rightarrow> (ptr \<times> 'z mheap_scheme) option" where
  "metadata_get_next m h =
     (if m = NULL then Some (NULL, h)
      else
        do {
          md \<leftarrow> h_mds h m;
          if it_head md = NULL \<or> it_pos md = it_head md then Some (NULL, h)
          else
            do {
              (_, h) \<leftarrow> metadata_iterator_next m h;
              r \<leftarrow> metadata_iterator_deref m h;
              Some (r, h)
            }
        })"

definition metadata_get :: "ptr \<Rightarrow> string option \<Rightarrow> 'z mheap_scheme \<Rightarrow> (ptr \<times> 'z mheap_scheme) option" where
  "metadata_get m name h =
     (if m = NULL then Some (NULL, h)
      else
        do {
          h \<leftarrow> metadata_iterator_init m (children m) name h;
          r \<leftarrow> metadata_iterator_deref m h;
          Some (r, h)
        })"

section \<open>Parameters\<close>

definition metadata_set_parameter ::
    "ptr \<Rightarrow> string option \<Rightarrow> string option \<Rightarrow> 'z mheap_scheme \<Rightarrow> (int \<times> 'z mheap_scheme) option" where
  "metadata_set_parameter m name vl h =
     (if m = NULL \<or> name = None \<or> vl = None then Some (HAGGLE_ERROR, h)
      else
        do {
          md \<leftarrow> h_mds h m;
          a \<leftarrow> haggle_attributelist_get_attribute_by_name (md_parameters md) name h;
          if a \<noteq> NULL
          then
            do {
              (r, h) \<leftarrow> haggle_attribute_set_value a vl h;
              Some (if r \<noteq> None then 0 else HAGGLE_ERROR, h)
            }
          else
            let (a, h) = haggle_attribute_new name vl h in
            if a = NULL then Some (HAGGLE_ERROR, h)
            else
              do {
                (_, h) \<leftarrow> haggle_attributelist_add_attribute (md_parameters md) a h;
                Some (1, h)
              }
        })"

definition metadata_get_parameter :: "ptr \<Rightarrow> string option \<Rightarrow> 'z mheap_scheme \<Rightarrow> string option option" where
  "metadata_get_parameter m name h =
     (if m = NULL \<or> name = None then Some None
      else
        do {
          md \<leftarrow> h_mds h m;
          a \<leftarrow> haggle_attributelist_get_attribute_by_name (md_parameters md) name h;
          haggle_attribute_get_value a h
        })"



section \<open>Moving nodes in the tree\<close>

lemma set_md_simps [simp]:
  "h_links (set_md m md h) = h_links h" "h_attrs (set_md m md h) = h_attrs h" "h_alists (set_md m md h) = h_alists h"
  "h_mds (set_md m md h) = (h_mds h)(m \<mapsto> md)" "h_mem (set_md m md h) = h_mem h" "h_brk (set_md m md h) = h_brk h"
  by (simp_all add: set_md_def)

lemma metadata_detach_ring:
  assumes "ring (h_links h) q (xs @ c # ys)" "h_mds h c = Some md"
  shows "\<exists>L'. metadata_detach c h = Some (HAGGLE_NO_ERROR, set_md c (md\<lparr>md_parent := NULL\<rparr>) (h\<lparr>h_links := L'\<rparr>))
    \<and> ring L' q (xs @ ys) \<and> same_outside (set (q # xs @ c # ys)) (h_links h) L'"
proof -
  have "c \<noteq> NULL" using assms(1) by (auto simp: ring_def)
  then show ?thesis using list_detach_ring [OF assms(1)] assms(2) by (auto simp: metadata_detach_def)
qed

lemma metadata_add_from:
  assumes "metadata_detach c h = Some (n, set_md c (md\<lparr>md_parent := NULL\<rparr>) (h\<lparr>h_links := L\<rparr>))"
    and "ring L (children p) zs" "c \<in> dom L" "c \<noteq> NULL" "p \<noteq> NULL" "c \<notin> set (children p # zs)"
  shows "\<exists>L'. metadata_add p c h = Some (HAGGLE_NO_ERROR, set_md c (md\<lparr>md_parent := p\<rparr>) (h\<lparr>h_links := L'\<rparr>))
    \<and> ring L' (children p) (zs @ [c]) \<and> same_outside (insert c (set (children p # zs))) L L'"
proof -
  obtain L' where "list_add_tail c (children p) L = Some (LIST_SUCCESS, L')" "ring L' (children p) (zs @ [c])"
    "same_outside (insert c (set (children p # zs))) L L'"
    using list_add_tail_ring [OF assms(2,3,4,6)] by blast
  then have "metadata_add p c h = Some (HAGGLE_NO_ERROR, set_md c (md\<lparr>md_parent := p\<rparr>) (h\<lparr>h_links := L'\<rparr>))
      \<and> ring L' (children p) (zs @ [c]) \<and> same_outside (insert c (set (children p # zs))) L L'"
    using assms(1,4,5) by (simp add: metadata_add_def set_md_def Let_def)
  then show ?thesis by blast
qed

text \<open>
  Adding a node to a parent moves it: a child of \<open>q\<close> is taken out of the children of \<open>q\<close> and appended to
  those of \<open>p\<close> (or goes to the end when they are the same), its parent is set and nothing else
  about any node changes.
\<close>

theorem metadata_add_moves:
  assumes "ring (h_links h) (children q) (xs @ c # ys)" "h_mds h c = Some md" "p \<noteq> NULL"
    and "p \<noteq> q \<Longrightarrow> ring (h_links h) (children p) zs \<and> set (children p # zs) \<inter> set (children q # xs @ c # ys) = {}"
  shows "\<exists>h'. metadata_add p c h = Some (HAGGLE_NO_ERROR, h')
    \<and> h_mds h' = (h_mds h)(c \<mapsto> md\<lparr>md_parent := p\<rparr>)
    \<and> (if p = q then ring (h_links h') (children q) (xs @ ys @ [c])
       else ring (h_links h') (children q) (xs @ ys) \<and> ring (h_links h') (children p) (zs @ [c]))"
proof -
  obtain L where L: "metadata_detach c h = Some (HAGGLE_NO_ERROR, set_md c (md\<lparr>md_parent := NULL\<rparr>) (h\<lparr>h_links := L\<rparr>))"
    "ring L (children q) (xs @ ys)" "same_outside (set (children q # xs @ c # ys)) (h_links h) L"
    using metadata_detach_ring [OF assms(1,2)] by blast
  have c: "c \<noteq> NULL" "c \<in> dom L" "c \<notin> set (children q # xs @ ys)"
    using assms(1) ring_dom [OF assms(1)] L(3) by (auto simp: ring_def same_outside_def)
  show ?thesis
  proof (cases "p = q")
    case True
    then show ?thesis
      using metadata_add_from [OF L(1) _ c(2,1) assms(3), of "xs @ ys"] L(2) c(3) by auto
  next
    case False
    then have z: "ring (h_links h) (children p) zs" "set (children p # zs) \<inter> set (children q # xs @ c # ys) = {}"
      using assms(4) by auto
    then have "ring L (children p) zs" using ring_frame [OF L(3)] by blast
    moreover have "c \<notin> set (children p # zs)" using z(2) by auto
    ultimately obtain L' where L': "metadata_add p c h = Some (HAGGLE_NO_ERROR, set_md c (md\<lparr>md_parent := p\<rparr>) (h\<lparr>h_links := L'\<rparr>))"
      "ring L' (children p) (zs @ [c])" "same_outside (insert c (set (children p # zs))) L L'"
      using metadata_add_from [OF L(1) _ c(2,1) assms(3)] by blast
    have "insert c (set (children p # zs)) \<inter> set (children q # xs @ ys) = {}" using z(2) c(3) by auto
    then have "ring L' (children q) (xs @ ys)" using ring_frame [OF L'(3) L(2)] by blast
    then show ?thesis using L' False by auto
  qed
qed

section \<open>Iteration\<close>

definition name_matches :: "string option \<Rightarrow> 'z mheap_scheme \<Rightarrow> ptr \<Rightarrow> bool" where
  "name_matches name h c \<longleftrightarrow> name = None \<or> name = Some [] \<or> map_option md_name (h_mds h c) = Some name"

text \<open>The effective name of an iteration: the empty name stands for every child.\<close>

definition search_name :: "string option \<Rightarrow> string option" where
  "search_name name = (if name = Some [] then None else name)"

definition named :: "'z mheap_scheme \<Rightarrow> ptr list \<Rightarrow> bool" where
  "named h cs \<longleftrightarrow> (\<forall>c \<in> set cs. \<exists>md s. h_mds h c = Some md \<and> md_name md = Some s)"

lemma ring_next:
  assumes "ring L q (us @ c # ws)"
  shows "\<exists>l. L c = Some l \<and> l_next l = hd (ws @ [q])"
  using assms seg_hd_linked [of L c ws q] by (auto simp: ring_def seg_append linked_def)

lemma ring_head_next: "ring L h cs \<Longrightarrow> \<exists>l. L h = Some l \<and> l_next l = hd (cs @ [h])"
  using seg_hd_linked [of L h cs h] by (auto simp: ring_def linked_def)

lemma ring_pos_next: "ring L h (us @ ws) \<Longrightarrow> \<exists>l. L (hd (ws @ [h])) = Some l"
  using ring_next [of L h us] ring_head_next [of L h] by (cases ws) fastforce+

lemma iterator_scan_ring:
  assumes "named h ws" "ring (h_links h) q (us @ ws)" "s \<noteq> []"
  shows "iterator_scan h s q (hd (ws @ [q]))
    = Some (hd (dropWhile (\<lambda>c. \<not> name_matches (Some s) h c) ws @ [q]))"
  using assms(1,2)
proof (induction ws arbitrary: us)
  case Nil
  show ?case by (subst iterator_scan.simps) simp
next
  case (Cons c ws)
  have "c \<noteq> q" using Cons.prems(2) by (auto simp: ring_def)
  moreover obtain l where "h_links h c = Some l" "l_next l = hd (ws @ [q])"
    using ring_next [OF Cons.prems(2)] by blast
  moreover have "iterator_scan h s q (hd (ws @ [q]))
      = Some (hd (dropWhile (\<lambda>c. \<not> name_matches (Some s) h c) ws @ [q]))"
    using Cons.IH [of "us @ [c]"] Cons.prems by (simp add: named_def)
  ultimately show ?case
    using Cons.prems(1) assms(3) by (subst iterator_scan.simps) (auto simp: named_def name_matches_def)
qed

text \<open>The iterator of \<open>m\<close> stands at the first of the pending children \<open>ws\<close>.\<close>

definition iterating :: "ptr \<Rightarrow> string option \<Rightarrow> ptr list \<Rightarrow> ptr list \<Rightarrow> 'z mheap_scheme \<Rightarrow> bool" where
  "iterating m name us ws h \<longleftrightarrow> ring (h_links h) (children m) (us @ ws)
     \<and> (\<exists>md l. h_mds h m = Some md \<and> it_head md = children m \<and> it_name md = search_name name
          \<and> it_pos md = hd (ws @ [children m]) \<and> h_links h (it_pos md) = Some l \<and> it_tmp md = l_next l)"

definition same_tree :: "'z mheap_scheme \<Rightarrow> 'z mheap_scheme \<Rightarrow> bool" where
  "same_tree h h' \<longleftrightarrow> h_links h' = h_links h \<and> h_attrs h' = h_attrs h \<and> h_alists h' = h_alists h
     \<and> (\<forall>c. map_option (\<lambda>md. (md_parent md, md_name md, md_content md, md_parameters md)) (h_mds h' c)
          = map_option (\<lambda>md. (md_parent md, md_name md, md_content md, md_parameters md)) (h_mds h c))"

lemma same_tree_names:
  assumes "same_tree h h'"
  shows "name_matches name h' c = name_matches name h c" "named h' cs = named h cs"
proof -
  have n: "map_option md_name (h_mds h' c) = map_option md_name (h_mds h c)" for c
    using assms unfolding same_tree_def by (cases "h_mds h' c"; cases "h_mds h c") (auto dest: spec [of _ c])
  then show "name_matches name h' c = name_matches name h c" by (simp add: name_matches_def)
  have "named h cs = (\<forall>c \<in> set cs. \<exists>s. map_option md_name (h_mds h c) = Some (Some s))" for h :: "'a mheap_scheme"
    by (fastforce simp: named_def)
  then show "named h' cs = named h cs" using n by (simp del: map_option_eq_Some)
qed

lemma same_tree_set_md:
  "h_mds h m = Some md0 \<Longrightarrow> md_parent md = md_parent md0 \<Longrightarrow> md_name md = md_name md0
   \<Longrightarrow> md_content md = md_content md0 \<Longrightarrow> md_parameters md = md_parameters md0 \<Longrightarrow> same_tree h (set_md m md h)"
  by (simp add: same_tree_def)

lemma same_tree_trans: "same_tree h h' \<Longrightarrow> same_tree h' h'' \<Longrightarrow> same_tree h h''"
  by (simp add: same_tree_def)

lemma ring_hd_neq: "ring L q (us @ ws) \<Longrightarrow> ws \<noteq> [] \<Longrightarrow> hd ws \<noteq> q"
  by (cases ws) (auto simp: ring_def)

lemma dropWhile_split: "\<exists>us'. ws = us' @ dropWhile P ws"
  by (metis takeWhile_dropWhile_id)

lemma metadata_get_starts:
  fixes name :: "string option"
  assumes "ring (h_links h) (children m) cs" "named h cs" "h_mem h = []" "h_mds h m = Some md" "m \<noteq> NULL"
  defines "ws \<equiv> dropWhile (\<lambda>c. \<not> name_matches name h c) cs"
  shows "\<exists>us h'. metadata_get m name h = Some (if ws = [] then NULL else hd ws, h') \<and> us @ ws = cs
    \<and> iterating m name us ws h' \<and> same_tree h h'"
proof -
  obtain us where us: "us @ ws = cs" using dropWhile_split ws_def by metis
  let ?hd = "children m"
  obtain l0 where l0: "h_links h ?hd = Some l0" "l_next l0 = hd (cs @ [?hd])" using ring_head_next [OF assms(1)] by blast
  obtain l1 where l1: "h_links h (hd (cs @ [?hd])) = Some l1" using ring_pos_next [of _ _ "[]" cs] assms(1) by auto
  obtain l where l: "h_links h (hd (ws @ [?hd])) = Some l" using ring_pos_next [of _ _ us ws] us assms(1) by auto
  let ?md = "md\<lparr>it_head := ?hd, it_pos := hd (ws @ [?hd]), it_tmp := l_next l, it_name := search_name name\<rparr>"
  have hd_ne: "ws \<noteq> [] \<Longrightarrow> hd ws \<noteq> ?hd" using ring_hd_neq [of _ _ us ws] assms(1) us by simp
  have init: "metadata_iterator_init m ?hd name h = Some (set_md m ?md h)"
  proof (cases "search_name name")
    case None
    then have "ws = cs" "name = None \<or> name = Some []"
      by (auto simp: ws_def name_matches_def search_name_def dropWhile_eq_self_iff split: if_splits)
    then show ?thesis using l0 l1 l assms(4) None by (auto simp: metadata_iterator_init_def)
  next
    case (Some s)
    then have s: "name = Some s" "s \<noteq> []" by (auto simp: search_name_def split: if_splits)
    have "iterator_scan h s ?hd (hd (cs @ [?hd])) = Some (hd (ws @ [?hd]))"
      using iterator_scan_ring [OF assms(2) _ s(2), of ?hd "[]"] assms(1) by (simp add: ws_def s)
    then show ?thesis
      using l0 l1 l assms(3,4) s Some by (cases md) (simp add: metadata_iterator_init_def malloc_ok_def)
  qed
  have "iterating m name us ws (set_md m ?md h)" using l assms(1) us by (auto simp: iterating_def)
  moreover have "same_tree h (set_md m ?md h)" using assms(4) by (intro same_tree_set_md) simp_all
  moreover have "metadata_get m name h = Some (if ws = [] then NULL else hd ws, set_md m ?md h)"
    using init assms(5) hd_ne by (auto simp: metadata_get_def metadata_iterator_deref_def)
  ultimately show ?thesis using us by blast
qed

text \<open>The step of an iterator needs only the saved successor: the child at its position may have been removed.\<close>

lemma metadata_get_next_pending:
  assumes r: "ring (h_links h) (children m) (us @ rest)" and ne: "c \<noteq> children m"
    and md: "h_mds h m = Some md" "it_head md = children m" "it_name md = search_name name" "it_pos md = c"
      "it_tmp md = hd (rest @ [children m])"
    and "named h (us @ rest)" "m \<noteq> NULL"
  defines "ws \<equiv> dropWhile (\<lambda>c. \<not> name_matches name h c) rest"
  shows "\<exists>us' h'. metadata_get_next m h = Some (if ws = [] then NULL else hd ws, h') \<and> us' @ ws = us @ rest
    \<and> iterating m name us' ws h' \<and> same_tree h h'"
proof -
  let ?hd = "children m"
  obtain vs where "vs @ ws = rest" using dropWhile_split ws_def by metis
  then have us: "(us @ vs) @ ws = us @ rest" by simp
  have hds: "rest \<noteq> [] \<Longrightarrow> hd rest \<noteq> ?hd" "ws \<noteq> [] \<Longrightarrow> hd ws \<noteq> ?hd"
    using us r ring_hd_neq [of _ _ us rest] ring_hd_neq [of _ _ "us @ vs" ws] by auto
  obtain l1 where l1: "h_links h (hd (rest @ [?hd])) = Some l1" using ring_pos_next [of _ _ us rest] r by auto
  obtain l where l: "h_links h (hd (ws @ [?hd])) = Some l" using ring_pos_next [of _ _ "us @ vs" ws] r us by auto
  let ?md = "md\<lparr>it_pos := hd (ws @ [?hd]), it_tmp := l_next l\<rparr>"
  have next_: "\<exists>n. metadata_iterator_next m h = Some (n, set_md m ?md h)"
  proof (cases "rest = []")
    case True
    then show ?thesis using md ne l1 l by (auto simp: metadata_iterator_next_def ws_def)
  next
    case rest: False
    show ?thesis
    proof (cases "search_name name")
      case None
      then have "ws = rest"
        by (auto simp: ws_def name_matches_def search_name_def dropWhile_eq_self_iff split: if_splits)
      then show ?thesis using md ne hds l1 l rest None by (auto simp: metadata_iterator_next_def)
    next
      case (Some s)
      then have s: "name = Some s" "s \<noteq> []" by (auto simp: search_name_def split: if_splits)
      have "iterator_scan h s ?hd (hd (rest @ [?hd])) = Some (hd (ws @ [?hd]))"
        using iterator_scan_ring [of h rest ?hd us s] r s assms(8) by (simp add: ws_def named_def)
      then show ?thesis using md ne hds l1 l rest Some by (auto simp: metadata_iterator_next_def)
    qed
  qed
  have "iterating m name (us @ vs) ws (set_md m ?md h)" using l md r us by (auto simp: iterating_def)
  moreover have "same_tree h (set_md m ?md h)" using md(1) by (intro same_tree_set_md) simp_all
  moreover have "metadata_get_next m h = Some (if ws = [] then NULL else hd ws, set_md m ?md h)"
    using next_ md ne hds assms(9) by (auto simp: metadata_get_next_def metadata_iterator_deref_def)
  ultimately show ?thesis using us by blast
qed

lemma metadata_get_next_advances:
  assumes it: "iterating m name us (c # rest) h" and "named h (us @ c # rest)" "m \<noteq> NULL"
  defines "ws \<equiv> dropWhile (\<lambda>c. \<not> name_matches name h c) rest"
  shows "\<exists>us' h'. metadata_get_next m h = Some (if ws = [] then NULL else hd ws, h') \<and> us' @ ws = us @ c # rest
    \<and> iterating m name us' ws h' \<and> same_tree h h'"
proof -
  have r: "ring (h_links h) (children m) (us @ c # rest)" using it by (simp add: iterating_def)
  moreover have "c \<noteq> children m" using ring_hd_neq [of _ _ us "c # rest"] r by simp
  moreover obtain md where "h_mds h m = Some md" "it_head md = children m" "it_name md = search_name name" "it_pos md = c"
    "it_tmp md = hd (rest @ [children m])"
    using it ring_next [OF r] by (auto simp: iterating_def)
  ultimately show ?thesis
    using metadata_get_next_pending [of h m "us @ [c]" rest c md name] assms(2,3) unfolding ws_def by simp
qed

lemma metadata_get_next_at_end:
  "iterating m name us [] h \<Longrightarrow> metadata_get_next m h = Some (NULL, h)"
  by (auto simp: iterating_def metadata_get_next_def)

text \<open>The search for the matching child number \<open>n\<close> as the clients write it: one \<open>metadata_get\<close>, then
  \<open>metadata_get_next\<close>.\<close>

primrec metadata_get_nth :: "ptr \<Rightarrow> string option \<Rightarrow> nat \<Rightarrow> 'z mheap_scheme \<Rightarrow> (ptr \<times> 'z mheap_scheme) option" where
  "metadata_get_nth m name 0 h = metadata_get m name h"
| "metadata_get_nth m name (Suc n) h = do { (_, h) \<leftarrow> metadata_get_nth m name n h; metadata_get_next m h }"

lemma filter_dropWhile_not: "filter P (dropWhile (\<lambda>x. \<not> P x) xs) = filter P xs"
  by (induction xs) auto

lemma hd_dropWhile_not: "dropWhile (\<lambda>x. \<not> P x) xs = c # ys \<Longrightarrow> P c"
  by (metis dropWhile_eq_Cons_conv)

lemma metadata_get_nth_state:
  assumes "ring (h_links h) (children m) cs" "named h cs" "h_mem h = []" "h_mds h m = Some md" "m \<noteq> NULL"
  shows "\<exists>us ws h'. metadata_get_nth m name n h = Some (if ws = [] then NULL else hd ws, h') \<and> us @ ws = cs
    \<and> iterating m name us ws h' \<and> same_tree h h' \<and> (ws = [] \<or> name_matches name h (hd ws))
    \<and> filter (name_matches name h) ws = drop n (filter (name_matches name h) cs)"
proof (induction n)
  case 0
  let ?ws = "dropWhile (\<lambda>c. \<not> name_matches name h c) cs"
  have "?ws = [] \<or> name_matches name h (hd ?ws)"
    using hd_dropWhile_not [of "name_matches name h" cs] by (metis list.collapse)
  moreover have "filter (name_matches name h) ?ws = drop 0 (filter (name_matches name h) cs)"
    by (simp add: filter_dropWhile_not)
  ultimately show ?case using metadata_get_starts [OF assms, of name] unfolding metadata_get_nth.simps by blast
next
  case (Suc n)
  then obtain us ws h' where I: "metadata_get_nth m name n h = Some (if ws = [] then NULL else hd ws, h')" "us @ ws = cs"
    "iterating m name us ws h'" "same_tree h h'" "ws = [] \<or> name_matches name h (hd ws)"
    "filter (name_matches name h) ws = drop n (filter (name_matches name h) cs)" by blast
  have drop: "drop (Suc n) (filter (name_matches name h) cs) = tl (filter (name_matches name h) ws)"
    using I(6) by (simp add: drop_Suc tl_drop)
  show ?case
  proof (cases ws)
    case Nil
    then show ?thesis using I drop metadata_get_next_at_end [of m name us h'] by fastforce
  next
    case (Cons c rest)
    have nm: "name_matches name h' = name_matches name h" using same_tree_names(1) [OF I(4)] by blast
    have "named h' (us @ c # rest)" using same_tree_names(2) [OF I(4)] assms(2) I(2) Cons by simp
    then obtain us' h'' where N: "metadata_get_next m h' = Some (if dropWhile (\<lambda>c. \<not> name_matches name h c) rest = [] then NULL
          else hd (dropWhile (\<lambda>c. \<not> name_matches name h c) rest), h'')"
      "us' @ dropWhile (\<lambda>c. \<not> name_matches name h c) rest = us @ c # rest"
      "iterating m name us' (dropWhile (\<lambda>c. \<not> name_matches name h c) rest) h''" "same_tree h' h''"
      using metadata_get_next_advances [of m name us c rest h'] I(3) assms(5) Cons unfolding nm by blast
    have "filter (name_matches name h) (dropWhile (\<lambda>c. \<not> name_matches name h c) rest)
        = drop (Suc n) (filter (name_matches name h) cs)"
      using drop Cons I(5) by (simp add: filter_dropWhile_not)
    moreover have "dropWhile (\<lambda>c. \<not> name_matches name h c) rest = []
        \<or> name_matches name h (hd (dropWhile (\<lambda>c. \<not> name_matches name h c) rest))"
      using hd_dropWhile_not [of "name_matches name h" rest] by (metis list.collapse)
    ultimately show ?thesis
      using N I(1,2) Cons same_tree_trans [OF I(4) N(4)]
      by (intro exI [of _ us'] exI [of _ "dropWhile (\<lambda>c. \<not> name_matches name h c) rest"] exI [of _ h'']) simp
  qed
qed

text \<open>
  C18: The iteration over the children: \<open>metadata_get\<close> followed by \<open>n\<close> calls of \<open>metadata_get_next\<close> returns the
  matching child number \<open>n\<close> in the order of the children, and \<open>NULL\<close> when there are no more; the tree is not changed.
\<close>

theorem metadata_get_next_enumerates:
  assumes "ring (h_links h) (children m) cs" "named h cs" "h_mem h = []" "h_mds h m = Some md" "m \<noteq> NULL"
  shows "\<exists>h'. metadata_get_nth m name n h
      = Some (let found = filter (name_matches name h) cs in if n < length found then found ! n else NULL, h')
    \<and> same_tree h h'"
proof -
  obtain us ws h' where I: "metadata_get_nth m name n h = Some (if ws = [] then NULL else hd ws, h')"
    "same_tree h h'" "ws = [] \<or> name_matches name h (hd ws)"
    "filter (name_matches name h) ws = drop n (filter (name_matches name h) cs)"
    using metadata_get_nth_state [OF assms] by blast
  let ?found = "filter (name_matches name h) cs"
  have "(if ws = [] then NULL else hd ws) = (if n < length ?found then ?found ! n else NULL)"
  proof (cases ws)
    case Nil
    then have "length ?found \<le> n" using I(4) by simp
    then show ?thesis using Nil by simp
  next
    case (Cons c rest)
    then have d: "drop n ?found = c # filter (name_matches name h) rest" using I(3,4) by simp
    then have "n < length ?found" by (metis drop_all leI list.distinct(1))
    moreover have "?found ! n = c" using d calculation by (metis hd_drop_conv_nth list.sel(1))
    ultimately show ?thesis using Cons by simp
  qed
  then show ?thesis using I(1,2) by (auto simp: Let_def)
qed

text \<open>Moving an iterator changes one node of the tree at most.\<close>

lemma iterator_next_set_md: "metadata_iterator_next m h = Some (r, h') \<Longrightarrow> h' = h \<or> (\<exists>md. h' = set_md m md h)"
  by (auto simp: metadata_iterator_next_def bind_eq_Some_conv Let_def split: if_splits option.splits)

lemma get_next_set_md: "metadata_get_next m h = Some (r, h') \<Longrightarrow> h' = h \<or> (\<exists>md. h' = set_md m md h)"
  by (auto simp: metadata_get_next_def bind_eq_Some_conv split: if_splits dest: iterator_next_set_md)

lemma get_set_md: "metadata_get m name h = Some (r, h') \<Longrightarrow> h_mem h = [] \<Longrightarrow> h' = h \<or> (\<exists>md. h' = set_md m md h)"
  by (auto simp: metadata_get_def metadata_iterator_init_def bind_eq_Some_conv Let_def malloc_ok_def
      split: if_splits option.splits)

section \<open>The parameters of a node\<close>

lemma first_match_split:
  "length vs = length xs \<Longrightarrow> NULL \<notin> set xs \<Longrightarrow>
   (first_match P xs vs = NULL \<and> (\<forall>v \<in> set vs. \<not> P v))
   \<or> (\<exists>xs1 xs2 vs1 v vs2. xs = xs1 @ first_match P xs vs # xs2 \<and> vs = vs1 @ v # vs2 \<and> length vs1 = length xs1
        \<and> P v \<and> (\<forall>v \<in> set vs1. \<not> P v))"
proof (induction xs vs rule: list_induct2')
  case (4 x xs v vs)
  show ?case
  proof (cases "P v")
    case True
    then show ?thesis
      by (intro disjI2 exI [of _ "[]"] exI [of _ xs] exI [of _ v] exI [of _ vs]) (simp add: first_match_def)
  next
    case False
    then have f: "first_match P (x # xs) (v # vs) = first_match P xs vs" by (simp add: first_match_def)
    from 4 consider "first_match P xs vs = NULL" "\<forall>v \<in> set vs. \<not> P v"
      | xs1 xs2 vs1 w vs2 where "xs = xs1 @ first_match P xs vs # xs2" "vs = vs1 @ w # vs2" "length vs1 = length xs1"
        "P w" "\<forall>v \<in> set vs1. \<not> P v" by auto
    then show ?thesis
    proof cases
      case 1
      then show ?thesis using f False by simp
    next
      case 2
      then show ?thesis
        using f False by (intro disjI2 exI [of _ "x # xs1"] exI [of _ xs2] exI [of _ "v # vs1"] exI [of _ w] exI [of _ vs2]) auto
    qed
  qed
qed (auto simp: first_match_def)

lemma alist_first_match:
  assumes "alist h al xs vs" "first_match P xs vs = a"
  obtains (none) "a = NULL" "\<forall>v \<in> set vs. \<not> P v"
    | (found) xs1 xs2 vs1 v vs2 where "a \<noteq> NULL" "xs = xs1 @ a # xs2" "vs = vs1 @ v # vs2"
      "length vs1 = length xs1" "P v" "\<forall>v \<in> set vs1. \<not> P v" "h_attrs h a = Some v" "attr_value v \<noteq> None"
proof -
  have "(a = NULL \<and> (\<forall>v \<in> set vs. \<not> P v)) \<or> (\<exists>xs1 xs2 vs1 v vs2. xs = xs1 @ a # xs2 \<and> vs = vs1 @ v # vs2
      \<and> length vs1 = length xs1 \<and> P v \<and> (\<forall>v \<in> set vs1. \<not> P v))"
    using first_match_split [of vs xs P] alist_length [OF assms(1)] alist_not_NULL [OF assms(1)] assms(2) by auto
  then show thesis
  proof (elim disjE exE conjE)
    fix xs1 xs2 vs1 v vs2
    assume *: "xs = xs1 @ a # xs2" "vs = vs1 @ v # vs2" "length vs1 = length xs1" "P v" "\<forall>v \<in> set vs1. \<not> P v"
    then have "a \<noteq> NULL" "h_attrs h a = Some v" "attr_value v \<noteq> None"
      using assms(1) by (auto simp: alist_def ring_def)
    then show thesis using found * by blast
  qed (use none in blast)
qed

text \<open>The value that a list of attributes gives to a name: the first one counts.\<close>

fun value_of :: "attribute list \<Rightarrow> string \<Rightarrow> string option" where
  "value_of [] nm = None"
| "value_of (v # vs) nm = (if attr_name v = Some nm then attr_value v else value_of vs nm)"

lemma value_of_append:
  "value_of (vs @ ws) nm = (if \<exists>v \<in> set vs. attr_name v = Some nm then value_of vs nm else value_of ws nm)"
  by (induction vs) auto

lemma value_of_none: "\<forall>v \<in> set vs. attr_name v \<noteq> Some nm \<Longrightarrow> value_of vs nm = None"
  by (induction vs) auto

lemma metadata_get_parameter_alist:
  assumes "h_mds h m = Some md" "m \<noteq> NULL" "alist h (md_parameters md) xs vs"
  shows "metadata_get_parameter m (Some nm) h = Some (value_of vs nm)"
proof -
  let ?P = "\<lambda>v. attr_name v = Some nm"
  let ?a = "first_match ?P xs vs"
  have lookup: "haggle_attributelist_get_attribute_by_name (md_parameters md) (Some nm) h = Some ?a"
    by (rule get_attribute_by_name_alist [OF assms(3)])
  from assms(3) refl show ?thesis
  proof (cases rule: alist_first_match [of h _ xs vs ?P])
    case none
    then show ?thesis
      using lookup assms(1,2) by (simp add: metadata_get_parameter_def haggle_attribute_get_value_def value_of_none)
  next
    case (found xs1 xs2 vs1 v vs2)
    then have "value_of vs nm = attr_value v" by (simp add: value_of_append)
    then show ?thesis
      using lookup assms(1,2) found by (simp add: metadata_get_parameter_def haggle_attribute_get_value_def)
  qed
qed

lemma attribute_new_mds:
  "haggle_attribute_new_weighted nm vl w h = (a, h') \<Longrightarrow> h_mds h' = h_mds h"
  by (auto simp: haggle_attribute_new_weighted_def malloc_def malloc_ok_def free_attr_def Let_def split: if_splits list.splits prod.splits)

lemma add_attribute_mds:
  "haggle_attributelist_add_attribute al a h = Some (n, h') \<Longrightarrow> h_mds h' = h_mds h"
  by (auto simp: haggle_attributelist_add_attribute_def bind_eq_Some_conv split: if_splits)

lemma set_value_alist:
  assumes "alist h al (xs1 @ a # xs2) (vs1 @ v # vs2)" "length vs1 = length xs1" "h_mem h = []"
  shows "\<exists>h'. haggle_attribute_set_value a (Some vl) h = Some (Some vl, h')
    \<and> alist h' al (xs1 @ a # xs2) (vs1 @ v\<lparr>attr_value := Some vl\<rparr> # vs2) \<and> h_mds h' = h_mds h"
proof -
  have "a \<noteq> NULL" "h_attrs h a = Some v" "a \<notin> set xs1" "a \<notin> set xs2" "map (h_attrs h) xs1 = map Some vs1"
    "map (h_attrs h) xs2 = map Some vs2"
    using assms(1,2) by (auto simp: alist_def ring_def)
  then show ?thesis
    using assms by (auto simp: haggle_attribute_set_value_def malloc_ok_def alist_def)
qed

text \<open>
  Setting a parameter of a node succeeds, returns 1 for a new parameter and 0 for one that was there, and
  afterwards this parameter has the new value and every other one the value it had.
\<close>

theorem metadata_parameter_roundtrip:
  fixes h :: mheap
  assumes "wf_heap h" "h_mem h = []" "h_mds h m = Some md" "m \<noteq> NULL" "alist h (md_parameters md) xs vs"
  shows "\<exists>h'. metadata_set_parameter m (Some nm) (Some vl) h
      = Some (if metadata_get_parameter m (Some nm) h = Some None then 1 else 0, h')
    \<and> (\<forall>s. metadata_get_parameter m (Some s) h' = (if s = nm then Some (Some vl) else metadata_get_parameter m (Some s) h))"
proof -
  let ?P = "\<lambda>v. attr_name v = Some nm"
  let ?a = "first_match ?P xs vs" and ?al = "md_parameters md"
  have lookup: "haggle_attributelist_get_attribute_by_name ?al (Some nm) h = Some ?a"
    by (rule get_attribute_by_name_alist [OF assms(5)])
  note get = metadata_get_parameter_alist [OF assms(3-5)]
  from assms(5) refl show ?thesis
  proof (cases rule: alist_first_match [of h _ xs vs ?P])
    case none
    obtain a h1 where n: "haggle_attribute_new (Some nm) (Some vl) h = (a, h1)" by fastforce
    obtain n h2 where h2: "haggle_attributelist_add_attribute ?al a h1 = Some (n, h2)" "a \<noteq> NULL"
      "alist h2 ?al (xs @ [a]) (vs @ [\<lparr>attr_name = Some nm, attr_value = Some vl, attr_weight = 1\<rparr>])"
      using new_and_add [OF assms(1,5) n [unfolded haggle_attribute_new_def]] assms(2) by auto
    have "h_mds h2 = h_mds h"
      using n h2(1) attribute_new_mds add_attribute_mds by (metis haggle_attribute_new_def)
    then have "metadata_get_parameter m (Some s) h2 = Some (value_of (vs @ [\<lparr>attr_name = Some nm, attr_value = Some vl, attr_weight = 1\<rparr>]) s)" for s
      using metadata_get_parameter_alist [of h2 m md] h2(3) assms(3,4) by simp
    then show ?thesis
      using none n h2 lookup assms(3,4) get
      by (auto simp: metadata_set_parameter_def value_of_append value_of_none)
  next
    case (found xs1 xs2 vs1 v vs2)
    obtain h' where h': "haggle_attribute_set_value ?a (Some vl) h = Some (Some vl, h')"
      "alist h' ?al xs (vs1 @ v\<lparr>attr_value := Some vl\<rparr> # vs2)" "h_mds h' = h_mds h"
      using set_value_alist [of h ?al xs1 ?a xs2 vs1 v vs2 vl] assms(2,5) found(2-4) by metis
    have "metadata_get_parameter m (Some s) h' = Some (value_of (vs1 @ v\<lparr>attr_value := Some vl\<rparr> # vs2) s)" for s
      using metadata_get_parameter_alist [of h' m md] h'(2,3) assms(3,4) by simp
    then show ?thesis
      using found h'(1) lookup assms(3,4) get
      by (auto simp: metadata_set_parameter_def value_of_append)
  qed
qed


text \<open>A root with three children, the second one without content.\<close>

definition sample_tree :: mheap where
  "sample_tree =
     (let h = \<lparr>h_links = Map.empty, h_brk = 1, h_mem = [], h_attrs = Map.empty, h_alists = Map.empty, h_mds = Map.empty\<rparr>;
          (r, h) = the (metadata_new (Some ''root'') None NULL h);
          (a, h) = the (metadata_new (Some ''a'') (Some ''1'') r h);
          (b, h) = the (metadata_new (Some ''b'') None r h);
          (c, h) = the (metadata_new (Some ''a'') (Some ''2'') r h) in h)"

abbreviation sample_node :: "ptr \<Rightarrow> ptr \<Rightarrow> string \<Rightarrow> string option \<Rightarrow> metadata" where
  "sample_node p al nm c \<equiv> \<lparr>it_name = None, it_head = NULL, it_tmp = NULL, it_pos = NULL, md_parent = p,
     md_name = Some nm, md_content = c, md_parameters = al\<rparr>"

lemma sample_tree_facts:
  "ring (h_links sample_tree) 2 [9, 17, 25]" "ring (h_links sample_tree) 10 []"
  "h_mds sample_tree 1 = Some (sample_node 1 5 ''root'' None)"
  "h_mds sample_tree 9 = Some (sample_node 1 13 ''a'' (Some ''1''))"
  "h_mds sample_tree 17 = Some (sample_node 1 21 ''b'' None)"
  "h_mds sample_tree 25 = Some (sample_node 1 29 ''a'' (Some ''2''))"
  "h_mem sample_tree = []" "wf_heap sample_tree" "alist sample_tree 5 [] []"
  by (simp_all add: sample_tree_def alist_def wf_heap_def ring_def linked_def metadata_new_def metadata_set_name_def
      metadata_set_content_def metadata_add_def metadata_detach_def set_md_def haggle_attributelist_new_def malloc_def
      malloc_ok_def INIT_LIST_def list_add_tail_def listelm_add_def list_detach_def listelm_detach_def
      set_next_def set_prev_def Let_def)

theorem metadata_add_moves_witness:
  "\<exists>h'. metadata_add 9 17 sample_tree = Some (HAGGLE_NO_ERROR, h') \<and> ring (h_links h') 2 [9, 25] \<and> ring (h_links h') 10 [17]"
  using metadata_add_moves [of sample_tree 1 "[9]" 17 "[25]" _ 9 "[]"] sample_tree_facts(1,2,5) by (auto simp: numeral_2_eq_2)

theorem metadata_get_next_enumerates_witness:
  "\<exists>h'. metadata_get_nth 1 (Some ''a'') 1 sample_tree = Some (25, h')"
proof -
  have "named sample_tree [9, 17, 25]" using sample_tree_facts(4-6) by (simp add: named_def)
  moreover have "filter (name_matches (Some ''a'') sample_tree) [9, 17, 25] = [9, 25]"
    using sample_tree_facts(4-6) by (simp add: name_matches_def)
  ultimately show ?thesis
    using metadata_get_next_enumerates [of sample_tree 1 "[9, 17, 25]" _ "Some ''a''" 1] sample_tree_facts(1,3,7) by (auto simp: numeral_2_eq_2)
qed

theorem metadata_parameter_roundtrip_witness:
  "\<exists>h'. metadata_set_parameter 1 (Some ''x'') (Some ''7'') sample_tree = Some (1, h')
     \<and> metadata_get_parameter 1 (Some ''x'') h' = Some (Some ''7'')"
  using metadata_parameter_roundtrip [OF sample_tree_facts(8,7,3), of "[]" "[]" "''x''" "''7''"] sample_tree_facts(9)
    metadata_get_parameter_alist [OF sample_tree_facts(3), of "[]" "[]" "''x''"]
  by auto



section \<open>Releasing a tree\<close>

text \<open>The addresses of the objects of a tree: the node, its parameter list, the parameters, and the children.\<close>

datatype mtree = MT (mt_ptr: ptr) (mt_al: ptr) (mt_attrs: "ptr list") (mt_sub: "mtree list")

fun owned :: "mtree \<Rightarrow> ptr list" where
  "owned (MT p al xs ts) = p # children p # al # xs @ concat (map owned ts)"

fun tree_nodes :: "mtree \<Rightarrow> ptr list" where
  "tree_nodes (MT p al xs ts) = p # concat (map tree_nodes ts)"

fun tree_als :: "mtree \<Rightarrow> ptr list" where
  "tree_als (MT p al xs ts) = al # concat (map tree_als ts)"

fun tree_attrs :: "mtree \<Rightarrow> ptr list" where
  "tree_attrs (MT p al xs ts) = xs @ concat (map tree_attrs ts)"

text \<open>The memory holds the tree; the links of its root belong to the list the root is in.\<close>

fun shaped :: "'z mheap_scheme \<Rightarrow> mtree \<Rightarrow> bool" where
  "shaped h (MT p al xs ts) \<longleftrightarrow> p \<noteq> NULL
     \<and> (\<exists>md vs. h_mds h p = Some md \<and> md_parameters md = al \<and> alist h al xs vs)
     \<and> ring (h_links h) (children p) (map mt_ptr ts) \<and> (\<forall>t \<in> set ts. shaped h t)"

lemma tree_parts: "set (tree_nodes t) \<subseteq> set (owned t)" "set (tree_als t) \<subseteq> set (owned t)" "set (tree_attrs t) \<subseteq> set (owned t)"
  by (induction t) fastforce+

lemma mt_ptr_owned [simp]: "mt_ptr t \<in> set (owned t)"
  by (cases t) simp

lemma mt_ptrs_owned: "mt_ptr ` set ts \<subseteq> set (concat (map owned ts))"
  by (auto intro: mt_ptr_owned bexI)

lemma mt_ptr_apart:
  "set (owned t) \<inter> set (concat (map owned ts)) = {} \<Longrightarrow> q \<in> set (map mt_ptr ts) \<Longrightarrow> q \<notin> set (owned t)"
  using mt_ptrs_owned [of ts] by (metis disjoint_iff set_map subsetD)

lemma same_tree_owner:
  "distinct (concat (map owned ts)) \<Longrightarrow> u \<in> set ts \<Longrightarrow> v \<in> set ts \<Longrightarrow> q \<in> set (owned u) \<Longrightarrow> q \<in> set (owned v) \<Longrightarrow> u = v"
  by (induction ts) auto

lemma distinct_owned: "distinct (concat (map owned ts)) \<Longrightarrow> u \<in> set ts \<Longrightarrow> distinct (owned u)"
  by (induction ts) auto

lemma shaped_cong:
  assumes "shaped h t" "distinct (owned t)" "\<And>q. q \<in> set (owned t) \<Longrightarrow> q \<noteq> mt_ptr t \<Longrightarrow> h_links h' q = h_links h q"
    "\<And>q. q \<in> set (owned t) \<Longrightarrow> h_attrs h' q = h_attrs h q \<and> h_alists h' q = h_alists h q \<and> h_mds h' q = h_mds h q"
  shows "shaped h' t"
  using assms
proof (induction t)
  case (MT p al xs ts)
  obtain md vs where md: "h_mds h p = Some md" "md_parameters md = al" "alist h al xs vs" using MT.prems(1) by auto
  have "alist h' al xs vs"
    by (rule alist_cong [OF md(3)]) (use MT.prems(2-4) in auto)
  moreover have "ring (h_links h') (children p) (map mt_ptr ts)"
  proof -
    have "h_links h' q = h_links h q" if "q \<in> set (children p # map mt_ptr ts)" for q
    proof (rule MT.prems(3))
      have "q \<in> set (children p # concat (map owned ts))" using that mt_ptrs_owned [of ts] by auto
      then show "q \<in> set (owned (MT p al xs ts))" "q \<noteq> mt_ptr (MT p al xs ts)" using MT.prems(2) by auto
    qed
    then show ?thesis using MT.prems(1) ring_cong [of "children p" "map mt_ptr ts" "h_links h'" "h_links h"] by auto
  qed
  moreover have "shaped h' t" if "t \<in> set ts" for t
  proof (rule MT.IH [OF that])
    show "shaped h t" "distinct (owned t)" using MT.prems(1,2) that distinct_owned [of ts t] by auto
    show "h_links h' q = h_links h q" if "q \<in> set (owned t)" for q
      using that \<open>t \<in> set ts\<close> MT.prems(2,3) by auto
  qed (use MT.prems(4) that in auto)
  ultimately show ?case using MT.prems(1,4) md by auto
qed

text \<open>What remains: the objects of the trees are gone, everything else but the links in \<open>A\<close> is as before.\<close>

definition released :: "ptr set \<Rightarrow> mtree list \<Rightarrow> 'z mheap_scheme \<Rightarrow> 'z mheap_scheme \<Rightarrow> bool" where
  "released A ts h h' \<longleftrightarrow>
     (\<forall>q. q \<notin> set (concat (map owned ts)) \<union> A \<longrightarrow> h_links h' q = h_links h q)
     \<and> (\<forall>q \<in> set (concat (map owned ts)). h_links h' q = None)
     \<and> h_attrs h' = h_attrs h |` (- set (concat (map tree_attrs ts)))
     \<and> h_alists h' = h_alists h |` (- set (concat (map tree_als ts)))
     \<and> h_mds h' = h_mds h |` (- set (concat (map tree_nodes ts)))
     \<and> h_brk h' = h_brk h \<and> h_mem h' = h_mem h \<and> mheap.more h' = mheap.more h"

lemma released_links:
  assumes "released A ts h h'"
  shows "q \<notin> set (concat (map owned ts)) \<Longrightarrow> q \<notin> A \<Longrightarrow> h_links h' q = h_links h q"
    "q \<in> set (concat (map owned ts)) \<Longrightarrow> h_links h' q = None"
  using assms unfolding released_def by blast+

lemma released_objects:
  assumes "released A ts h h'" "q \<notin> set (concat (map owned ts))"
  shows "h_attrs h' q = h_attrs h q \<and> h_alists h' q = h_alists h q \<and> h_mds h' q = h_mds h q"
proof -
  have "q \<notin> set (tree_attrs t)" "q \<notin> set (tree_als t)" "q \<notin> set (tree_nodes t)" if "t \<in> set ts" for t
    using that assms(2) tree_parts [of t] by auto
  then show ?thesis using assms(1) unfolding released_def by (auto simp: restrict_map_def)
qed

text \<open>The release of one tree once its root is detached.\<close>

definition freeable :: "'z itself \<Rightarrow> mtree \<Rightarrow> bool" where
  "freeable T t \<longleftrightarrow> (\<forall>(h :: 'z mheap_scheme) n md L.
     shaped h t \<longrightarrow> distinct (owned t) \<longrightarrow>
     metadata_detach (mt_ptr t) h = Some (n, set_md (mt_ptr t) md (h\<lparr>h_links := L\<rparr>)) \<longrightarrow> md_parameters md = mt_al t \<longrightarrow>
     (\<forall>q \<in> set (owned t). q \<noteq> mt_ptr t \<longrightarrow> L q = h_links h q) \<longrightarrow>
     (\<exists>h'. metadata_free_rec (Inl (mt_ptr t)) h = Some h' \<and> released {} [t] (h\<lparr>h_links := L\<rparr>) h'))"

lemma freeableD:
  assumes "freeable TYPE('z) t" "shaped h t" "distinct (owned t)"
    "metadata_detach (mt_ptr t) h = Some (n, set_md (mt_ptr t) md (h\<lparr>h_links := L\<rparr>))" "md_parameters md = mt_al t"
    "\<And>q. q \<in> set (owned t) \<Longrightarrow> q \<noteq> mt_ptr t \<Longrightarrow> L q = h_links h q"
  shows "\<exists>h'. metadata_free_rec (Inl (mt_ptr t)) h = Some h' \<and> released {} [t] (h\<lparr>h_links := L\<rparr>) (h' :: 'z mheap_scheme)"
  using assms unfolding freeable_def by blast

text \<open>The first of the children \<open>t # ts\<close> of \<open>p\<close> is detached and released.\<close>

lemma first_child_free:
  fixes h :: "'z mheap_scheme"
  assumes "freeable TYPE('z) t" "shaped h t" "ring (h_links h) c (mt_ptr t # map mt_ptr ts)"
    "distinct (owned t)" "set (owned t) \<inter> set (concat (map owned ts)) = {}" "c \<notin> set (owned t)"
  shows "\<exists>h1 L. metadata_free_rec (Inl (mt_ptr t)) h = Some h1 \<and> released {} [t] (h\<lparr>h_links := L\<rparr>) h1
    \<and> ring L c (map mt_ptr ts) \<and> same_outside (set (c # mt_ptr t # map mt_ptr ts)) (h_links h) L"
proof -
  let ?f = "mt_ptr t"
  have r: "ring (h_links h) c ([] @ ?f # map mt_ptr ts)" using assms(3) by simp
  obtain md where md: "h_mds h ?f = Some md" "md_parameters md = mt_al t" using assms(2) by (cases t) auto
  obtain L n where L: "metadata_detach ?f h = Some (n, set_md ?f (md\<lparr>md_parent := NULL\<rparr>) (h\<lparr>h_links := L\<rparr>))"
    "ring L c (map mt_ptr ts)" "same_outside (set (c # ?f # map mt_ptr ts)) (h_links h) L"
    using metadata_detach_ring [OF r md(1)] by auto
  have "L q = h_links h q" if "q \<in> set (owned t)" "q \<noteq> ?f" for q
  proof -
    have "q \<notin> set (map mt_ptr ts)" using mt_ptr_apart [OF assms(5)] that(1) by blast
    then have "q \<notin> set (c # ?f # map mt_ptr ts)" using that assms(6) by auto
    then show ?thesis using L(3) unfolding same_outside_def by blast
  qed
  then show ?thesis using freeableD [OF assms(1,2,4) L(1)] md(2) L(2,3) by auto
qed

text \<open>The other children are still there afterwards.\<close>

lemma siblings_shaped:
  assumes "released {} [t] (h\<lparr>h_links := L\<rparr>) h1" "same_outside (set (c # mt_ptr t # map mt_ptr ts)) (h_links h) L"
    "shaped h u" "u \<in> set ts" "distinct (concat (map owned (t # ts)))" "c \<notin> set (concat (map owned (t # ts)))"
  shows "shaped h1 u"
proof (rule shaped_cong [OF assms(3)])
  show "distinct (owned u)" using assms(4,5) distinct_owned [of ts u] by simp
  have notin: "q \<notin> set (concat (map owned [t]))" if "q \<in> set (owned u)" for q using that assms(4,5) by auto
  show "h_attrs h1 q = h_attrs h q \<and> h_alists h1 q = h_alists h q \<and> h_mds h1 q = h_mds h q" if "q \<in> set (owned u)" for q
    using released_objects [OF assms(1) notin [OF that]] by simp
  show "h_links h1 q = h_links h q" if q: "q \<in> set (owned u)" "q \<noteq> mt_ptr u" for q
  proof -
    have "mt_ptr v \<noteq> q" if "v \<in> set ts" for v
      using same_tree_owner [of ts v u q] assms(4,5) q that by auto
    then have "q \<notin> set (c # mt_ptr t # map mt_ptr ts)" using notin [OF q(1)] q(1) assms(4,6) by auto
    then have "L q = h_links h q" using assms(2) unfolding same_outside_def by blast
    then show ?thesis using released_links(1) [OF assms(1) notin [OF q(1)]] by simp
  qed
qed

lemma released_Cons:
  assumes "released {} [t] (h\<lparr>h_links := L\<rparr>) h1" "same_outside (set (c # mt_ptr t # map mt_ptr ts)) (h_links h) L"
    "released {c} ts h1 h'" "c \<notin> set (owned t)"
  shows "released {c} (t # ts) h h'"
proof -
  have "h_links h' q = h_links h q" if "q \<notin> set (concat (map owned (t # ts))) \<union> {c}" for q
  proof -
    have "q \<notin> set (c # mt_ptr t # map mt_ptr ts)" using that mt_ptrs_owned [of ts] by auto
    then have "L q = h_links h q" using assms(2) unfolding same_outside_def by blast
    then show ?thesis using released_links(1) [OF assms(1), of q] released_links(1) [OF assms(3), of q] that by simp
  qed
  moreover have "h_links h' q = None" if "q \<in> set (concat (map owned (t # ts)))" for q
  proof (cases "q \<in> set (concat (map owned ts))")
    case True
    then show ?thesis by (rule released_links(2) [OF assms(3)])
  next
    case False
    then have "q \<in> set (owned t)" "q \<noteq> c" using that assms(4) by auto
    then show ?thesis using released_links(1) [OF assms(3) False] released_links(2) [OF assms(1), of q] by simp
  qed
  ultimately show ?thesis using assms(1,3) unfolding released_def by (auto simp: Un_commute)
qed

lemma forest_free:
  fixes h :: "'z mheap_scheme"
  assumes "\<And>t. t \<in> set ts \<Longrightarrow> freeable TYPE('z) t"
    and "\<And>t. t \<in> set ts \<Longrightarrow> shaped h t" "ring (h_links h) (children p) (map mt_ptr ts)"
    "distinct (concat (map owned ts))" "children p \<notin> set (concat (map owned ts))"
  shows "\<exists>h'. metadata_free_rec (Inr p) h = Some h' \<and> released {children p} ts h h' \<and> ring (h_links h') (children p) []"
  using assms
proof (induction ts arbitrary: h)
  case Nil
  then have "list_first (children p) (h_links h) = Some (children p)" by (auto simp: ring_def linked_def list_first_def)
  then show ?case using Nil.prems(3) by (subst metadata_free_rec.simps) (auto simp: released_def)
next
  case (Cons t ts)
  let ?c = "children p" and ?f = "mt_ptr t"
  have r: "ring (h_links h) ?c (?f # map mt_ptr ts)" using Cons.prems(3) by simp
  have d: "distinct (owned t)" "set (owned t) \<inter> set (concat (map owned ts)) = {}" "?c \<notin> set (owned t)"
    using Cons.prems(4,5) by auto
  obtain h1 L where h1: "metadata_free_rec (Inl ?f) h = Some h1" "released {} [t] (h\<lparr>h_links := L\<rparr>) h1"
    "ring L ?c (map mt_ptr ts)" "same_outside (set (?c # ?f # map mt_ptr ts)) (h_links h) L"
    using first_child_free [OF Cons.prems(1,2) r d] by auto
  have s1: "shaped h1 u" if "u \<in> set ts" for u
    using siblings_shaped [OF h1(2,4) _ that Cons.prems(4,5)] Cons.prems(2) that by auto
  have "h_links h1 q = L q" if "q \<in> set (?c # map mt_ptr ts)" for q
  proof -
    have "q \<notin> set (owned t)" using that mt_ptr_apart [OF d(2)] d(3) by (cases "q = ?c") auto
    then show ?thesis using released_links(1) [OF h1(2), of q] by simp
  qed
  then have "ring (h_links h1) ?c (map mt_ptr ts)" using h1(3) ring_cong [of ?c "map mt_ptr ts" "h_links h1" L] by blast
  then obtain h' where h': "metadata_free_rec (Inr p) h1 = Some h'" "released {?c} ts h1 h'" "ring (h_links h') ?c []"
    using Cons.IH [OF Cons.prems(1) s1] Cons.prems(4,5) by auto
  have "list_first ?c (h_links h) = Some ?f" "?f \<noteq> ?c" using r by (auto simp: ring_def linked_def list_first_def)
  then have "metadata_free_rec (Inr p) h = Some h'" using h1(1) h'(1) by (subst metadata_free_rec.simps) simp
  then show ?case using h'(3) released_Cons [OF h1(2,4) h'(2) d(3)] by blast
qed

lemma fold_free_attr_mds:
  "h_mds (fold free_attr xs h) = h_mds h" "h_brk (fold free_attr xs h) = h_brk h" "h_mem (fold free_attr xs h) = h_mem h"
  "mheap.more (fold free_attr xs h) = mheap.more h"
  by (induction xs arbitrary: h) (auto simp: free_attr_def)

text \<open>A detached root: its parameters and its children are as before, so the children can be released.\<close>

lemma detached_children:
  fixes h :: "'z mheap_scheme" and md :: metadata
  assumes "shaped h (MT p al xs ts)" "distinct (owned (MT p al xs ts))"
    "\<And>q. q \<in> set (owned (MT p al xs ts)) \<Longrightarrow> q \<noteq> p \<Longrightarrow> L q = h_links h q" "\<And>t. t \<in> set ts \<Longrightarrow> freeable TYPE('z) t"
  defines "h1 \<equiv> set_md p md (h\<lparr>h_links := L\<rparr>)"
  shows "\<exists>h2. metadata_free_rec (Inr p) h1 = Some h2 \<and> released {children p} ts h1 h2"
proof -
  let ?c = "children p"
  have Lq: "L q = h_links h q" if "q \<in> set (?c # al # xs @ concat (map owned ts))" for q
    using assms(2,3) that by auto
  have "shaped h1 t" if t: "t \<in> set ts" for t
  proof (rule shaped_cong)
    have own: "set (owned t) \<subseteq> set (concat (map owned ts))" using t by auto
    show "shaped h t" "distinct (owned t)" using assms(1,2) t distinct_owned [of ts t] by auto
    show "h_links h1 q = h_links h q" if "q \<in> set (owned t)" for q using Lq own that by (auto simp: h1_def)
    show "h_attrs h1 q = h_attrs h q \<and> h_alists h1 q = h_alists h q \<and> h_mds h1 q = h_mds h q" if "q \<in> set (owned t)" for q
      using own assms(2) that by (auto simp: h1_def)
  qed
  moreover have "ring (h_links h1) ?c (map mt_ptr ts)"
  proof -
    have "h_links h1 q = h_links h q" if "q \<in> set (?c # map mt_ptr ts)" for q
      using Lq that mt_ptrs_owned [of ts] by (auto simp: h1_def)
    then show ?thesis using assms(1) ring_cong [of ?c "map mt_ptr ts" "h_links h1" "h_links h"] by auto
  qed
  ultimately show ?thesis using forest_free [OF assms(4), of ts h1 p] assms(2) by auto
qed

lemma params_kept:
  assumes "alist h al xs vs" "released {children p} ts (set_md p md (h\<lparr>h_links := L\<rparr>)) h2" "distinct (owned (MT p al xs ts))"
    "\<And>q. q \<in> set (owned (MT p al xs ts)) \<Longrightarrow> q \<noteq> p \<Longrightarrow> L q = h_links h q"
  shows "alist h2 al xs vs"
proof (rule alist_cong [OF assms(1)])
  have notin: "q \<notin> set (concat (map owned ts))" "q \<noteq> children p" "q \<noteq> p" if "q \<in> set (al # xs)" for q
    using that assms(3) by auto
  show "h_links h2 q = h_links h q" if "q \<in> set (al # xs)" for q
    using released_links(1) [OF assms(2) notin(1) [OF that]] notin [OF that] that assms(4) [of q] by simp
  show "h_attrs h2 q = h_attrs h q" if "q \<in> set xs" for q
    using released_objects [OF assms(2) notin(1), of q] that by simp
  show "h_alists h2 al = h_alists h al" using released_objects [OF assms(2) notin(1), of al] by simp
qed

lemma released_root:
  assumes "released {children p} ts (set_md p md (h\<lparr>h_links := L\<rparr>)) h2"
  shows "released {} [MT p al xs ts] (h\<lparr>h_links := L\<rparr>) (free_md p (free_alist al (fold free_attr xs h2)))"
    (is "released _ [?t] _ ?h3")
proof -
  have lk: "h_links ?h3 q = (if q \<in> set (p # children p # al # xs) then None else h_links h2 q)" for q
    by (auto simp: free_md_def free_alist_def fold_free_attr restrict_map_def)
  have "h_links ?h3 q = L q" if "q \<notin> set (owned ?t)" for q
    using that released_links(1) [OF assms, of q] by (simp add: lk)
  moreover have "h_links ?h3 q = None" if "q \<in> set (owned ?t)" for q
    using that released_links(2) [OF assms, of q] by (auto simp: lk)
  moreover have "h_attrs ?h3 = h_attrs h |` (- set (tree_attrs ?t))" "h_alists ?h3 = h_alists h |` (- set (tree_als ?t))"
    "h_mds ?h3 = h_mds h |` (- set (tree_nodes ?t))"
    using assms by (auto simp: free_md_def free_alist_def fold_free_attr fold_free_attr_mds released_def restrict_map_def fun_eq_iff)
  moreover have "h_brk ?h3 = h_brk h" "h_mem ?h3 = h_mem h" "mheap.more ?h3 = mheap.more h"
    using assms by (simp_all add: free_md_def free_alist_def fold_free_attr_mds released_def set_md_def)
  ultimately show ?thesis by (simp add: released_def)
qed

lemma tree_freeable: "freeable TYPE('z) t"
proof (induction t)
  case (MT p al xs ts)
  let ?t = "MT p al xs ts"
  show ?case
    unfolding freeable_def
  proof (intro allI impI)
    fix h :: "'z mheap_scheme" and n md L
    assume s: "shaped h ?t" and d: "distinct (owned ?t)"
      and det: "metadata_detach (mt_ptr ?t) h = Some (n, set_md (mt_ptr ?t) md (h\<lparr>h_links := L\<rparr>))"
      and al: "md_parameters md = mt_al ?t" and "\<forall>q \<in> set (owned ?t). q \<noteq> mt_ptr ?t \<longrightarrow> L q = h_links h q"
    then have L: "L q = h_links h q" if "q \<in> set (owned ?t)" "q \<noteq> p" for q
      using that by (metis mtree.sel(1))
    obtain h2 where h2: "metadata_free_rec (Inr p) (set_md p md (h\<lparr>h_links := L\<rparr>)) = Some h2"
      "released {children p} ts (set_md p md (h\<lparr>h_links := L\<rparr>)) h2"
      using detached_children [OF s d L MT.IH] by blast
    obtain vs where "alist h al xs vs" using s by auto
    then have "haggle_attributelist_free al h2 = Some (free_alist al (fold free_attr xs h2))"
      using params_kept [OF _ h2(2) d L] free_alist_all by blast
    moreover have "h_mds h2 p = Some md" using released_objects [OF h2(2), of p] d by simp
    ultimately have "metadata_free_rec (Inl p) h = Some (free_md p (free_alist al (fold free_attr xs h2)))"
      using det h2(1) al by (subst metadata_free_rec.simps) auto
    then show "\<exists>h'. metadata_free_rec (Inl (mt_ptr ?t)) h = Some h' \<and> released {} [?t] (h\<lparr>h_links := L\<rparr>) h'"
      using released_root [OF h2(2)] by auto
  qed
qed

lemma metadata_free_child:
  fixes h :: "'z mheap_scheme"
  assumes "shaped h t" "distinct (owned t)" "ring (h_links h) (children q) (as @ mt_ptr t # bs)"
    "set (children q # as @ bs) \<inter> set (owned t) = {}"
  shows "\<exists>h'. metadata_free (mt_ptr t) h = Some h' \<and> ring (h_links h') (children q) (as @ bs)
    \<and> released (set (children q # as @ bs)) [t] h h'"
proof -
  obtain md where md: "h_mds h (mt_ptr t) = Some md" "md_parameters md = mt_al t" "mt_ptr t \<noteq> NULL" using assms(1) by (cases t) auto
  obtain L n where L: "metadata_detach (mt_ptr t) h = Some (n, set_md (mt_ptr t) (md\<lparr>md_parent := NULL\<rparr>) (h\<lparr>h_links := L\<rparr>))"
    "ring L (children q) (as @ bs)" "same_outside (set (children q # as @ mt_ptr t # bs)) (h_links h) L"
    using metadata_detach_ring [OF assms(3) md(1)] by blast
  have keep: "L r = h_links h r" if "r \<in> set (owned t)" "r \<noteq> mt_ptr t" for r
  proof -
    have "r \<notin> set (children q # as @ mt_ptr t # bs)" using that assms(4) by auto
    then show ?thesis using L(3) unfolding same_outside_def by blast
  qed
  obtain h' where h': "metadata_free_rec (Inl (mt_ptr t)) h = Some h'" "released {} [t] (h\<lparr>h_links := L\<rparr>) h'"
    using freeableD [OF tree_freeable assms(1,2) L(1) _ keep] md(2) by auto
  have "ring (h_links h') (children q) (as @ bs)"
  proof -
    have "h_links h' r = L r" if "r \<in> set (children q # as @ bs)" for r
      using that assms(4) released_links(1) [OF h'(2), of r] by auto
    then show ?thesis using L(2) ring_cong [of "children q" "as @ bs" "h_links h'" L] by blast
  qed
  moreover have "released (set (children q # as @ bs)) [t] h h'"
  proof -
    have "h_links h' r = h_links h r" if r: "r \<notin> set (owned t) \<union> set (children q # as @ bs)" for r
    proof -
      have "r \<notin> set (children q # as @ mt_ptr t # bs)" using r mt_ptr_owned [of t] by auto
      then have "L r = h_links h r" using L(3) unfolding same_outside_def by blast
      then show ?thesis using released_links(1) [OF h'(2), of r] r by simp
    qed
    then show ?thesis using h'(2) unfolding released_def by simp
  qed
  ultimately show ?thesis using h'(1) md(3) by (auto simp: metadata_free_def)
qed

text \<open>A root, which is linked to itself.\<close>

lemma metadata_free_root:
  fixes h :: "'z mheap_scheme"
  assumes "shaped h t" "distinct (owned t)" "h_links h (mt_ptr t) = Some \<lparr>l_prev = mt_ptr t, l_next = mt_ptr t\<rparr>"
  shows "\<exists>h'. metadata_free (mt_ptr t) h = Some h' \<and> released {} [t] h h'"
proof -
  obtain md where md: "h_mds h (mt_ptr t) = Some md" "md_parameters md = mt_al t" "mt_ptr t \<noteq> NULL" using assms(1) by (cases t) auto
  let ?L = "(h_links h)(mt_ptr t \<mapsto> \<lparr>l_prev = NULL, l_next = NULL\<rparr>)"
  have "metadata_detach (mt_ptr t) h
      = Some (HAGGLE_NO_ERROR, set_md (mt_ptr t) (md\<lparr>md_parent := NULL\<rparr>) (h\<lparr>h_links := ?L\<rparr>))"
    using assms(3) md by (simp add: metadata_detach_def list_detach_def listelm_detach_def set_next_def set_prev_def)
  then obtain h' where h': "metadata_free_rec (Inl (mt_ptr t)) h = Some h'" "released {} [t] (h\<lparr>h_links := ?L\<rparr>) h'"
    using freeableD [OF tree_freeable assms(1,2), of _ "md\<lparr>md_parent := NULL\<rparr>" ?L] md(2) by auto
  then show ?thesis using md(3) unfolding released_def by (auto simp: metadata_free_def)
qed

text \<open>
  C17: \<open>metadata_free\<close> ends and releases the node with everything below it: every node, parameter list and parameter of the
  tree, and nothing else.  A root, which is in no list, leaves every other link as it is; a child is first taken out of the children of its
  parent, which stay in order.
\<close>

theorem metadata_free_releases:
  assumes "shaped h t" "distinct (owned t)"
  shows "(h_links h (mt_ptr t) = Some \<lparr>l_prev = mt_ptr t, l_next = mt_ptr t\<rparr> \<longrightarrow>
      (\<exists>h'. metadata_free (mt_ptr t) h = Some h' \<and> (\<forall>r \<in> set (owned t). h_links h' r = None)
        \<and> (\<forall>r. r \<notin> set (owned t) \<longrightarrow> h_links h' r = h_links h r)
        \<and> h_attrs h' = h_attrs h |` (- set (tree_attrs t)) \<and> h_alists h' = h_alists h |` (- set (tree_als t))
        \<and> h_mds h' = h_mds h |` (- set (tree_nodes t))))
    \<and> (\<forall>q as bs. ring (h_links h) (children q) (as @ mt_ptr t # bs) \<and> set (children q # as @ bs) \<inter> set (owned t) = {} \<longrightarrow>
      (\<exists>h'. metadata_free (mt_ptr t) h = Some h' \<and> ring (h_links h') (children q) (as @ bs)
        \<and> (\<forall>r \<in> set (owned t). h_links h' r = None)
        \<and> (\<forall>r. r \<notin> set (owned t) \<union> set (children q # as @ bs) \<longrightarrow> h_links h' r = h_links h r)
        \<and> h_attrs h' = h_attrs h |` (- set (tree_attrs t)) \<and> h_alists h' = h_alists h |` (- set (tree_als t))
        \<and> h_mds h' = h_mds h |` (- set (tree_nodes t))))"
proof (intro conjI allI impI; (elim conjE)?)
  assume "h_links h (mt_ptr t) = Some \<lparr>l_prev = mt_ptr t, l_next = mt_ptr t\<rparr>"
  from metadata_free_root [OF assms this]
  show "\<exists>h'. metadata_free (mt_ptr t) h = Some h' \<and> (\<forall>r \<in> set (owned t). h_links h' r = None)
        \<and> (\<forall>r. r \<notin> set (owned t) \<longrightarrow> h_links h' r = h_links h r)
        \<and> h_attrs h' = h_attrs h |` (- set (tree_attrs t)) \<and> h_alists h' = h_alists h |` (- set (tree_als t))
        \<and> h_mds h' = h_mds h |` (- set (tree_nodes t))" unfolding released_def by auto
next
  fix q as bs
  assume "ring (h_links h) (children q) (as @ mt_ptr t # bs)" "set (children q # as @ bs) \<inter> set (owned t) = {}"
  from metadata_free_child [OF assms this]
  show "\<exists>h'. metadata_free (mt_ptr t) h = Some h' \<and> ring (h_links h') (children q) (as @ bs)
        \<and> (\<forall>r \<in> set (owned t). h_links h' r = None)
        \<and> (\<forall>r. r \<notin> set (owned t) \<union> set (children q # as @ bs) \<longrightarrow> h_links h' r = h_links h r)
        \<and> h_attrs h' = h_attrs h |` (- set (tree_attrs t)) \<and> h_alists h' = h_alists h |` (- set (tree_als t))
        \<and> h_mds h' = h_mds h |` (- set (tree_nodes t))" unfolding released_def by auto
qed

text \<open>A child of a tree, and the same node on its own.\<close>

definition sample_root :: mheap where
  "sample_root = sample_tree\<lparr>h_links := (h_links sample_tree)(17 \<mapsto> \<lparr>l_prev = 17, l_next = 17\<rparr>)\<rparr>"

theorem metadata_free_releases_witness:
  "(\<exists>h'. metadata_free 17 sample_tree = Some h' \<and> ring (h_links h') 2 [9, 25] \<and> h_mds h' 17 = None \<and> h_alists h' 21 = None)
   \<and> (\<exists>h'. metadata_free 17 sample_root = Some h' \<and> h_links h' 17 = None \<and> h_mds h' 17 = None \<and> h_mds h' 9 = h_mds sample_root 9)"
proof
  have l: "alist sample_tree 21 [] []" "ring (h_links sample_tree) 18 []"
    by (simp_all add: sample_tree_def alist_def ring_def linked_def metadata_new_def metadata_set_name_def
      metadata_set_content_def metadata_add_def metadata_detach_def set_md_def haggle_attributelist_new_def malloc_def
      malloc_ok_def INIT_LIST_def list_add_tail_def listelm_add_def list_detach_def listelm_detach_def
      set_next_def set_prev_def Let_def)
  then have "shaped sample_tree (MT 17 21 [] [])" using sample_tree_facts(5) by auto
  then show "\<exists>h'. metadata_free 17 sample_tree = Some h' \<and> ring (h_links h') 2 [9, 25] \<and> h_mds h' 17 = None \<and> h_alists h' 21 = None"
    using metadata_free_releases [of sample_tree "MT 17 21 [] []", THEN conjunct2, rule_format, of 1 "[9]" "[25]"] sample_tree_facts(1)
    by (auto simp: numeral_2_eq_2)
  have "alist sample_root 21 [] []" "ring (h_links sample_root) 18 []" using l by (simp_all add: sample_root_def alist_def ring_def linked_def)
  then have "shaped sample_root (MT 17 21 [] [])" using sample_tree_facts(5) by (auto simp: sample_root_def)
  then show "\<exists>h'. metadata_free 17 sample_root = Some h' \<and> h_links h' 17 = None \<and> h_mds h' 17 = None \<and> h_mds h' 9 = h_mds sample_root 9"
    using metadata_free_releases [of sample_root "MT 17 21 [] []"] by (auto simp: sample_root_def)
qed

end
