(* ===== verification/Metadata_Tree.thy ===== *)
theory Metadata_Tree
  imports Metadata
begin

text \<open>
  The abstraction of metadata in memory to trees of values: a node with a name, a content, its parameters in
  order and its children.  Every operation of \<open>src/src/libhaggle/metadata.c\<close> that builds a tree is shown to
  implement the operation on the values, and to leave everything outside the tree alone.
\<close>

section \<open>Trees of values\<close>

datatype meta = Meta (me_name: string) (me_content: "string option") (me_params: "(string \<times> string) list") (me_subs: "meta list")

text \<open>Setting a parameter replaces the value in its place or appends the parameter.\<close>

fun put_param :: "(string \<times> string) list \<Rightarrow> string \<Rightarrow> string \<Rightarrow> (string \<times> string) list" where
  "put_param [] n v = [(n, v)]"
| "put_param (p # ps) n v = (if fst p = n then (n, v) # ps else p # put_param ps n v)"

lemma put_param_new: "n \<notin> fst ` set ps \<Longrightarrow> put_param ps n v = ps @ [(n, v)]"
  by (induction ps) auto

lemma put_param_old: "n \<notin> fst ` set ps \<Longrightarrow> put_param (ps @ (n, w) # qs) n v = ps @ (n, v) # qs"
  by (induction ps) auto

lemma map_of_put_param: "map_of (put_param ps n v) = (map_of ps)(n \<mapsto> v)"
  by (induction ps) (auto simp: fun_eq_iff)

lemma put_param_names: "fst ` set (put_param ps n v) = insert n (fst ` set ps)"
  by (induction ps) (auto simp: image_iff)

lemma value_of_plain: "value_of (map plain_attr ps) n = map_of ps n"
  by (induction ps) (auto simp: plain_attr_def)

section \<open>The tree in memory\<close>

text \<open>The members of a node that the iterators do not touch.\<close>

definition core :: "metadata \<Rightarrow> string option \<times> string option \<times> ptr" where
  "core md = (md_name md, md_content md, md_parameters md)"

primrec holds :: "'z mheap_scheme \<Rightarrow> mtree \<Rightarrow> meta \<Rightarrow> bool" where
  "holds h (MT p al xs ts) = (\<lambda>v. p \<noteq> NULL
     \<and> map_option core (h_mds h p) = Some (Some (me_name v), me_content v, al)
     \<and> alist h al xs (map plain_attr (me_params v)) \<and> ring (h_links h) (children p) (map mt_ptr ts)
     \<and> list_all2 (\<lambda>f m. f m) (map (holds h) ts) (me_subs v))"

lemma holds_MT:
  "holds h (MT p al xs ts) (Meta nm c ps ms) \<longleftrightarrow> p \<noteq> NULL
     \<and> map_option core (h_mds h p) = Some (Some nm, c, al)
     \<and> alist h al xs (map plain_attr ps) \<and> ring (h_links h) (children p) (map mt_ptr ts) \<and> list_all2 (holds h) ts ms"
  by (simp add: list_all2_map1)

declare holds.simps [simp del]

lemma holds_shaped: "holds h t v \<Longrightarrow> shaped h t"
proof (induction t arbitrary: v)
  case (MT p al xs ts)
  obtain nm c ps ms where v: "v = Meta nm c ps ms" by (cases v)
  have "shaped h t" if "t \<in> set ts" for t
    using MT.IH [OF that] MT.prems that by (auto simp: v holds_MT list_all2_conv_all_nth in_set_conv_nth)
  then show ?case using MT.prems by (auto simp: v holds_MT core_def)
qed

text \<open>Memories that agree on the objects of a tree, except for the links of its root, hold the same tree there.\<close>

definition agree :: "ptr set \<Rightarrow> ptr set \<Rightarrow> 'z mheap_scheme \<Rightarrow> 'z mheap_scheme \<Rightarrow> bool" where
  "agree K A h h' \<longleftrightarrow> (\<forall>q \<in> K. h_links h' q = h_links h q)
     \<and> (\<forall>q \<in> A. h_attrs h' q = h_attrs h q \<and> h_alists h' q = h_alists h q
          \<and> map_option core (h_mds h' q) = map_option core (h_mds h q))"

lemma agree_mono: "agree K A h h' \<Longrightarrow> K' \<subseteq> K \<Longrightarrow> A' \<subseteq> A \<Longrightarrow> agree K' A' h h'"
  unfolding agree_def by blast

lemma agreeD:
  assumes "agree K A h h'"
  shows "q \<in> K \<Longrightarrow> h_links h' q = h_links h q" "q \<in> A \<Longrightarrow> h_attrs h' q = h_attrs h q"
    "q \<in> A \<Longrightarrow> h_alists h' q = h_alists h q" "q \<in> A \<Longrightarrow> map_option core (h_mds h' q) = map_option core (h_mds h q)"
  using assms unfolding agree_def by blast+

lemma agree_alist: "agree K A h h' \<Longrightarrow> alist h al xs vs \<Longrightarrow> set (al # xs) \<subseteq> K \<inter> A \<Longrightarrow> alist h' al xs vs"
  by (rule alist_cong) (auto simp: agreeD)

lemma agree_ring: "agree K A h h' \<Longrightarrow> ring (h_links h) q cs \<Longrightarrow> set (q # cs) \<subseteq> K \<Longrightarrow> ring (h_links h') q cs"
  using ring_cong [of q cs "h_links h'" "h_links h"] agreeD(1) [of K A h h'] by blast

lemma holds_cong:
  assumes "holds h t v" "distinct (owned t)" "agree (set (owned t) - {mt_ptr t}) (set (owned t)) h h'"
  shows "holds h' t v"
  using assms
proof (induction t arbitrary: v)
  case (MT p al xs ts)
  obtain nm c ps ms where v: "v = Meta nm c ps ms" by (cases v)
  let ?below = "set (concat (map owned ts))"
  have ag: "agree ({children p, al} \<union> set xs \<union> ?below) ({p, al} \<union> set xs \<union> ?below) h h'"
    by (rule agree_mono [OF MT.prems(3)]) (use MT.prems(2) in auto)
  have "alist h' al xs (map plain_attr ps)"
    by (rule agree_alist [OF ag]) (use MT.prems(1) in \<open>auto simp: v holds_MT\<close>)
  moreover have "ring (h_links h') (children p) (map mt_ptr ts)"
  proof (rule agree_ring [OF ag])
    show "set (children p # map mt_ptr ts) \<subseteq> {children p, al} \<union> set xs \<union> ?below" using mt_ptrs_owned [of ts] by auto
  qed (use MT.prems(1) in \<open>simp add: v holds_MT\<close>)
  moreover have "holds h' t w" if t: "t \<in> set ts" and "holds h t w" for t w
  proof (rule MT.IH [OF that])
    have own: "set (owned t) \<subseteq> ?below" using t by auto
    show "distinct (owned t)" using MT.prems(2) t distinct_owned [of ts t] by simp
    show "agree (set (owned t) - {mt_ptr t}) (set (owned t)) h h'" by (rule agree_mono [OF ag]) (use own in blast)+
  qed
  then have "list_all2 (holds h') ts ms"
    using MT.prems(1) by (auto simp: v holds_MT list_all2_conv_all_nth)
  moreover have "map_option core (h_mds h' p) = map_option core (h_mds h p)" using agreeD(4) [OF ag, of p] by simp
  ultimately show ?case using MT.prems(1) by (simp add: v holds_MT)
qed

section \<open>A tree that grows\<close>

text \<open>The memory, in which allocations succeed, holds the tree in objects of its own.\<close>

definition tree_in :: "'z mheap_scheme \<Rightarrow> mtree \<Rightarrow> meta \<Rightarrow> bool" where
  "tree_in h t v \<longleftrightarrow> wf_heap h \<and> h_mem h = [] \<and> holds h t v \<and> distinct (owned t) \<and> (\<forall>q \<in> set (owned t). q < h_brk h)"

text \<open>
  The tree was changed in place: it may own new objects, and the objects outside it and the list that its root is
  in are as before.  In particular nothing was allocated that the tree does not own.
\<close>

definition grows :: "mtree \<Rightarrow> 'z mheap_scheme \<Rightarrow> mtree \<Rightarrow> 'z mheap_scheme \<Rightarrow> bool" where
  "grows t h t' h' \<longleftrightarrow> mt_ptr t' = mt_ptr t \<and> h_brk h \<le> h_brk h' \<and> mheap.more h' = mheap.more h
     \<and> set (owned t) \<subseteq> set (owned t') \<and> (\<forall>q \<in> set (owned t'). q \<in> set (owned t) \<or> h_brk h \<le> q)
     \<and> (\<forall>q. q \<notin> set (owned t') \<longrightarrow> h_links h' q = h_links h q \<and> h_attrs h' q = h_attrs h q
          \<and> h_alists h' q = h_alists h q \<and> h_mds h' q = h_mds h q)
     \<and> h_links h' (mt_ptr t) = h_links h (mt_ptr t)"

lemma grows_refl: "grows t h t h"
  by (simp add: grows_def)

lemma grows_trans:
  assumes "grows t h t1 h1" "grows t1 h1 t2 h2"
  shows "grows t h t2 h2"
proof -
  have "q \<in> set (owned t) \<or> h_brk h \<le> q" if "q \<in> set (owned t2)" for q
    using assms that unfolding grows_def by (meson le_trans)
  moreover have "q \<notin> set (owned t1)" if "q \<notin> set (owned t2)" for q
    using assms(2) that unfolding grows_def by blast
  ultimately show ?thesis using assms unfolding grows_def by auto
qed

lemma grows_agree:
  assumes "grows t h t' h'" "A \<inter> set (owned t) = {}" "\<forall>q \<in> A. q < h_brk h"
  shows "agree (insert (mt_ptr t) A) A h h'"
proof -
  have "q \<notin> set (owned t')" if "q \<in> A" for q using assms that unfolding grows_def by (meson disjoint_iff not_le)
  then show ?thesis using assms(1) unfolding agree_def grows_def by auto
qed

lemma tree_in_child:
  "tree_in h (MT p al xs ts) (Meta nm c ps ms) \<Longrightarrow> i < length ts \<Longrightarrow> tree_in h (ts ! i) (ms ! i)"
proof -
  assume a: "tree_in h (MT p al xs ts) (Meta nm c ps ms)" "i < length ts"
  then have "ts ! i \<in> set ts" "distinct (concat (map owned ts))" by (auto simp: tree_in_def)
  then show ?thesis
    using a distinct_owned [of ts "ts ! i"] by (auto simp: tree_in_def holds_MT list_all2_conv_all_nth)
qed

text \<open>The tree \<open>t\<close> has become the tree \<open>t'\<close> with the values \<open>v'\<close>.\<close>

definition becomes :: "mtree \<Rightarrow> 'z mheap_scheme \<Rightarrow> mtree \<Rightarrow> meta \<Rightarrow> 'z mheap_scheme \<Rightarrow> bool" where
  "becomes t h t' v' h' \<longleftrightarrow> tree_in h' t' v' \<and> grows t h t' h'"

lemma becomes_trans [trans]: "becomes t h t1 v1 h1 \<Longrightarrow> becomes t1 h1 t2 v2 h2 \<Longrightarrow> becomes t h t2 v2 h2"
  unfolding becomes_def using grows_trans by blast

lemma becomes_refl: "tree_in h t v \<Longrightarrow> becomes t h t v h"
  by (simp add: becomes_def grows_refl)

lemma tree_in_MT:
  "tree_in h (MT p al xs ts) (Meta nm c ps ms) \<longleftrightarrow> wf_heap h \<and> h_mem h = [] \<and> p \<noteq> NULL
     \<and> map_option core (h_mds h p) = Some (Some nm, c, al)
     \<and> alist h al xs (map plain_attr ps) \<and> ring (h_links h) (children p) (map mt_ptr ts) \<and> list_all2 (holds h) ts ms
     \<and> distinct (owned (MT p al xs ts)) \<and> (\<forall>q \<in> set (owned (MT p al xs ts)). q < h_brk h)"
  unfolding tree_in_def holds_MT by blast

text \<open>Objects that are old or new are apart from other old ones.\<close>

lemma apart:
  fixes b :: nat
  assumes "\<forall>q \<in> B. q \<in> C \<or> b \<le> q" "A \<inter> C = {}" "\<forall>q \<in> A. q < b"
  shows "B \<inter> A = {}"
  using assms not_le by blast

lemma grows_within:
  assumes "grows t h t' h'" "set (owned t) \<subseteq> set (owned u)" "set (owned u') = set (owned u) \<union> set (owned t')"
    "mt_ptr u' = mt_ptr u" "h_links h' (mt_ptr u) = h_links h (mt_ptr u)"
  shows "grows u h u' h'"
proof -
  have "q \<in> set (owned u) \<or> h_brk h \<le> q" if "q \<in> set (owned u')" for q
    using that assms(1-3) unfolding grows_def by blast
  then show ?thesis using assms unfolding grows_def by blast
qed

text \<open>A change below one child.\<close>

lemma tree_in_sub:
  fixes ts1 ts2 :: "mtree list"
  assumes "tree_in h (MT p al xs (ts1 @ t # ts2)) (Meta nm c ps (ms1 @ v # ms2))" "length ms1 = length ts1"
    and "becomes t h t' v' h'"
  shows "becomes (MT p al xs (ts1 @ t # ts2)) h (MT p al xs (ts1 @ t' # ts2)) (Meta nm c ps (ms1 @ v' # ms2)) h'"
proof -
  have g: "tree_in h' t' v'" "grows t h t' h'" using assms(3) by (simp_all add: becomes_def)
  let ?o = "set (concat (map owned (ts1 @ ts2)))"
  let ?A = "{p, children p, al} \<union> set xs \<union> ?o"
  note T0 = assms(1) [unfolded tree_in_MT]
  have T: "alist h al xs (map plain_attr ps)" "ring (h_links h) (children p) (map mt_ptr (ts1 @ t # ts2))"
    "list_all2 (holds h) (ts1 @ t # ts2) (ms1 @ v # ms2)" "distinct (owned (MT p al xs (ts1 @ t # ts2)))"
    "\<forall>q \<in> set (owned (MT p al xs (ts1 @ t # ts2))). q < h_brk h" using T0 by blast+
  have A: "?A \<inter> set (owned t) = {}" "\<forall>q \<in> ?A. q < h_brk h" using T(4,5) by auto
  then have ag: "agree (insert (mt_ptr t) ?A) ?A h h'" by (rule grows_agree [OF g(2)])
  have "alist h' al xs (map plain_attr ps)" by (rule agree_alist [OF ag T(1)]) auto
  moreover have "ring (h_links h') (children p) (map mt_ptr (ts1 @ t # ts2))"
    by (rule agree_ring [OF ag T(2)]) (use mt_ptrs_owned [of "ts1 @ ts2"] in auto)
  moreover have oth: "holds h' u w" if "u \<in> set (ts1 @ ts2)" "holds h u w" for u w
  proof (rule holds_cong [OF that(2)])
    show "distinct (owned u)" using T(4) distinct_owned [of "ts1 @ t # ts2" u] that(1) by auto
    show "agree (set (owned u) - {mt_ptr u}) (set (owned u)) h h'" by (rule agree_mono [OF ag]) (use that(1) in auto)
  qed
  have sub: "list_all2 (holds h') (ts1 @ t' # ts2) (ms1 @ v' # ms2)"
  proof -
    have "list_all2 (holds h) ts1 ms1" "list_all2 (holds h) ts2 ms2" using T(3) assms(2) by (auto simp: list_all2_append)
    then have "list_all2 (holds h') ts1 ms1" "list_all2 (holds h') ts2 ms2"
      by (auto elim!: list.rel_mono_strong intro: oth)
    then show ?thesis using assms(2) g(1) by (simp add: tree_in_def list_all2_append)
  qed
  have new: "\<forall>q \<in> set (owned t'). q \<in> set (owned t) \<or> h_brk h \<le> q" "mt_ptr t' = mt_ptr t" "h_brk h \<le> h_brk h'"
    using g(2) by (auto simp: grows_def)
  have dis: "set (owned t') \<inter> ?A = {}" by (rule apart [OF new(1) A])
  have "distinct (owned (MT p al xs (ts1 @ t # ts2)))" "distinct (owned t')" using assms(1) g(1) by (simp_all add: tree_in_def)
  then have "distinct (owned (MT p al xs (ts1 @ t' # ts2)))" using dis by auto
  moreover have "\<forall>q \<in> ?A \<union> set (owned t'). q < h_brk h'"
    using A(2) less_le_trans [OF _ new(3)] g(1) unfolding tree_in_def by blast
  then have "\<forall>q \<in> set (owned (MT p al xs (ts1 @ t' # ts2))). q < h_brk h'" by auto
  moreover have "map_option core (h_mds h' p) = map_option core (h_mds h p)" using agreeD(4) [OF ag, of p] by simp
  ultimately have "tree_in h' (MT p al xs (ts1 @ t' # ts2)) (Meta nm c ps (ms1 @ v' # ms2))"
    using T0 g(1) new(2) sub unfolding tree_in_MT by (simp add: tree_in_def del: owned.simps)
  moreover have "h_links h' p = h_links h p" using agreeD(1) [OF ag, of p] by simp
  then have "grows (MT p al xs (ts1 @ t # ts2)) h (MT p al xs (ts1 @ t' # ts2)) h'"
    using g(2) by (intro grows_within [OF g(2)]) (auto simp: grows_def)
  ultimately show ?thesis by (simp add: becomes_def)
qed

text \<open>A change at the root: its content, its parameters, or new children after the others.\<close>

lemma tree_in_root:
  assumes "tree_in h (MT p al xs ts) (Meta nm c ps ms)"
    and "wf_heap h'" "h_mem h' = []" "h_brk h \<le> h_brk h'" "mheap.more h' = mheap.more h"
    and "map_option core (h_mds h' p) = Some (Some nm, c', al)" "alist h' al xs' (map plain_attr ps')"
    and "ring (h_links h') (children p) (map mt_ptr (ts @ ts'))" "list_all2 (holds h') ts' ms'"
    and new: "distinct (concat (map owned ts'))" "\<forall>q \<in> set (concat (map owned ts')). h_brk h \<le> q \<and> q < h_brk h' \<and> q \<notin> set xs'"
      "\<forall>q \<in> set xs'. q \<in> set xs \<or> h_brk h \<le> q" "set xs \<subseteq> set xs'"
    and K: "\<And>q. q \<notin> {children p, al} \<union> set xs' \<union> mt_ptr ` set ts \<union> set (concat (map owned ts')) \<Longrightarrow> h_links h' q = h_links h q"
    and A: "\<And>q. q \<notin> {p, al} \<union> set xs' \<union> set (concat (map owned ts'))
        \<Longrightarrow> h_attrs h' q = h_attrs h q \<and> h_alists h' q = h_alists h q \<and> h_mds h' q = h_mds h q"
  shows "becomes (MT p al xs ts) h (MT p al xs' (ts @ ts')) (Meta nm c' ps' (ms @ ms')) h'"
proof -
  note T = assms(1) [unfolded tree_in_MT]
  have old: "q \<notin> set xs' \<union> set (concat (map owned ts'))" if "q < h_brk h" "q \<notin> set xs" for q
    using that new(2,3) by (meson Un_iff not_le)
  have K': "h_links h' q = h_links h q" if "q < h_brk h" "q \<notin> {children p, al} \<union> set xs \<union> mt_ptr ` set ts" for q
    by (rule K) (use old [of q] that in blast)
  have A': "h_attrs h' q = h_attrs h q \<and> h_alists h' q = h_alists h q \<and> h_mds h' q = h_mds h q"
    if "q < h_brk h" "q \<notin> {p, al} \<union> set xs" for q
    by (rule A) (use old [of q] that in blast)
  have "holds h' t w" if t: "t \<in> set ts" "holds h t w" for t w
  proof (rule holds_cong [OF t(2)])
    show "distinct (owned t)" using T distinct_owned [of ts t] t(1) by auto
    have "q \<notin> {children p, al} \<union> set xs \<union> mt_ptr ` set ts" "q < h_brk h" if q: "q \<in> set (owned t) - {mt_ptr t}" for q
    proof -
      have "mt_ptr u \<noteq> q" if "u \<in> set ts" for u
        using same_tree_owner [of ts u t q] T q t(1) that by auto
      then show "q \<notin> {children p, al} \<union> set xs \<union> mt_ptr ` set ts" "q < h_brk h" using T q t(1) by auto
    qed
    moreover have "q \<notin> {p, al} \<union> set xs" "q < h_brk h" if "q \<in> set (owned t)" for q using T t(1) that by auto
    ultimately show "agree (set (owned t) - {mt_ptr t}) (set (owned t)) h h'" unfolding agree_def using K' A' by simp
  qed
  then have sub: "list_all2 (holds h') (ts @ ts') (ms @ ms')"
    using T assms(9) by (auto intro!: list_all2_appendI elim!: list.rel_mono_strong)
  have "distinct xs'" using assms(7) by (auto simp: alist_def ring_def)
  moreover have xs': "q < h_brk h'" if "q \<in> set xs'" for q using alist_below [OF assms(2,7), of q] that by simp
  moreover have "set xs' \<inter> ({p, children p, al} \<union> set (concat (map owned ts))) = {}"
    by (rule apart [OF new(3)]) (use T in auto)
  moreover have "set (concat (map owned ts')) \<inter> ({p, children p, al} \<union> set (concat (map owned ts))) = {}"
    by (rule apart [of _ "{}" "h_brk h"]) (use T new(2) in auto)
  moreover have "\<forall>q \<in> set (concat (map owned ts')). q \<notin> set xs'" "distinct (owned (MT p al xs ts))" using new(2) T by blast+
  ultimately have "distinct (owned (MT p al xs' (ts @ ts')))" using new(1) by auto
  moreover have "\<forall>q \<in> {p, children p, al} \<union> set (concat (map owned ts)). q < h_brk h"
    using T by simp
  then have "\<forall>q \<in> {p, children p, al} \<union> set (concat (map owned ts)). q < h_brk h'"
    using less_le_trans [OF _ assms(4)] by blast
  then have "\<forall>q \<in> set (owned (MT p al xs' (ts @ ts'))). q < h_brk h'" using new(2) xs' by auto
  ultimately have t: "tree_in h' (MT p al xs' (ts @ ts')) (Meta nm c' ps' (ms @ ms'))"
    using T assms(2,3,6-8) sub unfolding tree_in_MT by (simp del: owned.simps)
  have "p \<notin> {children p, al} \<union> set xs \<union> mt_ptr ` set ts" "p < h_brk h" using T mt_ptrs_owned [of ts] by auto
  then have "h_links h' p = h_links h p" by (intro K')
  moreover have "h_links h' q = h_links h q \<and> h_attrs h' q = h_attrs h q \<and> h_alists h' q = h_alists h q \<and> h_mds h' q = h_mds h q"
    if q: "q \<notin> set (owned (MT p al xs' (ts @ ts')))" for q
  proof -
    have "q \<notin> {p, children p, al} \<union> set xs' \<union> set (concat (map owned ts)) \<union> set (concat (map owned ts'))" using q by auto
    then show ?thesis using K [of q] A [of q] mt_ptrs_owned [of ts] by blast
  qed
  moreover have "q \<in> set (owned (MT p al xs ts)) \<or> h_brk h \<le> q" if "q \<in> set (owned (MT p al xs' (ts @ ts')))" for q
    using that new(2,3) by auto
  ultimately have "grows (MT p al xs ts) h (MT p al xs' (ts @ ts')) h'"
    using assms(4,5) new(4) unfolding grows_def by auto
  then show ?thesis using t by (simp add: becomes_def)
qed

section \<open>The operations on a tree\<close>

lemma root_ring_apart:
  assumes "tree_in h (MT p al xs ts) v" "q \<in> set (children p # map mt_ptr ts)"
  shows "q \<notin> set (p # al # xs)" "q < h_brk h"
proof -
  have "q \<in> insert (children p) (set (concat (map owned ts)))" using assms(2) mt_ptrs_owned [of ts] by auto
  then show "q \<notin> set (p # al # xs)" "q < h_brk h" using assms(1) by (auto simp: tree_in_def)
qed

lemma set_content_tree:
  assumes "tree_in h (MT p al xs ts) (Meta nm c ps ms)"
  shows "\<exists>h'. metadata_set_content p (Some s) h = Some (Some s, h')
    \<and> becomes (MT p al xs ts) h (MT p al xs ts) (Meta nm (Some s) ps ms) h'"
proof -
  note T = assms [unfolded tree_in_MT]
  obtain md where md: "h_mds h p = Some md" "core md = (Some nm, c, al)" using T by auto
  let ?h = "set_md p (md\<lparr>md_content := Some s\<rparr>) h"
  have "metadata_set_content p (Some s) h = Some (Some s, ?h)"
    using T md by (simp add: metadata_set_content_def malloc_ok_def)
  moreover have "becomes (MT p al xs ts) h (MT p al xs (ts @ [])) (Meta nm (Some s) ps (ms @ [])) ?h"
  proof (rule tree_in_root [OF assms])
    show "wf_heap ?h" "mheap.more ?h = mheap.more h" using T by (simp_all add: wf_heap_def set_md_def)
    show "map_option core (h_mds ?h p) = Some (Some nm, Some s, al)" using md by (simp add: core_def)
    show "alist ?h al xs (map plain_attr ps)" using T by (simp add: alist_def)
  qed (use T in auto)
  ultimately show ?thesis by auto
qed

lemma first_match_plain:
  "map plain_attr ps = vs1 @ v # vs2 \<Longrightarrow> attr_name v = Some n \<Longrightarrow> \<forall>u \<in> set vs1. attr_name u \<noteq> Some n
   \<Longrightarrow> map plain_attr (put_param ps n w) = vs1 @ v\<lparr>attr_value := Some w\<rparr> # vs2"
  by (induction ps arbitrary: vs1) (auto simp: plain_attr_def Cons_eq_append_conv)

lemma new_attr_frame:
  assumes "wf_heap h" "h_mem h = []" "alist h al xs vs"
  shows "\<exists>a h1 n h2. haggle_attribute_new_weighted (Some nm) (Some vl) w h = (a, h1) \<and> a = h_brk h \<and> a \<noteq> NULL
    \<and> haggle_attributelist_add_attribute al a h1 = Some (n, h2) \<and> wf_heap h2 \<and> h_mem h2 = [] \<and> h_brk h \<le> h_brk h2
    \<and> alist h2 al (xs @ [a]) (vs @ [\<lparr>attr_name = Some nm, attr_value = Some vl, attr_weight = w\<rparr>])
    \<and> (\<forall>q. q \<notin> set (a # al # xs) \<longrightarrow> h_links h2 q = h_links h q) \<and> (\<forall>q. q \<noteq> a \<longrightarrow> h_attrs h2 q = h_attrs h q)
    \<and> (\<forall>q. q \<noteq> al \<longrightarrow> h_alists h2 q = h_alists h q) \<and> aheap.more h2 = aheap.more h"
proof -
  obtain a h1 where n: "haggle_attribute_new_weighted (Some nm) (Some vl) w h = (a, h1)" by fastforce
  note N = haggle_attribute_new_weighted_cases [OF assms(1) n]
  have a: "a = h_brk h" "h_links h1 = INIT_LIST a (h_links h)" "h_alists h1 = h_alists h" "a \<noteq> NULL"
    "h_attrs h1 = (h_attrs h)(a \<mapsto> \<lparr>attr_name = Some nm, attr_value = Some vl, attr_weight = w\<rparr>)"
    using N(3) [OF assms(2)] N(4) by auto
  have al: "alist h1 al xs vs" by (rule attribute_new_alist [OF assms(1) n assms(3)])
  have alb: "al < h_brk h" "al \<noteq> NULL"
    using alist_below [OF assms(1,3), of al] alist_not_NULL [OF assms(3)] by simp_all
  then obtain n2 h2 where h2: "haggle_attributelist_add_attribute al a h1 = Some (n2, h2)"
    "alist h2 al (xs @ [a]) (vs @ [\<lparr>attr_name = Some nm, attr_value = Some vl, attr_weight = w\<rparr>])" "h_attrs h2 = h_attrs h1" "\<forall>p. p \<noteq> al \<longrightarrow> h_alists h2 p = h_alists h1 p"
    "h_brk h2 = h_brk h1" "h_mem h2 = h_mem h1" "same_outside (insert a (set (al # xs))) (h_links h1) (h_links h2)"
    using add_attribute_alist [OF al, of a "\<lparr>attr_name = Some nm, attr_value = Some vl, attr_weight = w\<rparr>"] a by (auto simp: list_unattached_def INIT_LIST_def)
  have "wf_heap h2" using N(1,2) h2 a alb same_outside_None [OF h2(7)] by (auto simp: wf_heap_def)
  moreover have "aheap.more h1 = aheap.more h"
    using n by (auto simp: haggle_attribute_new_weighted_def malloc_def malloc_ok_def free_attr_def Let_def
        split: if_splits list.splits prod.splits)
  moreover have "aheap.more h2 = aheap.more h1"
    using h2(1) by (auto simp: haggle_attributelist_add_attribute_def bind_eq_Some_conv split: if_splits)
  moreover have "h_links h2 q = h_links h q" if "q \<notin> set (a # al # xs)" for q
    using h2(7) a(2) that unfolding same_outside_def by (simp add: INIT_LIST_def)
  ultimately show ?thesis using n h2 a N(2,3) assms(2) by auto
qed

lemma more_mds: "aheap.more h' = aheap.more h \<Longrightarrow> h_mds h' = h_mds h \<and> mheap.more h' = mheap.more (h :: 'z mheap_scheme)"
  by (cases h; cases h') simp

lemma set_parameter_tree:
  assumes "tree_in h (MT p al xs ts) (Meta nm c ps ms)"
  shows "\<exists>r h' xs'. metadata_set_parameter p (Some n) (Some w) h = Some (r, h') \<and> 0 \<le> r
    \<and> becomes (MT p al xs ts) h (MT p al xs' ts) (Meta nm c (put_param ps n w) ms) h'"
proof -
  note T = assms [unfolded tree_in_MT]
  obtain md where md: "h_mds h p = Some md" "core md = (Some nm, c, al)" "md_parameters md = al" using T by (auto simp: core_def)
  let ?P = "\<lambda>v. attr_name v = Some n"
  let ?a = "first_match ?P xs (map plain_attr ps)"
  have A: "alist h al xs (map plain_attr ps)" "wf_heap h" "h_mem h = []" "p \<noteq> NULL" using T by blast+
  have lookup: "haggle_attributelist_get_attribute_by_name al (Some n) h = Some ?a"
    by (rule get_attribute_by_name_alist [OF A(1)])
  from A(1) refl show ?thesis
  proof (cases rule: alist_first_match [of h _ xs "map plain_attr ps" ?P])
    case none
    obtain a h1 k h2 where N: "haggle_attribute_new (Some n) (Some w) h = (a, h1)" "a = h_brk h" "a \<noteq> NULL"
      "haggle_attributelist_add_attribute al a h1 = Some (k, h2)" "wf_heap h2" "h_mem h2 = []" "h_brk h \<le> h_brk h2"
      "alist h2 al (xs @ [a]) (map plain_attr ps @ [plain_attr (n, w)])"
      "\<forall>q. q \<notin> set (a # al # xs) \<longrightarrow> h_links h2 q = h_links h q" "\<forall>q. q \<noteq> a \<longrightarrow> h_attrs h2 q = h_attrs h q"
      "\<forall>q. q \<noteq> al \<longrightarrow> h_alists h2 q = h_alists h q" "aheap.more h2 = aheap.more h"
      using new_attr_frame [OF A(2,3,1), of n w 1] unfolding haggle_attribute_new_def plain_attr_def fst_conv snd_conv by blast
    have "n \<notin> fst ` set ps" using none(2) by (auto simp: plain_attr_def)
    then have pp: "put_param ps n w = ps @ [(n, w)]" by (rule put_param_new)
    have "becomes (MT p al xs ts) h (MT p al (xs @ [a]) (ts @ [])) (Meta nm c (put_param ps n w) (ms @ [])) h2"
    proof (rule tree_in_root [OF assms N(5-7)])
      show "mheap.more h2 = mheap.more h" "map_option core (h_mds h2 p) = Some (Some nm, c, al)"
        using more_mds [OF N(12)] md by simp_all
      show "alist h2 al (xs @ [a]) (map plain_attr (put_param ps n w))" using N(8) pp by simp
      have "h_links h2 q = h_links h q" if "q \<in> set (children p # map mt_ptr ts)" for q
        using root_ring_apart [OF assms that] N(2,9) by simp
      then show "ring (h_links h2) (children p) (map mt_ptr (ts @ []))"
        using T ring_cong [of "children p" "map mt_ptr ts" "h_links h2" "h_links h"] by simp
    qed (use N more_mds [OF N(12)] in auto)
    then show ?thesis
      using none N lookup md A(4) by (auto simp: metadata_set_parameter_def)
  next
    case (found xs1 xs2 vs1 v vs2)
    let ?h = "h\<lparr>h_attrs := (h_attrs h)(?a \<mapsto> v\<lparr>attr_value := Some w\<rparr>)\<rparr>"
    have "?a \<in> set xs" using found(2) by (metis in_set_conv_decomp)
    have sv: "haggle_attribute_set_value ?a (Some w) h = Some (Some w, ?h)"
      using found A(3) by (simp add: haggle_attribute_set_value_def malloc_ok_def)
    have "becomes (MT p al xs ts) h (MT p al xs (ts @ [])) (Meta nm c (put_param ps n w) (ms @ [])) ?h"
    proof (rule tree_in_root [OF assms])
      show "wf_heap ?h" using A(2) found by (auto simp: wf_heap_def)
      obtain h' where "haggle_attribute_set_value ?a (Some w) h = Some (Some w, h')"
        "alist h' al xs (vs1 @ v\<lparr>attr_value := Some w\<rparr> # vs2)"
        using set_value_alist [of h al xs1 ?a xs2 vs1 v vs2 w] A(1,3) found(2-4) by metis
      then show "alist ?h al xs (map plain_attr (put_param ps n w))"
        using sv first_match_plain [OF found(3,5,6), of w] by simp
    qed (use T md \<open>?a \<in> set xs\<close> in auto)
    then show ?thesis using found sv lookup md A(4) by (auto simp: metadata_set_parameter_def)
  qed
qed

text \<open>Only the objects in \<open>A\<close> differ, which were allocated after \<open>h\<close>.\<close>

definition only_new :: "ptr set \<Rightarrow> 'z mheap_scheme \<Rightarrow> 'z mheap_scheme \<Rightarrow> bool" where
  "only_new A h h' \<longleftrightarrow> h_brk h \<le> h_brk h' \<and> mheap.more h' = mheap.more h \<and> (\<forall>q \<in> A. h_brk h \<le> q)
     \<and> (\<forall>q. q \<notin> A \<longrightarrow> h_links h' q = h_links h q \<and> h_attrs h' q = h_attrs h q \<and> h_alists h' q = h_alists h q \<and> h_mds h' q = h_mds h q)"

lemma only_new_old:
  assumes "only_new A h h'" "q < h_brk h"
  shows "h_links h' q = h_links h q \<and> h_attrs h' q = h_attrs h q \<and> h_alists h' q = h_alists h q \<and> h_mds h' q = h_mds h q"
  using assms unfolding only_new_def by (metis not_le)

text \<open>The new node before it is given a parent.\<close>

definition new_node :: "string \<Rightarrow> string option \<Rightarrow> 'z mheap_scheme \<Rightarrow> 'z mheap_scheme" where
  "new_node nm c h = (let m = h_brk h; al = h_brk h + 4 in
     set_md m \<lparr>it_name = None, it_head = NULL, it_tmp = NULL, it_pos = NULL, md_parent = NULL,
         md_name = Some nm, md_content = c, md_parameters = al\<rparr>
       (h\<lparr>h_brk := 8 + h_brk h, h_links := INIT_LIST al (INIT_LIST (children m) (INIT_LIST m (h_links h))),
          h_alists := (h_alists h)(al \<mapsto> 0)\<rparr>))"

lemma metadata_new_steps:
  assumes "wf_heap h" "h_mem h = []"
  shows "metadata_new (Some nm) c parent h
    = (if parent \<noteq> NULL then do { (_, h') \<leftarrow> metadata_add parent (h_brk h) (new_node nm c h); Some (h_brk h, h') }
       else do { md \<leftarrow> h_mds (new_node nm c h) (h_brk h); Some (h_brk h, set_md (h_brk h) (md\<lparr>md_parent := h_brk h\<rparr>) (new_node nm c h)) })"
  using assms wf_heap_brk [OF assms(1)]
  by (cases c) (simp_all add: metadata_new_def malloc_def malloc_ok_def haggle_attributelist_new_def metadata_set_name_def
      metadata_set_content_def new_node_def Let_def set_md_def)

lemma new_node_holds:
  assumes "wf_heap h" "h_mem h = []"
  shows "holds (new_node nm c h) (MT (h_brk h) (h_brk h + 4) [] []) (Meta nm c [] [])" "wf_heap (new_node nm c h)"
    "only_new (set (owned (MT (h_brk h) (h_brk h + 4) [] []))) h (new_node nm c h)" "h_brk (new_node nm c h) = h_brk h + 8" "h_mem (new_node nm c h) = []"
  using assms by (auto simp: new_node_def Let_def holds_MT core_def alist_def ring_def linked_def INIT_LIST_def
      wf_heap_def only_new_def set_md_def)

lemma metadata_new_root:
  assumes "wf_heap h" "h_mem h = []"
  shows "\<exists>h'. metadata_new (Some nm) c NULL h = Some (h_brk h, h') \<and> h_brk h \<noteq> NULL
    \<and> tree_in h' (MT (h_brk h) (h_brk h + 4) [] []) (Meta nm c [] [])
    \<and> h_links h' (h_brk h) = Some \<lparr>l_prev = h_brk h, l_next = h_brk h\<rparr>
    \<and> only_new (set (owned (MT (h_brk h) (h_brk h + 4) [] []))) h h'"
proof -
  let ?m = "h_brk h" and ?h = "new_node nm c h"
  let ?t = "MT ?m (?m + 4) [] []"
  obtain md where md: "h_mds ?h ?m = Some md" by (auto simp: new_node_def Let_def)
  let ?h' = "set_md ?m (md\<lparr>md_parent := ?m\<rparr>) ?h"
  have "holds ?h' ?t (Meta nm c [] [])"
    by (rule holds_cong [OF new_node_holds(1) [OF assms]]) (use md in \<open>auto simp: agree_def core_def\<close>)
  then have "tree_in ?h' ?t (Meta nm c [] [])"
    using new_node_holds(2,4,5) [OF assms] by (simp add: tree_in_def wf_heap_def)
  moreover have "only_new (set (owned ?t)) h ?h'" using new_node_holds(3) [OF assms] by (simp add: only_new_def set_md_def)
  moreover have "h_links ?h' ?m = Some \<lparr>l_prev = ?m, l_next = ?m\<rparr>" by (simp add: new_node_def Let_def INIT_LIST_def)
  ultimately show ?thesis using metadata_new_steps [OF assms] md wf_heap_brk [OF assms(1)] by simp
qed

lemma tree_in_ptr: "tree_in h t v \<Longrightarrow> mt_ptr t \<noteq> NULL"
  by (cases t; cases v) (simp add: tree_in_MT)

text \<open>A tree that was built on its own becomes the last child of another one.\<close>

lemma attach_tree:
  assumes T: "tree_in h (MT p al xs ts) (Meta nm c ps ms)" and U: "tree_in h1 u w" "only_new (set (owned u)) h h1"
    and root: "h_links h1 (mt_ptr u) = Some \<lparr>l_prev = mt_ptr u, l_next = mt_ptr u\<rparr>"
  shows "\<exists>h'. metadata_add p (mt_ptr u) h1 = Some (HAGGLE_NO_ERROR, h')
    \<and> becomes (MT p al xs ts) h (MT p al xs (ts @ [u])) (Meta nm c ps (ms @ [w])) h'"
proof -
  note T' = T [unfolded tree_in_MT]
  have t: "wf_heap h" "p \<noteq> NULL" "alist h al xs (map plain_attr ps)" "ring (h_links h) (children p) (map mt_ptr ts)"
    "map_option core (h_mds h p) = Some (Some nm, c, al)" "p < h_brk h" using T' by auto
  let ?m = "mt_ptr u" and ?r = "set (children p # map mt_ptr ts)" and ?L = "(h_links h1)(mt_ptr u \<mapsto> \<lparr>l_prev = NULL, l_next = NULL\<rparr>)"
  have new: "h_brk h \<le> q" "q < h_brk h1" if "q \<in> set (owned u)" for q using that U by (auto simp: only_new_def tree_in_def)
  have m: "?m \<in> set (owned u)" "?m \<noteq> NULL" using tree_in_ptr [OF U(1)] by (cases u; simp)+
  have r: "q < h_brk h" if "q \<in> ?r" for q using root_ring_apart(2) [OF T that] .
  have mr: "?m \<notin> ?r" using r [of ?m] new(1) [OF m(1)] by auto
  obtain md where md: "h_mds h1 ?m = Some md" using U(1) by (cases u; cases w) (auto simp: tree_in_MT)
  have old: "?L q = h_links h q" if "q < h_brk h" for q using only_new_old [OF U(2) that] new(1) [OF m(1)] that by auto
  have det: "metadata_detach ?m h1 = Some (HAGGLE_NO_ERROR, set_md ?m (md\<lparr>md_parent := NULL\<rparr>) (h1\<lparr>h_links := ?L\<rparr>))"
    using m(2) md root by (simp add: metadata_detach_def list_detach_def listelm_detach_def set_next_def set_prev_def)
  have "ring ?L (children p) (map mt_ptr ts)" using t(4) ring_cong [of "children p" "map mt_ptr ts" ?L "h_links h"] r old by blast
  then obtain L where L: "metadata_add p ?m h1 = Some (HAGGLE_NO_ERROR, set_md ?m (md\<lparr>md_parent := p\<rparr>) (h1\<lparr>h_links := L\<rparr>))"
    "ring L (children p) (map mt_ptr ts @ [?m])" "same_outside (insert ?m ?r) ?L L"
    using metadata_add_from [OF det _ _ m(2) t(2) mr] by auto
  let ?h = "set_md ?m (md\<lparr>md_parent := p\<rparr>) (h1\<lparr>h_links := L\<rparr>)"
  have Lq: "L q = h_links h q" if "q < h_brk h" "q \<notin> ?r" for q
    using L(3) that old [OF that(1)] new(1) [OF m(1)] unfolding same_outside_def by auto
  have "holds ?h u w"
  proof (rule holds_cong)
    show "holds h1 u w" "distinct (owned u)" using U(1) by (simp_all add: tree_in_def)
    have "L q = h_links h1 q" if "q \<in> set (owned u) - {?m}" for q
      using L(3) r [of q] new(1) [of q] that unfolding same_outside_def by auto
    then show "agree (set (owned u) - {?m}) (set (owned u)) h1 ?h" using md by (auto simp: agree_def core_def)
  qed
  moreover have "becomes (MT p al xs ts) h (MT p al xs (ts @ [u])) (Meta nm c ps (ms @ [w])) ?h" if hold: "holds ?h u w"
  proof (rule tree_in_root [OF T])
    show "wf_heap ?h"
    proof -
      have w: "wf_heap h1" using U(1) by (simp add: tree_in_def)
      have out: "L q = None" if "h_links h1 q = None" "q \<notin> insert ?m ?r" for q using L(3) that by (auto simp: same_outside_def)
      have "q < h_brk h1" if "q \<in> insert ?m ?r" for q using r [of q] new(2) [of q] m(1) U(2) that by (auto simp: only_new_def)
      then have "L q = None" if "h_brk h1 \<le> q" for q using out [of q] w that unfolding wf_heap_def by (meson leD)
      moreover have "L NULL = None" using out [of NULL] w m(2) t(4) by (auto simp: wf_heap_def ring_def)
      ultimately show ?thesis using w by (simp add: wf_heap_def)
    qed
    show "alist ?h al xs (map plain_attr ps)"
    proof (rule alist_cong [OF t(3)])
      have q: "q < h_brk h" "q \<notin> ?r" if "q \<in> set (al # xs)" for q
        using that alist_below [OF t(1,3)] root_ring_apart(1) [OF T, of q] by auto
      show "h_links ?h q = h_links h q" if "q \<in> set (al # xs)" for q using Lq q [OF that] by simp
      show "h_attrs ?h q = h_attrs h q" if "q \<in> set xs" for q using only_new_old [OF U(2) q(1)] that by simp
      show "h_alists ?h al = h_alists h al" using only_new_old [OF U(2) q(1), of al] by simp
    qed
    show "\<forall>q \<in> set (concat (map owned [u])). h_brk h \<le> q \<and> q < h_brk ?h \<and> q \<notin> set xs"
      using new alist_below [OF t(1,3)] by fastforce
    show "map_option core (h_mds ?h p) = Some (Some nm, c, al)"
      using only_new_old [OF U(2) t(6)] t(5,6) new(1) [OF m(1)] by auto
    show "distinct (concat (map owned [u]))" using U(1) by (simp add: tree_in_def)
    show "mheap.more ?h = mheap.more h" using U(2) by (simp add: only_new_def set_md_def)
    show "h_attrs ?h q = h_attrs h q \<and> h_alists ?h q = h_alists h q \<and> h_mds ?h q = h_mds h q"
      if "q \<notin> {p, al} \<union> set xs \<union> set (concat (map owned [u]))" for q using U(2) that m(1) by (auto simp: only_new_def)
    show "h_links ?h q = h_links h q" if "q \<notin> {children p, al} \<union> set xs \<union> mt_ptr ` set ts \<union> set (concat (map owned [u]))" for q
    proof -
      have "q \<notin> insert ?m ?r" "q \<notin> set (owned u)" using that m(1) by auto
      then show ?thesis using L(3) U(2) by (auto simp: same_outside_def only_new_def)
    qed
  qed (use U L(2) hold in \<open>auto simp: tree_in_def only_new_def\<close>)
  ultimately show ?thesis using L(1) by blast
qed

lemma metadata_new_child:
  assumes "tree_in h (MT p al xs ts) (Meta nm c ps ms)"
  shows "\<exists>h'. metadata_new (Some n) d p h = Some (h_brk h, h') \<and> h_brk h \<noteq> NULL
    \<and> becomes (MT p al xs ts) h (MT p al xs (ts @ [MT (h_brk h) (h_brk h + 4) [] []])) (Meta nm c ps (ms @ [Meta n d [] []])) h'"
proof -
  have w: "wf_heap h" "h_mem h = []" "p \<noteq> NULL" using assms by (simp_all add: tree_in_MT)
  let ?t = "MT (h_brk h) (h_brk h + 4) [] []" and ?h = "new_node n d h"
  note N = new_node_holds [OF w(1,2), of n d]
  have "tree_in ?h ?t (Meta n d [] [])" using N(1,2,4,5) by (simp add: tree_in_def)
  moreover have "h_links ?h (h_brk h) = Some \<lparr>l_prev = h_brk h, l_next = h_brk h\<rparr>" by (simp add: new_node_def Let_def INIT_LIST_def)
  ultimately obtain h' where "metadata_add p (h_brk h) ?h = Some (HAGGLE_NO_ERROR, h')"
    "becomes (MT p al xs ts) h (MT p al xs (ts @ [?t])) (Meta nm c ps (ms @ [Meta n d [] []])) h'"
    using attach_tree [OF assms _ N(3)] by auto
  then show ?thesis using metadata_new_steps [OF w(1,2), of n d p] w(3) wf_heap_brk [OF w(1)] by auto
qed

section \<open>Reading a tree\<close>

lemma tree_reads:
  assumes "tree_in h t v"
  shows "metadata_get_name (mt_ptr t) h = Some (Some (me_name v))" "metadata_get_content (mt_ptr t) h = Some (me_content v)"
    "metadata_get_parameter (mt_ptr t) (Some s) h = Some (map_of (me_params v) s)"
    "metadata_name_is (mt_ptr t) s h = Some (if me_name v = s then 1 else 0)"
proof -
  obtain p al xs ts nm c ps ms where e: "t = MT p al xs ts" "v = Meta nm c ps ms" by (cases t; cases v)
  note T = assms [unfolded e tree_in_MT]
  obtain md where md: "h_mds h p = Some md" "md_name md = Some nm" "md_content md = c" "md_parameters md = al"
    using T by (auto simp: core_def)
  then show "metadata_get_name (mt_ptr t) h = Some (Some (me_name v))" "metadata_get_content (mt_ptr t) h = Some (me_content v)"
    "metadata_name_is (mt_ptr t) s h = Some (if me_name v = s then 1 else 0)"
    using T e by (simp_all add: metadata_get_name_def metadata_get_content_def metadata_name_is_def)
  show "metadata_get_parameter (mt_ptr t) (Some s) h = Some (map_of (me_params v) s)"
    using metadata_get_parameter_alist [OF md(1), of xs "map plain_attr ps" s] T md(4) e by (simp add: value_of_plain)
qed

text \<open>The names of the children.\<close>

lemma list_all2_holds_names:
  "list_all2 (holds h) ts ms \<Longrightarrow> map (\<lambda>t. map_option md_name (h_mds h (mt_ptr t))) ts = map (\<lambda>m. Some (Some (me_name m))) ms"
proof (induction ts ms rule: list_all2_induct)
  case (Cons t ts m ms)
  then show ?case by (cases t; cases m) (auto simp: holds_MT core_def)
qed simp

lemma tree_named:
  assumes "tree_in h (MT p al xs ts) (Meta nm c ps ms)"
  shows "named h (map mt_ptr ts)" "list_all2 (\<lambda>t m. name_matches name h (mt_ptr t) \<longleftrightarrow> name = None \<or> name = Some [] \<or> name = Some (me_name m)) ts ms"
proof -
  have a: "list_all2 (holds h) ts ms" using assms by (simp add: tree_in_MT)
  note n = list_all2_holds_names [OF a]
  have l: "length ts = length ms" using a by (rule list_all2_lengthD)
  have i: "map_option md_name (h_mds h (mt_ptr (ts ! i))) = Some (Some (me_name (ms ! i)))" if "i < length ts" for i
    using arg_cong [OF n, of "\<lambda>l. l ! i"] that l by simp
  show "named h (map mt_ptr ts)"
    unfolding named_def using i by (fastforce simp: in_set_conv_nth)
  show "list_all2 (\<lambda>t m. name_matches name h (mt_ptr t) \<longleftrightarrow> name = None \<or> name = Some [] \<or> name = Some (me_name m)) ts ms"
    unfolding list_all2_conv_all_nth name_matches_def using l i by (simp del: map_option_eq_Some) auto
qed

text \<open>The iterators change nothing of the values.\<close>

lemma same_tree_agree: "same_tree h h' \<Longrightarrow> agree K A h h'"
proof -
  assume a: "same_tree h h'"
  have "map_option core (h_mds h' q) = map_option core (h_mds h q)" for q
  proof -
    have "core md = snd (md_parent md, md_name md, md_content md, md_parameters md)" for md by (simp add: core_def)
    then show ?thesis using a unfolding same_tree_def
      by (metis (mono_tags, lifting) map_option_cong option.map_comp comp_def)
  qed
  then show ?thesis using a by (simp add: same_tree_def agree_def)
qed

section \<open>Loops over the children\<close>

text \<open>
  The loops of the clients: \<open>metadata_get\<close>, then the body and \<open>metadata_get_next\<close> until there is no further child.  The body
  may change the memory as long as the list of children, their names and the iterator stay.
\<close>

definition iterator_safe :: "ptr \<Rightarrow> ptr list \<Rightarrow> 'z mheap_scheme \<Rightarrow> 'z mheap_scheme \<Rightarrow> bool" where
  "iterator_safe m cs h h' \<longleftrightarrow> h_mds h' m = h_mds h m \<and> (\<forall>q \<in> set (children m # cs). h_links h' q = h_links h q)
     \<and> (\<forall>c \<in> set cs. map_option md_name (h_mds h' c) = map_option md_name (h_mds h c))"

lemma iterator_safe_iterating:
  assumes "iterator_safe m (us @ ws) h h'" "iterating m name us ws h"
  shows "iterating m name us ws h'"
proof -
  have L: "h_links h' q = h_links h q" if "q \<in> set (children m # us @ ws)" for q
    using assms(1) that unfolding iterator_safe_def by blast
  have "hd (ws @ [children m]) \<in> set (children m # us @ ws)" by (cases ws) auto
  then show ?thesis
    using assms L ring_cong [of "children m" "us @ ws" "h_links h" "h_links h'"] unfolding iterating_def iterator_safe_def by metis
qed

lemma iterator_safe_names:
  assumes "iterator_safe m cs h h'" "set cs' \<subseteq> set cs"
  shows "named h cs' \<Longrightarrow> named h' cs'" "c \<in> set cs \<Longrightarrow> name_matches name h' c = name_matches name h c"
proof -
  have n: "map_option md_name (h_mds h' c) = map_option md_name (h_mds h c)" if "c \<in> set cs" for c
    using assms(1) that unfolding iterator_safe_def by blast
  then show "c \<in> set cs \<Longrightarrow> name_matches name h' c = name_matches name h c" by (simp add: name_matches_def)
  have "named h cs' = (\<forall>c \<in> set cs'. \<exists>s. map_option md_name (h_mds h c) = Some (Some s))" for h :: "'a mheap_scheme"
    by (fastforce simp: named_def)
  then show "named h cs' \<Longrightarrow> named h' cs'" using n assms(2) by (metis subsetD)
qed

lemma iterate_from:
  fixes h :: "'z mheap_scheme"
  assumes nil: "\<And>h. L NULL h = Some (h :: 'z mheap_scheme)"
    and cons: "\<And>c h. c \<noteq> NULL \<Longrightarrow> L c h = do { h \<leftarrow> body c h; (c, h) \<leftarrow> metadata_get_next m h; L c h }"
    and body: "\<And>zs c rest h. zs @ c # rest = filter P cs \<Longrightarrow> I zs h
        \<Longrightarrow> \<exists>h'. body c h = Some h' \<and> I (zs @ [c]) h' \<and> iterator_safe m cs h h'"
    and move: "\<And>zs h md. I zs h \<Longrightarrow> same_tree h (set_md m md h) \<Longrightarrow> I zs (set_md m md h)"
    and "m \<noteq> NULL"
  shows "us @ ws = cs \<Longrightarrow> iterating m name us ws h \<Longrightarrow> named h cs \<Longrightarrow> (\<forall>c \<in> set cs. name_matches name h c = P c)
    \<Longrightarrow> (ws = [] \<or> P (hd ws)) \<Longrightarrow> I zs h \<Longrightarrow> zs @ filter P ws = filter P cs
    \<Longrightarrow> \<exists>h'. L (if ws = [] then NULL else hd ws) h = Some h' \<and> I (filter P cs) h'"
proof (induction "length ws" arbitrary: us ws zs h rule: less_induct)
  case less
  show ?case
  proof (cases ws)
    case Nil
    then show ?thesis using less.prems(6,7) nil by auto
  next
    case (Cons c rest)
    then have c: "c \<noteq> NULL" "zs @ c # filter P rest = filter P cs" "P c"
      using less.prems(2,5,7) by (auto simp: iterating_def ring_def)
    obtain h1 where h1: "body c h = Some h1" "I (zs @ [c]) h1" "iterator_safe m cs h h1" using body [OF c(2) less.prems(6)] by blast
    let ?ws = "dropWhile (\<lambda>c. \<not> P c) rest"
    have it: "iterating m name us (c # rest) h1"
      using iterator_safe_iterating [of m us ws h h1 name] h1(3) less.prems(1,2) Cons by simp
    moreover have nm: "named h1 (us @ c # rest)" using iterator_safe_names(1) [OF h1(3), of cs] less.prems(1,3) Cons by simp
    moreover have P1: "\<forall>c \<in> set cs. name_matches name h1 c = P c" using iterator_safe_names(2) [OF h1(3)] less.prems(4) by blast
    then have "dropWhile (\<lambda>c. \<not> name_matches name h1 c) rest = ?ws"
      using less.prems(1) Cons by (intro dropWhile_cong) auto
    ultimately obtain us' h2 where h2: "metadata_get_next m h1 = Some (if ?ws = [] then NULL else hd ?ws, h2)" "us' @ ?ws = us @ c # rest"
      "iterating m name us' ?ws h2" "same_tree h1 h2"
      using metadata_get_next_advances [OF it nm assms(5)] by metis
    have "I (zs @ [c]) h2" using get_next_set_md [OF h2(1)] move h1(2) h2(4) by blast
    moreover have "length ?ws < length ws" using Cons by (simp add: le_imp_less_Suc length_dropWhile_le)
    moreover have "?ws = [] \<or> P (hd ?ws)" using hd_dropWhile_not [of P rest] by (metis list.collapse)
    moreover have "us' @ ?ws = cs" using h2(2) less.prems(1) Cons by simp
    moreover have "named h2 cs" "\<forall>c \<in> set cs. name_matches name h2 c = P c"
      using same_tree_names [OF h2(4)] nm P1 less.prems(1) Cons by auto
    moreover have "(zs @ [c]) @ filter P ?ws = filter P cs" using c(2) by (simp add: filter_dropWhile_not)
    ultimately obtain h' where "L (if ?ws = [] then NULL else hd ?ws) h2 = Some h'" "I (filter P cs) h'"
      using less.hyps [of ?ws us' h2 "zs @ [c]"] h2(3) by blast
    then show ?thesis using cons [OF c(1)] h1(1) h2(1) Cons by auto
  qed
qed

lemma iterate_matching:
  fixes h :: "'z mheap_scheme"
  assumes "\<And>h. L NULL h = Some (h :: 'z mheap_scheme)"
    and "\<And>c h. c \<noteq> NULL \<Longrightarrow> L c h = do { h \<leftarrow> body c h; (c, h) \<leftarrow> metadata_get_next m h; L c h }"
    and "\<And>zs c rest h. zs @ c # rest = filter P cs \<Longrightarrow> I zs h
        \<Longrightarrow> \<exists>h'. body c h = Some h' \<and> I (zs @ [c]) h' \<and> iterator_safe m cs h h'"
    and move: "\<And>zs h md. I zs h \<Longrightarrow> same_tree h (set_md m md h) \<Longrightarrow> I zs (set_md m md h)"
    and m: "m \<noteq> NULL" "h_mds h m = Some md" "h_mem h = []" "ring (h_links h) (children m) cs" "named h cs"
    and P: "\<And>c. c \<in> set cs \<Longrightarrow> name_matches name h c = P c" and "I [] h"
  shows "\<exists>h'. do { (c, h) \<leftarrow> metadata_get m name h; L c h } = Some h' \<and> I (filter P cs) h'"
proof -
  let ?ws = "dropWhile (\<lambda>c. \<not> P c) cs"
  have "dropWhile (\<lambda>c. \<not> name_matches name h c) cs = ?ws" using P by (intro dropWhile_cong) auto
  then obtain us h1 where h1: "metadata_get m name h = Some (if ?ws = [] then NULL else hd ?ws, h1)" "us @ ?ws = cs"
    "iterating m name us ?ws h1" "same_tree h h1"
    using metadata_get_starts [OF m(4,5,3,2,1), of name] by metis
  have "I [] h1" using get_set_md [OF h1(1) m(3)] move assms(11) h1(4) by blast
  moreover have "named h1 cs" "\<forall>c \<in> set cs. name_matches name h1 c = P c" using same_tree_names [OF h1(4)] m(5) P by auto
  moreover have "?ws = [] \<or> P (hd ?ws)" using hd_dropWhile_not [of P cs] by (metis list.collapse)
  moreover have "[] @ filter P ?ws = filter P cs" by (simp add: filter_dropWhile_not)
  ultimately have "\<exists>h'. L (if ?ws = [] then NULL else hd ?ws) h1 = Some h' \<and> I (filter P cs) h'"
    by (intro iterate_from [where L = L and body = body and I = I, OF _ _ _ _ m(1) h1(2,3)])
      (use assms(1-4) in \<open>simp_all only:\<close>)
  then show ?thesis using h1(1) by auto
qed

text \<open>All children, by their position.\<close>

lemma iterate_children:
  fixes h :: "'z mheap_scheme"
  assumes "\<And>h. L NULL h = Some (h :: 'z mheap_scheme)"
    and "\<And>c h. c \<noteq> NULL \<Longrightarrow> L c h = do { h \<leftarrow> body c h; (c, h) \<leftarrow> metadata_get_next m h; L c h }"
    and body: "\<And>i h. i < length ts \<Longrightarrow> I i h
        \<Longrightarrow> \<exists>h'. body (mt_ptr (ts ! i)) h = Some h' \<and> I (Suc i) h' \<and> iterator_safe m (map mt_ptr ts) h h'"
    and move: "\<And>i h md. I i h \<Longrightarrow> same_tree h (set_md m md h) \<Longrightarrow> I i (set_md m md h)"
    and T: "tree_in h (MT m al xs ts) v" and "I 0 h"
  shows "\<exists>h'. do { (c, h) \<leftarrow> metadata_get m None h; L c h } = Some h' \<and> I (length ts) h'"
proof -
  obtain nm c ps ms where v: "v = Meta nm c ps ms" by (cases v)
  note T' = T [unfolded v tree_in_MT]
  obtain md where md: "h_mds h m = Some md" using T' by auto
  have "\<exists>h'. body c h = Some h' \<and> I (length (zs @ [c])) h' \<and> iterator_safe m (map mt_ptr ts) h h'"
    if "zs @ c # rest = filter (\<lambda>_. True) (map mt_ptr ts)" "I (length zs) h" for zs c rest h
  proof -
    have e: "map mt_ptr ts = zs @ c # rest" using that(1) by simp
    then have l: "length zs < length ts" by (metis add_Suc_right length_append length_Cons length_map less_add_Suc1)
    then have "c = mt_ptr (ts ! length zs)" using arg_cong [OF e, of "\<lambda>l. l ! length zs"] by simp
    then show ?thesis using body [OF l that(2)] by simp
  qed
  note step = this
  have "\<exists>h'. do { (c, h) \<leftarrow> metadata_get m None h; L c h } = Some h' \<and> I (length (filter (\<lambda>_. True) (map mt_ptr ts))) h'"
  proof (rule iterate_matching [where L = L and body = body and P = "\<lambda>_. True" and cs = "map mt_ptr ts" and I = "\<lambda>zs. I (length zs)"])
    show "named h (map mt_ptr ts)" by (rule tree_named(1) [OF T [unfolded v]])
    show "name_matches None h c = True" for c by (simp add: name_matches_def)
    show "m \<noteq> NULL" "h_mds h m = Some md" "h_mem h = []" "ring (h_links h) (children m) (map mt_ptr ts)" using T' md by blast+
    show "I (length []) h" using \<open>I 0 h\<close> by simp
  qed (fact assms(1) assms(2) step move)+
  then show ?thesis by simp
qed

text \<open>A tree stays when nothing it owns is changed.\<close>

lemma tree_in_agree:
  assumes "tree_in h t v" "agree (set (owned t)) (set (owned t)) h h'" "wf_heap h'" "h_mem h' = []" "h_brk h \<le> h_brk h'"
  shows "tree_in h' t v"
proof -
  have "agree (set (owned t) - {mt_ptr t}) (set (owned t)) h h'" by (rule agree_mono [OF assms(2)]) auto
  then have "holds h' t v" using holds_cong [of h t v h'] assms(1) by (simp add: tree_in_def)
  then show ?thesis using assms unfolding tree_in_def by (meson less_le_trans)
qed

section \<open>Iterators that moved\<close>

text \<open>Only iterators of nodes in \<open>A\<close> were moved.\<close>

definition walked :: "ptr set \<Rightarrow> 'z mheap_scheme \<Rightarrow> 'z mheap_scheme \<Rightarrow> bool" where
  "walked A h h' \<longleftrightarrow> (\<exists>M. h' = h\<lparr>h_mds := M\<rparr> \<and> (\<forall>q. q \<notin> A \<longrightarrow> M q = h_mds h q)) \<and> same_tree h h'"

lemma walked_trans:
  assumes "walked A h h1" "walked B h1 h2"
  shows "walked (A \<union> B) h h2"
  using assms same_tree_trans [of h h1 h2] unfolding walked_def by fastforce

lemma walked_mono: "walked A h h' \<Longrightarrow> A \<subseteq> B \<Longrightarrow> walked B h h'"
  unfolding walked_def by blast

lemma walked_refl: "walked A h h"
  unfolding walked_def by (auto simp: same_tree_def intro: exI [of _ "h_mds h"])

lemma walked_mds: "walked A h h' \<Longrightarrow> q \<notin> A \<Longrightarrow> h_mds h' q = h_mds h q"
  by (auto simp: walked_def)

lemma walked_links: "walked A h h' \<Longrightarrow> h_links h' = h_links h"
  by (auto simp: walked_def)

lemma walked_tree_in: "walked A h h' \<Longrightarrow> tree_in h t v \<Longrightarrow> tree_in h' t v"
proof -
  assume w: "walked A h h'" and t: "tree_in h t v"
  then have "holds h' t v" using holds_cong [of h t v h'] same_tree_agree by (auto simp: walked_def tree_in_def)
  then show ?thesis using w t by (auto simp: walked_def tree_in_def wf_heap_def)
qed

lemma iterating_walked: "iterating m name us ws h \<Longrightarrow> walked A h h' \<Longrightarrow> m \<notin> A \<Longrightarrow> iterating m name us ws h'"
  using walked_mds [of A h h' m] walked_links [of A h h'] by (simp add: iterating_def)

lemma set_md_walked: "h' = h \<or> (\<exists>md. h' = set_md m md h) \<Longrightarrow> same_tree h h' \<Longrightarrow> walked {m} h h'"
  using walked_refl [of "{m}" h] by (elim disjE exE) (auto simp: walked_def set_md_def)

end
