(* ===== verification/Metadata_XML.thy ===== *)
theory Metadata_XML
  imports Metadata_Tree
begin

text \<open>
  The translation between metadata and XML documents of \<open>src/src/libhaggle/metadata_xml.c\<close>.  The tree of
  libxml is a datatype; the functions of that library which walk through or extend the tree are the
  definitions of the first section.  What converts text is a parameter, the record \<open>libxml\<close>: the parser, the
  output of a document, and the conversion of strings to nodes.
\<close>

section \<open>The tree of libxml\<close>

text \<open>
  An element has its name, its attributes and its children.  Of an attribute there are the name and the
  members \<open>content\<close> of its child nodes (\<open>None\<close> is \<open>NULL\<close>).  The last constructor stands for comments and processing
  instructions.  Documents that declare entities of their own, and nodes that refer to them, are not represented.
\<close>

datatype xml_node =
    XML_ELEMENT_NODE (xn_name: string) (xn_properties: "(string \<times> string option list) list") (xn_children: "xml_node list")
  | XML_TEXT_NODE string
  | XML_CDATA_SECTION_NODE string
  | XML_OTHER_NODE

type_synonym xml_doc = "xml_node list"

record libxml =
  xmlParseMemory :: "string \<Rightarrow> xml_doc option"
  xmlDocDumpFormatMemory :: "xml_doc \<Rightarrow> string \<times> int"
  xmlStringGetNodeList :: "string \<Rightarrow> xml_node list"
  xmlPropNodes :: "string \<Rightarrow> string option list"

fun is_element :: "xml_node \<Rightarrow> bool" where
  "is_element (XML_ELEMENT_NODE nm ps cs) = True"
| "is_element _ = False"

definition is_blank_ch :: "char \<Rightarrow> bool" where
  "is_blank_ch c \<longleftrightarrow> c \<in> {CHR '' '', CHR 0x09, CHR 0x0A, CHR 0x0D}"

fun xmlIsBlankNode :: "xml_node \<Rightarrow> bool" where
  "xmlIsBlankNode (XML_TEXT_NODE s) = list_all is_blank_ch s"
| "xmlIsBlankNode (XML_CDATA_SECTION_NODE s) = list_all is_blank_ch s"
| "xmlIsBlankNode _ = False"

text \<open>The text below a node.\<close>

fun xmlNodeBufGetContent :: "xml_node \<Rightarrow> string" where
  "xmlNodeBufGetContent (XML_ELEMENT_NODE nm ps cs) = concat (map xmlNodeBufGetContent cs)"
| "xmlNodeBufGetContent (XML_TEXT_NODE s) = s"
| "xmlNodeBufGetContent (XML_CDATA_SECTION_NODE s) = s"
| "xmlNodeBufGetContent XML_OTHER_NODE = []"

text \<open>
  The functions that allocate; one outcome stands for all allocations of a call.  A new child is returned
  apart from its parent, to which \<open>add_child\<close> appends it.
\<close>

definition xmlNodeGetContent :: "xml_node \<Rightarrow> 'z heap_scheme \<Rightarrow> string option \<times> 'z heap_scheme" where
  "xmlNodeGetContent x h = (let (ok, h) = malloc_ok h in (if ok then Some (xmlNodeBufGetContent x) else None, h))"

definition xmlDocGetRootElement :: "xml_doc \<Rightarrow> xml_node option" where
  "xmlDocGetRootElement doc = find is_element doc"

definition xmlNewNode :: "string option \<Rightarrow> 'z heap_scheme \<Rightarrow> xml_node option \<times> 'z heap_scheme" where
  "xmlNewNode name h =
     (case name of
        None \<Rightarrow> (None, h)
      | Some nm \<Rightarrow> let (ok, h) = malloc_ok h in (if ok then Some (XML_ELEMENT_NODE nm [] []) else None, h))"

fun add_prop :: "xml_node \<Rightarrow> string \<times> string option list \<Rightarrow> xml_node" where
  "add_prop (XML_ELEMENT_NODE nm ps cs) p = XML_ELEMENT_NODE nm (ps @ [p]) cs"
| "add_prop x p = x"

fun add_child :: "xml_node \<Rightarrow> xml_node \<Rightarrow> xml_node" where
  "add_child (XML_ELEMENT_NODE nm ps cs) c = XML_ELEMENT_NODE nm ps (cs @ [c])"
| "add_child x c = x"

definition xmlNewProp :: "libxml \<Rightarrow> xml_node \<Rightarrow> string option \<Rightarrow> string option \<Rightarrow> 'z heap_scheme
    \<Rightarrow> xml_node option \<times> 'z heap_scheme" where
  "xmlNewProp X xn name vl h =
     (case name of
        None \<Rightarrow> (None, h)
      | Some nm \<Rightarrow>
          if \<not> is_element xn then (None, h)
          else
            let (ok, h) = malloc_ok h in
            (if ok then Some (add_prop xn (nm, case vl of None \<Rightarrow> [] | Some s \<Rightarrow> xmlPropNodes X s)) else None, h))"

definition xmlNewChild :: "libxml \<Rightarrow> xml_node \<Rightarrow> string option \<Rightarrow> string option \<Rightarrow> 'z heap_scheme
    \<Rightarrow> xml_node option \<times> 'z heap_scheme" where
  "xmlNewChild X parent name content h =
     (if \<not> is_element parent then (None, h)
      else
        let (c, h) = xmlNewNode name h in
        (case c of
           None \<Rightarrow> None
         | Some c \<Rightarrow> Some (XML_ELEMENT_NODE (xn_name c) [] (case content of None \<Rightarrow> [] | Some s \<Rightarrow> xmlStringGetNodeList X s)), h))"

section \<open>From XML to metadata\<close>

text \<open>The loop over the attributes; the result of setting a parameter is ignored.\<close>

fun parse_properties :: "ptr \<Rightarrow> (string \<times> string option list) list \<Rightarrow> 'z mheap_scheme \<Rightarrow> 'z mheap_scheme option" where
  "parse_properties m [] h = Some h"
| "parse_properties m ((nm, cs) # ps) h =
     (case cs of
        [] \<Rightarrow> None
      | content # _ \<Rightarrow>
          do {
            (_, h) \<leftarrow> metadata_set_parameter m (Some nm) content h;
            parse_properties m ps h
          })"

function (sequential) metadata_xml_parse :: "ptr \<Rightarrow> xml_node \<Rightarrow> 'z mheap_scheme \<Rightarrow> (int \<times> 'z mheap_scheme) option"
  and parse_children :: "ptr \<Rightarrow> xml_node list \<Rightarrow> 'z mheap_scheme \<Rightarrow> (int \<times> 'z mheap_scheme) option" where
  "metadata_xml_parse m (XML_ELEMENT_NODE nm ps cs) h =
     do {
       h \<leftarrow> parse_properties m ps h;
       parse_children m cs h
     }"
| "metadata_xml_parse m _ h = Some (1, h)"
| "parse_children m [] h = Some (1, h)"
| "parse_children m (XML_ELEMENT_NODE nm ps cs # xs) h =
     do {
       (mc, h) \<leftarrow> metadata_new (Some nm) None m h;
       if mc = NULL then Some (-1, h)
       else
         do {
           (r, h) \<leftarrow> metadata_xml_parse mc (XML_ELEMENT_NODE nm ps cs) h;
           if r < 0 then Some (-1, h) else parse_children m xs h
         }
     }"
| "parse_children m (XML_TEXT_NODE s # xs) h =
     (if xmlIsBlankNode (XML_TEXT_NODE s) then parse_children m xs h
      else
        let (content, h) = xmlNodeGetContent (XML_TEXT_NODE s) h in
        (case content of
           None \<Rightarrow> parse_children m xs h
         | Some _ \<Rightarrow> do { (_, h) \<leftarrow> metadata_set_content m content h; parse_children m xs h }))"
| "parse_children m (_ # xs) h = parse_children m xs h"
  by pat_completeness auto
termination
  by (relation "measure (\<lambda>a. case a of Inl (m, x, h) \<Rightarrow> size x | Inr (m, xs, h) \<Rightarrow> size_list size xs)") auto

definition metadata_xml_new_from_xml :: "libxml \<Rightarrow> string \<Rightarrow> 'z mheap_scheme \<Rightarrow> (ptr \<times> 'z mheap_scheme) option" where
  "metadata_xml_new_from_xml X raw h =
     (case xmlParseMemory X raw of
        None \<Rightarrow> Some (NULL, h)
      | Some doc \<Rightarrow>
          do {
            xn \<leftarrow> xmlDocGetRootElement doc;
            (m, h) \<leftarrow> metadata_new (Some (xn_name xn)) None NULL h;
            if m = NULL then Some (NULL, h)
            else
              do {
                (r, h) \<leftarrow> metadata_xml_parse m xn h;
                if r = 0 then do { h \<leftarrow> metadata_free m h; Some (NULL, h) }
                else
                  let (content, h) = xmlNodeGetContent xn h in
                  do {
                    h \<leftarrow> (case content of None \<Rightarrow> Some h | Some _ \<Rightarrow> map_option snd (metadata_set_content m content h));
                    Some (m, h)
                  }
              }
          })"

section \<open>From metadata to XML\<close>

text \<open>The body of the loop over the parameters.\<close>

definition prop_body :: "libxml \<Rightarrow> ptr \<Rightarrow> 'z mheap_scheme \<times> xml_node
    \<Rightarrow> ('z mheap_scheme \<times> xml_node + 'z mheap_scheme \<times> xml_node) option" where
  "prop_body X a s =
     (case s of (h, xn) \<Rightarrow>
        do {
          nm \<leftarrow> haggle_attribute_get_name a h;
          vl \<leftarrow> haggle_attribute_get_value a h;
          let (r, h) = xmlNewProp X xn nm vl h in
          Some (case r of None \<Rightarrow> Inl (h, xn) | Some xn \<Rightarrow> Inr (h, xn))
        })"

text \<open>
  The recursion through the children: \<open>Inl (m, xn)\<close> is a call for the node \<open>m\<close>, \<open>Inr (m, mc, xn)\<close> the loop over its
  children that has come to \<open>mc\<close>.  The node \<open>xn\<close> with what was added to it is part of the result.
\<close>

partial_function (option) create_xml_rec :: "libxml \<Rightarrow> (ptr \<times> xml_node option) + (ptr \<times> ptr \<times> xml_node) \<Rightarrow> 'z mheap_scheme
    \<Rightarrow> (int \<times> xml_node option \<times> 'z mheap_scheme) option" where
  "create_xml_rec X arg h =
     (case arg of
        Inl (m, xn) \<Rightarrow>
          (case xn of
             None \<Rightarrow> Some (-1, None, h)
           | Some xn \<Rightarrow>
               do {
                 md \<leftarrow> h_mds h m;
                 r \<leftarrow> list_for_each (\<lambda>s. h_links (fst s)) (prop_body X) (md_parameters md) (h, xn);
                 (case r of
                    Inl (h, xn) \<Rightarrow> Some (-1, Some xn, h)
                  | Inr (h, xn) \<Rightarrow>
                      do {
                        (mc, h) \<leftarrow> metadata_get m None h;
                        create_xml_rec X (Inr (m, mc, xn)) h
                      })
               })
      | Inr (m, mc, xn) \<Rightarrow>
          if mc = NULL then Some (1, Some xn, h)
          else
            do {
              nm \<leftarrow> metadata_get_name mc h;
              ct \<leftarrow> metadata_get_content mc h;
              let (c, h) = xmlNewChild X xn nm ct h in
              do {
                (r, c, h) \<leftarrow> create_xml_rec X (Inl (mc, c)) h;
                let xn = (case c of None \<Rightarrow> xn | Some c \<Rightarrow> add_child xn c) in
                if r < 0 then Some (-1, Some xn, h)
                else
                  do {
                    (mc, h) \<leftarrow> metadata_get_next m h;
                    create_xml_rec X (Inr (m, mc, xn)) h
                  }
              }
            })"

definition metadata_xml_create_xml :: "libxml \<Rightarrow> ptr \<Rightarrow> xml_node option \<Rightarrow> 'z mheap_scheme
    \<Rightarrow> (int \<times> xml_node option \<times> 'z mheap_scheme) option" where
  "metadata_xml_create_xml X m xn h = create_xml_rec X (Inl (m, xn)) h"

definition metadata_xml_create_doc :: "libxml \<Rightarrow> ptr \<Rightarrow> 'z mheap_scheme \<Rightarrow> (xml_doc option \<times> 'z mheap_scheme) option" where
  "metadata_xml_create_doc X m h =
     (let (ok, h) = malloc_ok h in
      if \<not> ok then Some (None, h)
      else
        do {
          nm \<leftarrow> metadata_get_name m h;
          let (xn, h) = xmlNewNode nm h in
          (case xn of
             None \<Rightarrow> Some (None, h)
           | Some xn \<Rightarrow>
               do {
                 (r, xn, h) \<leftarrow> metadata_xml_create_xml X m (Some xn) h;
                 Some (if r = 0 then None else map_option (\<lambda>x. [x]) xn, h)
               })
        })"

text \<open>
  \<open>metadata_xml_get_raw\<close> fills a buffer of \<open>len\<close> bytes, \<open>None\<close> for \<open>NULL\<close>; a \<open>len\<close> beyond the buffer and a length of
  the output beyond its text are undefined.
\<close>

definition metadata_xml_get_raw :: "libxml \<Rightarrow> ptr \<Rightarrow> string option \<Rightarrow> nat \<Rightarrow> 'z mheap_scheme
    \<Rightarrow> (int \<times> string option \<times> 'z mheap_scheme) option" where
  "metadata_xml_get_raw X m buf len h =
     (case buf of
        None \<Rightarrow> Some (-1, None, h)
      | Some b \<Rightarrow>
          if length b < len then None
          else
            let b = replicate len CHR 0x00 @ drop len b in
            do {
              (doc, h) \<leftarrow> metadata_xml_create_doc X m h;
              (case doc of
                 None \<Rightarrow> Some (-1, Some b, h)
               | Some doc \<Rightarrow>
                   let (xml, xmlLen) = xmlDocDumpFormatMemory X doc in
                   if xmlLen < 0 then Some (-2, Some b, h)
                   else if int len < xmlLen then Some (-3, Some b, h)
                   else if int (length xml) < xmlLen then None
                   else Some (xmlLen, Some (take (nat xmlLen) xml @ drop (nat xmlLen) b), h))
            })"

text \<open>
  \<open>metadata_xml_get_raw_alloc\<close> returns the code, what it stores in \<open>*buf\<close> (\<open>None\<close> when nothing) and in \<open>*len\<close>.  The flags say
  whether the two pointers are not \<open>NULL\<close>.
\<close>

definition metadata_xml_get_raw_alloc :: "libxml \<Rightarrow> ptr \<Rightarrow> bool \<Rightarrow> bool \<Rightarrow> 'z mheap_scheme
    \<Rightarrow> (int \<times> string option \<times> u64 option \<times> 'z mheap_scheme) option" where
  "metadata_xml_get_raw_alloc X m buf len h =
     (if \<not> buf \<or> \<not> len then Some (-1, None, None, h)
      else
        do {
          (doc, h) \<leftarrow> metadata_xml_create_doc X m h;
          (case doc of
             None \<Rightarrow> Some (-1, None, Some 0, h)
           | Some doc \<Rightarrow>
               let (xml, count) = xmlDocDumpFormatMemory X doc in
               if count \<le> 0 then Some (-1, Some xml, Some 0, h)
               else Some (count, Some xml, Some (word_of_int count), h))
        })"

section \<open>What a document says\<close>

text \<open>
  The values that an element describes: its attributes as parameters (the last value of a name counts), the
  last text that is not blank as the content, the elements below it as the children.
\<close>

fun last_text :: "string option \<Rightarrow> xml_node list \<Rightarrow> string option" where
  "last_text c [] = c"
| "last_text c (XML_TEXT_NODE s # xs) = last_text (if list_all is_blank_ch s then c else Some s) xs"
| "last_text c (_ # xs) = last_text c xs"

fun put_props :: "(string \<times> string) list \<Rightarrow> (string \<times> string option list) list \<Rightarrow> (string \<times> string) list" where
  "put_props ps [] = ps"
| "put_props ps ((n, Some v # _) # qs) = put_props (put_param ps n v) qs"
| "put_props ps (_ # qs) = put_props ps qs"

fun decode :: "xml_node \<Rightarrow> meta" where
  "decode (XML_ELEMENT_NODE nm ps cs) = Meta nm (last_text None cs) (put_props [] ps) (map decode (filter is_element cs))"
| "decode _ = Meta [] None [] []"

text \<open>Every attribute has a node with its value.\<close>

fun xml_ok :: "xml_node \<Rightarrow> bool" where
  "xml_ok (XML_ELEMENT_NODE nm ps cs) \<longleftrightarrow> (\<forall>p \<in> set ps. snd p \<noteq> []) \<and> (\<forall>c \<in> set cs. xml_ok c)"
| "xml_ok _ \<longleftrightarrow> True"

lemma parse_properties_tree:
  assumes "tree_in h (MT p al xs ts) (Meta nm c ps ms)" "\<forall>q \<in> set qs. snd q \<noteq> []"
  shows "\<exists>h' xs'. parse_properties p qs h = Some h'
    \<and> becomes (MT p al xs ts) h (MT p al xs' ts) (Meta nm c (put_props ps qs) ms) h'"
  using assms
proof (induction ps qs arbitrary: h xs rule: put_props.induct)
  case (1 ps)
  then show ?case using becomes_refl by fastforce
next
  case (2 ps n v cs qs)
  obtain r h1 xs1 where 1: "metadata_set_parameter p (Some n) (Some v) h = Some (r, h1)"
    "becomes (MT p al xs ts) h (MT p al xs1 ts) (Meta nm c (put_param ps n v) ms) h1"
    using set_parameter_tree [OF "2.prems"(1)] by blast
  then obtain h2 xs2 where "parse_properties p qs h1 = Some h2"
    "becomes (MT p al xs1 ts) h1 (MT p al xs2 ts) (Meta nm c (put_props (put_param ps n v) qs) ms) h2"
    using "2.IH" [of h1 xs1] "2.prems"(2) by (auto simp: becomes_def)
  then show ?case using 1 becomes_trans by fastforce
qed (simp_all add: metadata_set_parameter_def)

lemma parse_children_tree:
  fixes h :: "'z mheap_scheme"
  assumes "\<And>x h p al. x \<in> set cs \<Longrightarrow> is_element x \<Longrightarrow> xml_ok x \<Longrightarrow> tree_in h (MT p al [] []) (Meta (xn_name x) None [] [])
      \<Longrightarrow> \<exists>h' t'. metadata_xml_parse p x h = Some (1, h') \<and> becomes (MT p al [] []) h t' (decode x) (h' :: 'z mheap_scheme)"
    and "\<forall>x \<in> set cs. xml_ok x" "tree_in h (MT p al xs ts) (Meta nm c ps ms)"
  shows "\<exists>h' ts'. parse_children p cs h = Some (1, h')
    \<and> becomes (MT p al xs ts) h (MT p al xs ts') (Meta nm (last_text c cs) ps (ms @ map decode (filter is_element cs))) h'"
  using assms
proof (induction cs arbitrary: h c ts ms)
  case Nil
  then show ?case using becomes_refl [of h] by auto
next
  case (Cons x cs)
  have IH: "\<exists>h' ts'. parse_children p cs h = Some (1, h')
      \<and> becomes (MT p al xs ts) h (MT p al xs ts') (Meta nm (last_text c cs) ps (ms @ map decode (filter is_element cs))) h'"
    if "tree_in h (MT p al xs ts) (Meta nm c ps ms)" for h :: "'z mheap_scheme" and c ts ms
    by (rule Cons.IH) (use Cons.prems(1,2) that in simp_all)
  show ?case
  proof (cases x)
    case (XML_ELEMENT_NODE n qs ds)
    let ?m = "h_brk h" and ?new = "MT (h_brk h) (h_brk h + 4) [] []"
    obtain h1 where h1: "metadata_new (Some n) None p h = Some (?m, h1)" "?m \<noteq> NULL"
      "becomes (MT p al xs ts) h (MT p al xs (ts @ [?new])) (Meta nm c ps (ms @ [Meta n None [] []])) h1"
      using metadata_new_child [OF Cons.prems(3)] by blast
    have t1: "tree_in h1 (MT p al xs (ts @ [?new])) (Meta nm c ps (ms @ [Meta n None [] []]))" using h1(3) by (simp add: becomes_def)
    have len: "length ms = length ts" using Cons.prems(3) by (auto simp: tree_in_MT dest: list_all2_lengthD)
    have "tree_in h1 ?new (Meta (xn_name x) None [] [])"
      using tree_in_child [OF t1, of "length ts"] len XML_ELEMENT_NODE by (simp add: nth_append)
    moreover have "x \<in> set (x # cs)" "is_element x" "xml_ok x" using Cons.prems(2) XML_ELEMENT_NODE by simp_all
    ultimately obtain h2 t' where h2: "metadata_xml_parse ?m x h1 = Some (1, h2)" "becomes ?new h1 t' (decode x) h2"
      using Cons.prems(1) by blast
    have b2: "becomes (MT p al xs (ts @ [?new])) h1 (MT p al xs (ts @ [t'])) (Meta nm c ps (ms @ [decode x])) h2"
      using tree_in_sub [OF t1 len h2(2)] by simp
    then obtain h3 ts' where h3: "parse_children p cs h2 = Some (1, h3)"
      "becomes (MT p al xs (ts @ [t'])) h2 (MT p al xs ts') (Meta nm (last_text c cs) ps ((ms @ [decode x]) @ map decode (filter is_element cs))) h3"
      using IH [of h2 "ts @ [t']" c "ms @ [decode x]"] by (auto simp: becomes_def)
    have "becomes (MT p al xs ts) h (MT p al xs ts') (Meta nm (last_text c cs) ps ((ms @ [decode x]) @ map decode (filter is_element cs))) h3"
      using becomes_trans [OF becomes_trans [OF h1(3) b2] h3(2)] .
    then show ?thesis using XML_ELEMENT_NODE h1(1,2) h2(1) h3(1) by (auto simp del: metadata_xml_parse.simps)
  next
    case (XML_TEXT_NODE s)
    show ?thesis
    proof (cases "list_all is_blank_ch s")
      case True
      then show ?thesis using IH [OF Cons.prems(3)] XML_TEXT_NODE by auto
    next
      case False
      obtain h1 where h1: "metadata_set_content p (Some s) h = Some (Some s, h1)"
        "becomes (MT p al xs ts) h (MT p al xs ts) (Meta nm (Some s) ps ms) h1"
        using set_content_tree [OF Cons.prems(3)] by blast
      moreover have "h_mem h = []" using Cons.prems(3) by (simp add: tree_in_def)
      moreover obtain h2 ts' where "parse_children p cs h1 = Some (1, h2)"
        "becomes (MT p al xs ts) h1 (MT p al xs ts') (Meta nm (last_text (Some s) cs) ps (ms @ map decode (filter is_element cs))) h2"
        using IH [of h1 ts "Some s" ms] h1(2) by (auto simp: becomes_def)
      ultimately show ?thesis
        using False XML_TEXT_NODE becomes_trans by (fastforce simp: xmlNodeGetContent_def malloc_ok_def)
    qed
  qed (use IH [OF Cons.prems(3)] in auto)
qed

lemma metadata_xml_parse_tree:
  "is_element x \<Longrightarrow> xml_ok x \<Longrightarrow> tree_in h (MT p al [] []) (Meta (xn_name x) None [] [])
   \<Longrightarrow> \<exists>h' t'. metadata_xml_parse p x h = Some (1, h') \<and> becomes (MT p al [] []) h t' (decode x) h'"
proof (induction x arbitrary: h p al)
  case (XML_ELEMENT_NODE nm qs cs)
  obtain h1 xs1 where h1: "parse_properties p qs h = Some h1"
    "becomes (MT p al [] []) h (MT p al xs1 []) (Meta nm None (put_props [] qs) []) h1"
    using parse_properties_tree [of h p al "[]" "[]" nm None "[]" "[]" qs] XML_ELEMENT_NODE.prems(2,3) by auto
  then have "tree_in h1 (MT p al xs1 []) (Meta nm None (put_props [] qs) [])" by (simp add: becomes_def)
  then obtain h2 ts' where "parse_children p cs h1 = Some (1, h2)"
    "becomes (MT p al xs1 []) h1 (MT p al xs1 ts') (Meta nm (last_text None cs) (put_props [] qs) ([] @ map decode (filter is_element cs))) h2"
    using parse_children_tree [of cs h1, OF XML_ELEMENT_NODE.IH] XML_ELEMENT_NODE.prems(2) by force
  then show ?case using h1 becomes_trans by fastforce
qed simp_all

text \<open>The content of the root is overwritten by all the text of the document.\<close>

definition root_meta :: "xml_node \<Rightarrow> meta" where
  "root_meta x = (case decode x of Meta nm c ps ms \<Rightarrow> Meta nm (Some (xmlNodeBufGetContent x)) ps ms)"

lemma only_new_becomes:
  assumes "only_new (set (owned t)) h h1" "becomes t h1 t' v' h2"
  shows "only_new (set (owned t')) h h2"
proof -
  have g: "grows t h1 t' h2" using assms(2) by (simp add: becomes_def)
  have "h_brk h \<le> q" if "q \<in> set (owned t')" for q
    using assms(1) g that unfolding only_new_def grows_def by (meson le_trans)
  moreover have "q \<notin> set (owned t)" if "q \<notin> set (owned t')" for q using g that unfolding grows_def by blast
  ultimately show ?thesis using assms(1) g unfolding only_new_def grows_def by auto
qed

lemma only_new_tree_in:
  assumes "tree_in h t v" "tree_in h' t' v'" "only_new A h h'"
  shows "tree_in h' t v"
proof -
  have "agree (set (owned t) - {mt_ptr t}) (set (owned t)) h h'"
    using assms(1) only_new_old [OF assms(3)] by (auto simp: agree_def tree_in_def)
  then have "holds h' t v" using assms(1) by (auto simp: tree_in_def intro: holds_cong)
  then show ?thesis using assms unfolding tree_in_def only_new_def by (meson less_le_trans)
qed

lemma xmlDocGetRootElement_element: "xmlDocGetRootElement doc = Some x \<Longrightarrow> is_element x"
  by (auto simp: xmlDocGetRootElement_def find_Some_iff)

lemma xml_tree:
  assumes "wf_heap h" "h_mem h = []" "xmlParseMemory X raw = Some doc" "xmlDocGetRootElement doc = Some x" "xml_ok x"
  shows "\<exists>t h'. metadata_xml_new_from_xml X raw h = Some (mt_ptr t, h') \<and> tree_in h' t (root_meta x)
    \<and> h_links h' (mt_ptr t) = Some \<lparr>l_prev = mt_ptr t, l_next = mt_ptr t\<rparr> \<and> only_new (set (owned t)) h h'"
proof -
  let ?m = "h_brk h" and ?t = "MT (h_brk h) (h_brk h + 4) [] []"
  have el: "is_element x" by (rule xmlDocGetRootElement_element [OF assms(4)])
  obtain h1 where h1: "metadata_new (Some (xn_name x)) None NULL h = Some (?m, h1)" "?m \<noteq> NULL" "tree_in h1 ?t (Meta (xn_name x) None [] [])"
    "h_links h1 ?m = Some \<lparr>l_prev = ?m, l_next = ?m\<rparr>" "only_new (set (owned ?t)) h h1"
    using metadata_new_root [OF assms(1,2)] by blast
  obtain h2 t where h2: "metadata_xml_parse ?m x h1 = Some (1, h2)" "becomes ?t h1 t (decode x) h2"
    using metadata_xml_parse_tree [OF el assms(5) h1(3)] by blast
  obtain p al xs ts nm c ps ms where t: "t = MT p al xs ts" "decode x = Meta nm c ps ms" by (cases t; cases "decode x")
  have "p = ?m" using h2(2) by (simp add: t becomes_def grows_def)
  have "tree_in h2 (MT p al xs ts) (Meta nm c ps ms)" using h2(2) by (simp add: t becomes_def)
  then obtain h3 where h3: "metadata_set_content p (Some (xmlNodeBufGetContent x)) h2 = Some (Some (xmlNodeBufGetContent x), h3)"
    "becomes t h2 t (root_meta x) h3"
    using set_content_tree by (fastforce simp: t root_meta_def)
  have b: "becomes ?t h1 t (root_meta x) h3" by (rule becomes_trans [OF h2(2) h3(2)])
  have "h_mem h2 = []" using h2(2) by (simp add: becomes_def tree_in_def)
  then have "metadata_xml_new_from_xml X raw h = Some (?m, h3)"
    using assms(3,4) h1(1,2) h2(1) h3(1) \<open>p = ?m\<close>
    by (simp add: metadata_xml_new_from_xml_def xmlNodeGetContent_def malloc_ok_def)
  moreover have "only_new (set (owned t)) h h3" by (rule only_new_becomes [OF h1(5) b])
  moreover have "h_links h3 ?m = Some \<lparr>l_prev = ?m, l_next = ?m\<rparr>" using b h1(4) by (simp add: becomes_def grows_def)
  moreover have "tree_in h3 t (root_meta x)" "mt_ptr t = ?m" using b \<open>p = ?m\<close> t by (simp_all add: becomes_def)
  ultimately show ?thesis by metis
qed

text \<open>
  Parsing succeeds on every document whose attributes have values, and builds in new memory the tree that the
  document describes: the elements with their attributes as parameters and their text as content.  The content of
  the root is the text of the whole document.
\<close>

theorem metadata_from_xml:
  assumes "wf_heap h" "h_mem h = []" "xmlParseMemory X raw = Some doc" "xmlDocGetRootElement doc = Some x" "xml_ok x"
  shows "\<exists>t h'. metadata_xml_new_from_xml X raw h = Some (mt_ptr t, h') \<and> tree_in h' t (root_meta x)
    \<and> h_links h' (mt_ptr t) = Some \<lparr>l_prev = mt_ptr t, l_next = mt_ptr t\<rparr> \<and> only_new (set (owned t)) h h'"
  by (rule xml_tree [OF assms])

section \<open>The document of a tree\<close>

definition content_nodes :: "libxml \<Rightarrow> string option \<Rightarrow> xml_node list" where
  "content_nodes X c = (case c of None \<Rightarrow> [] | Some s \<Rightarrow> xmlStringGetNodeList X s)"

definition props_of :: "libxml \<Rightarrow> (string \<times> string) list \<Rightarrow> (string \<times> string option list) list" where
  "props_of X = map (\<lambda>(n, v). (n, xmlPropNodes X v))"

fun encode :: "libxml \<Rightarrow> meta \<Rightarrow> xml_node" where
  "encode X (Meta nm c ps ms) = XML_ELEMENT_NODE nm (props_of X ps) (content_nodes X c @ map (encode X) ms)"

text \<open>The attributes of the element.\<close>

lemma props_loop:
  assumes "h_mem h = []" "map (h_attrs h) xs = map (Some \<circ> plain_attr) ps" "NULL \<notin> set xs"
  shows "loop_over (prop_body X) xs (h, XML_ELEMENT_NODE n qs cs) = Some (Inr (h, XML_ELEMENT_NODE n (qs @ props_of X ps) cs))"
  using assms
proof (induction xs arbitrary: ps qs)
  case Nil
  then show ?case by (simp add: props_of_def)
next
  case (Cons x xs)
  then obtain a b ps' where ps: "ps = (a, b) # ps'" "h_attrs h x = Some (plain_attr (a, b))" "map (h_attrs h) xs = map (Some \<circ> plain_attr) ps'"
    by (cases ps) auto
  have "prop_body X x (h, XML_ELEMENT_NODE n qs cs) = Some (Inr (h, XML_ELEMENT_NODE n (qs @ [(a, xmlPropNodes X b)]) cs))"
    using Cons.prems(1,3) ps(2) by (simp add: prop_body_def haggle_attribute_get_name_def haggle_attribute_get_value_def plain_attr_def
        xmlNewProp_def malloc_ok_def)
  then show ?case using Cons.IH [OF Cons.prems(1) ps(3)] Cons.prems(3) ps(1) by (simp add: props_of_def)
qed

lemma create_props:
  assumes "tree_in h (MT p al xs ts) (Meta nm c ps ms)"
  shows "list_for_each (\<lambda>s. h_links (fst s)) (prop_body X) al (h, XML_ELEMENT_NODE n qs cs)
    = Some (Inr (h, XML_ELEMENT_NODE n (qs @ props_of X ps) cs))"
proof -
  have T: "h_mem h = []" "alist h al xs (map plain_attr ps)" using assms by (simp_all add: tree_in_MT)
  then have "map (h_attrs h) xs = map (Some \<circ> plain_attr) ps" "NULL \<notin> set xs"
    using alist_not_NULL [OF T(2)] by (simp_all add: alist_def)
  then have "loop_over (prop_body X) xs (h, XML_ELEMENT_NODE n qs cs) = Some (Inr (h, XML_ELEMENT_NODE n (qs @ props_of X ps) cs))"
    by (rule props_loop [OF T(1)])
  moreover have "list_for_each (\<lambda>s. h_links (fst s)) (prop_body X) al (h, XML_ELEMENT_NODE n qs cs)
      = loop_over (prop_body X) xs (h, XML_ELEMENT_NODE n qs cs)"
    by (rule list_for_each_pure)
      (use T(2) in \<open>auto simp: alist_def prop_body_def bind_eq_Some_conv xmlNewProp_def malloc_ok_def
         split: option.splits if_splits list.splits prod.splits\<close>)
  ultimately show ?thesis by simp
qed

text \<open>The loop over the children, given what the calls for the children do.\<close>

lemma create_children:
  fixes h :: "'z mheap_scheme"
  assumes "\<And>t m h n qs cs. t \<in> set ts \<Longrightarrow> tree_in h t m \<Longrightarrow> \<exists>h'. create_xml_rec X (Inl (mt_ptr t, Some (XML_ELEMENT_NODE n qs cs))) h
        = Some (1, Some (XML_ELEMENT_NODE n (qs @ props_of X (me_params m)) (cs @ map (encode X) (me_subs m))), h')
      \<and> walked (set (tree_nodes t)) h (h' :: 'z mheap_scheme)"
    and "tree_in h (MT p al xs (ts0 @ ts)) (Meta nm c ps (ms0 @ ms))" "length ms0 = length ts0"
    and "iterating p None (map mt_ptr ts0) (map mt_ptr ts) h"
  shows "\<exists>h'. create_xml_rec X (Inr (p, if ts = [] then NULL else mt_ptr (hd ts), XML_ELEMENT_NODE n qs cs)) h
      = Some (1, Some (XML_ELEMENT_NODE n qs (cs @ map (encode X) ms)), h')
    \<and> walked (insert p (set (concat (map tree_nodes ts)))) h h'"
  using assms
proof (induction ts arbitrary: h ts0 ms0 ms cs)
  case Nil
  then have "ms = []" by (auto simp: tree_in_MT list_all2_append dest: list_all2_lengthD)
  then show ?case using walked_refl by (subst create_xml_rec.simps) auto
next
  case (Cons t ts)
  have "list_all2 (holds h) (ts0 @ t # ts) (ms0 @ ms)" using Cons.prems(2) by (simp add: tree_in_MT)
  then obtain m ms' where ms: "ms = m # ms'" using Cons.prems(3) by (cases ms) (auto dest: list_all2_lengthD)
  have T: "tree_in h (MT p al xs (ts0 @ t # ts)) (Meta nm c ps (ms0 @ m # ms'))" using Cons.prems(2) ms by simp
  have t: "tree_in h t m" using tree_in_child [OF T, of "length ts0"] Cons.prems(3) by (simp add: nth_append)
  have p: "p \<notin> set (tree_nodes t)" "p \<noteq> NULL" "mt_ptr t \<noteq> NULL" "h_mem h = []"
    using T tree_parts(1) [of t] tree_in_ptr [OF t] tree_in_ptr [OF T] by (auto simp: tree_in_def)
  obtain nm1 c1 ps1 ms1 where m: "m = Meta nm1 c1 ps1 ms1" by (cases m)
  have rd: "metadata_get_name (mt_ptr t) h = Some (Some nm1)" "metadata_get_content (mt_ptr t) h = Some c1"
    using tree_reads(1,2) [OF t] m by simp_all
  obtain h1 where h1: "create_xml_rec X (Inl (mt_ptr t, Some (XML_ELEMENT_NODE nm1 [] (content_nodes X c1)))) h
      = Some (1, Some (encode X m), h1)" "walked (set (tree_nodes t)) h h1"
    using Cons.prems(1) [of t h m nm1 "[]" "content_nodes X c1"] t m by auto
  have "iterating p None (map mt_ptr ts0) (mt_ptr t # map mt_ptr ts) h1"
    using iterating_walked [OF Cons.prems(4) h1(2) p(1)] by simp
  moreover have T1: "tree_in h1 (MT p al xs ((ts0 @ [t]) @ ts)) (Meta nm c ps ((ms0 @ [m]) @ ms'))"
    using walked_tree_in [OF h1(2) T] by simp
  moreover have "named h1 (map mt_ptr ts0 @ mt_ptr t # map mt_ptr ts)" using tree_named(1) [OF T1] by simp
  ultimately obtain us h2 where h2: "metadata_get_next p h1 = Some (if ts = [] then NULL else mt_ptr (hd ts), h2)"
    "us @ map mt_ptr ts = map mt_ptr ts0 @ mt_ptr t # map mt_ptr ts" "iterating p None us (map mt_ptr ts) h2" "same_tree h1 h2"
    using metadata_get_next_advances [of p None "map mt_ptr ts0" "mt_ptr t" "map mt_ptr ts" h1] p(2)
    by (auto simp: name_matches_def hd_map)
  have "us @ map mt_ptr ts = map mt_ptr (ts0 @ [t]) @ map mt_ptr ts" using h2(2) by simp
  then have us: "us = map mt_ptr (ts0 @ [t])" by (simp only: append_same_eq)
  have w2: "walked {p} h1 h2" by (rule set_md_walked [OF get_next_set_md [OF h2(1)] h2(4)])
  obtain h3 where h3: "create_xml_rec X (Inr (p, if ts = [] then NULL else mt_ptr (hd ts), XML_ELEMENT_NODE n qs (cs @ [encode X m]))) h2
      = Some (1, Some (XML_ELEMENT_NODE n qs ((cs @ [encode X m]) @ map (encode X) ms')), h3)"
    "walked (insert p (set (concat (map tree_nodes ts)))) h2 h3"
    using Cons.IH [of h2 "ts0 @ [t]" "ms0 @ [m]" ms' "cs @ [encode X m]"] Cons.prems(1,3) walked_tree_in [OF w2 T1] h2(3) us by auto
  have "walked (insert p (set (concat (map tree_nodes (t # ts))))) h h3"
    by (rule walked_mono [OF walked_trans [OF walked_trans [OF h1(2) w2] h3(2)]]) auto
  moreover have "create_xml_rec X (Inr (p, mt_ptr t, XML_ELEMENT_NODE n qs cs)) h
      = Some (1, Some (XML_ELEMENT_NODE n qs (cs @ map (encode X) ms)), h3)"
    using rd h1(1) h2(1) h3(1) p ms
    by (subst create_xml_rec.simps) (simp add: xmlNewChild_def xmlNewNode_def malloc_ok_def content_nodes_def)
  ultimately show ?case by auto
qed

lemma create_xml_tree:
  "tree_in h t v \<Longrightarrow> \<exists>h'. create_xml_rec X (Inl (mt_ptr t, Some (XML_ELEMENT_NODE n qs cs))) h
     = Some (1, Some (XML_ELEMENT_NODE n (qs @ props_of X (me_params v)) (cs @ map (encode X) (me_subs v))), h')
   \<and> walked (set (tree_nodes t)) h h'"
proof (induction t arbitrary: h v n qs cs)
  case (MT p al xs ts)
  obtain nm c ps ms where v: "v = Meta nm c ps ms" by (cases v)
  note T = MT.prems [unfolded v]
  obtain md where md: "h_mds h p = Some md" "md_parameters md = al" using T by (auto simp: tree_in_MT core_def)
  have r: "ring (h_links h) (children p) (map mt_ptr ts)" "h_mem h = []" "p \<noteq> NULL" using T by (auto simp: tree_in_MT)
  obtain us h1 where h1: "metadata_get p None h = Some (if ts = [] then NULL else mt_ptr (hd ts), h1)"
    "us @ map mt_ptr ts = map mt_ptr ts" "iterating p None us (map mt_ptr ts) h1" "same_tree h h1"
    using metadata_get_starts [OF r(1) tree_named(1) [OF T] r(2) md(1) r(3), of None] by (auto simp: name_matches_def hd_map)
  have w1: "walked {p} h h1" by (rule set_md_walked [OF get_set_md [OF h1(1) r(2)] h1(4)])
  have "tree_in h1 (MT p al xs ([] @ ts)) (Meta nm c ps ([] @ ms))" using walked_tree_in [OF w1 T] by simp
  then obtain h2 where h2: "create_xml_rec X (Inr (p, if ts = [] then NULL else mt_ptr (hd ts), XML_ELEMENT_NODE n (qs @ props_of X ps) cs)) h1
      = Some (1, Some (XML_ELEMENT_NODE n (qs @ props_of X ps) (cs @ map (encode X) ms)), h2)"
    "walked (insert p (set (concat (map tree_nodes ts)))) h1 h2"
    using create_children [OF MT.IH, of ts h1 p al xs "[]"] h1(2,3) by fastforce
  have "walked (set (tree_nodes (MT p al xs ts))) h h2"
    by (rule walked_mono [OF walked_trans [OF w1 h2(2)]]) auto
  then show ?case
    using md create_props [OF T, of X n qs cs] h1(1) h2(1) v by (subst create_xml_rec.simps) auto
qed

lemma document_tree:
  assumes "tree_in h t v"
  shows "\<exists>h'. metadata_xml_create_doc X (mt_ptr t) h = Some (Some [encode X (Meta (me_name v) None (me_params v) (me_subs v))], h')
    \<and> tree_in h' t v \<and> walked (set (tree_nodes t)) h h'"
proof -
  have "h_mem h = []" using assms by (simp add: tree_in_def)
  obtain h' where h': "create_xml_rec X (Inl (mt_ptr t, Some (XML_ELEMENT_NODE (me_name v) [] []))) h
     = Some (1, Some (XML_ELEMENT_NODE (me_name v) (props_of X (me_params v)) (map (encode X) (me_subs v))), h')"
    "walked (set (tree_nodes t)) h h'"
    using create_xml_tree [OF assms, of X "me_name v" "[]" "[]"] by auto
  then show ?thesis
    using \<open>h_mem h = []\<close> tree_reads(1) [OF assms] walked_tree_in [OF h'(2) assms]
    by (simp add: metadata_xml_create_doc_def malloc_ok_def xmlNewNode_def metadata_xml_create_xml_def content_nodes_def)
qed

text \<open>
  The document made from a tree of metadata has one element for every node, with the parameters as attributes, the
  content as text before the children, and the children in their order; the tree is unchanged.  The content of the root is not
  written.
\<close>

theorem xml_document_of_metadata:
  assumes "tree_in h t v"
  shows "\<exists>h'. metadata_xml_create_doc X (mt_ptr t) h = Some (Some [encode X (Meta (me_name v) None (me_params v) (me_subs v))], h')
    \<and> tree_in h' t v \<and> walked (set (tree_nodes t)) h h'"
  by (rule document_tree [OF assms])

section \<open>There and back\<close>

text \<open>A document without the white space between its elements, which is all that formatted output adds.\<close>

fun strip :: "xml_node \<Rightarrow> xml_node" where
  "strip (XML_ELEMENT_NODE nm ps cs) = XML_ELEMENT_NODE nm ps (map strip (filter (\<lambda>c. \<not> xmlIsBlankNode c) cs))"
| "strip x = x"

lemma strip_simps [simp]: "is_element (strip x) = is_element x" "xmlIsBlankNode (strip x) = xmlIsBlankNode x"
  by (cases x; simp)+

lemma last_text_strip: "last_text c (map strip (filter (\<lambda>c. \<not> xmlIsBlankNode c) cs)) = last_text c cs"
  by (induction c cs rule: last_text.induct) auto

lemma filter_strip:
  "filter is_element (map strip (filter (\<lambda>c. \<not> xmlIsBlankNode c) cs)) = map strip (filter is_element cs)"
proof (induction cs)
  case (Cons x cs)
  then show ?case by (cases x) auto
qed simp

lemma decode_strip: "decode (strip x) = decode x"
proof (induction x)
  case (XML_ELEMENT_NODE nm ps cs)
  then show ?case by (auto simp: last_text_strip filter_strip)
qed simp_all

lemma xml_ok_strip: "xml_ok (strip x) = xml_ok x"
proof (induction x)
  case (XML_ELEMENT_NODE nm ps cs)
  have "xml_ok c" if "xmlIsBlankNode c" for c using that by (cases c rule: xml_ok.cases) auto
  then show ?case using XML_ELEMENT_NODE by auto
qed simp_all

text \<open>
  What is relied on of libxml: a string without references becomes one node with this text, the value of an attribute is
  read as it was given, and a document that was written is read again with the same markup.
\<close>

definition text_as_given :: "libxml \<Rightarrow> string \<Rightarrow> bool" where
  "text_as_given X s \<longleftrightarrow> xmlStringGetNodeList X s = [XML_TEXT_NODE s]"

definition value_as_given :: "libxml \<Rightarrow> string \<Rightarrow> bool" where
  "value_as_given X s \<longleftrightarrow> xmlPropNodes X s = [Some s]"

definition rereads :: "libxml \<Rightarrow> xml_node \<Rightarrow> bool" where
  "rereads X x \<longleftrightarrow> (\<exists>s x'. xmlDocDumpFormatMemory X [x] = (s, int (length s)) \<and> s \<noteq> [] \<and> length s < 2 ^ 31
     \<and> xmlParseMemory X s = Some [x'] \<and> is_element x' \<and> strip x' = strip x)"

fun as_given :: "libxml \<Rightarrow> meta \<Rightarrow> bool" where
  "as_given X (Meta nm c ps ms) \<longleftrightarrow> (\<forall>s. c = Some s \<longrightarrow> text_as_given X s) \<and> distinct (map fst ps)
     \<and> (\<forall>p \<in> set ps. value_as_given X (snd p)) \<and> (\<forall>m \<in> set ms. as_given X m)"

text \<open>A blank content is not distinguished from none.\<close>

fun no_blank :: "meta \<Rightarrow> meta" where
  "no_blank (Meta nm c ps ms) =
     Meta nm (case c of None \<Rightarrow> None | Some s \<Rightarrow> if list_all is_blank_ch s then None else Some s) ps (map no_blank ms)"

lemma put_props_distinct:
  "distinct (map fst (qs @ ps)) \<Longrightarrow> \<forall>p \<in> set ps. value_as_given X (snd p) \<Longrightarrow> put_props qs (props_of X ps) = qs @ ps"
proof (induction ps arbitrary: qs)
  case (Cons p ps)
  obtain n v where p: "p = (n, v)" by (cases p)
  have "put_param qs n v = qs @ [(n, v)]" using Cons.prems(1) p by (intro put_param_new) auto
  moreover have "put_props (qs @ [(n, v)]) (props_of X ps) = (qs @ [(n, v)]) @ ps"
    by (rule Cons.IH) (use Cons.prems p in auto)
  ultimately show ?case using Cons.prems(2) p by (simp add: props_of_def value_as_given_def)
qed (simp add: props_of_def)

lemma encode_element [simp]: "is_element (encode X v)" "xmlIsBlankNode (encode X v) = False"
  by (cases v; simp)+

lemma filter_encode [simp]: "filter is_element (map (encode X) ms) = map (encode X) ms" "last_text c (map (encode X) ms) = c"
proof -
  show "filter is_element (map (encode X) ms) = map (encode X) ms" by (induction ms) auto
  show "last_text c (map (encode X) ms) = c"
  proof (induction ms)
    case (Cons m ms)
    then show ?case by (cases m) simp
  qed simp
qed

lemma decode_encode: "as_given X v \<Longrightarrow> decode (encode X v) = no_blank v"
proof (induction v)
  case (Meta nm c ps ms)
  have "put_props [] (props_of X ps) = ps" using put_props_distinct [of "[]" ps X] Meta.prems by simp
  moreover have "map (decode \<circ> encode X) ms = map no_blank ms" using Meta by auto
  ultimately show ?case
    using Meta.prems by (cases c) (auto simp: content_nodes_def text_as_given_def)
qed

lemma xml_ok_encode: "as_given X v \<Longrightarrow> xml_ok (encode X v)"
proof (induction v)
  case (Meta nm c ps ms)
  then show ?case
    by (cases c) (auto simp: content_nodes_def text_as_given_def props_of_def value_as_given_def)
qed

lemma reread_root:
  assumes "as_given X v" "rereads X (encode X v)" "me_content v = None"
  obtains raw x where "xmlDocDumpFormatMemory X [encode X v] = (raw, int (length raw))" "raw \<noteq> []" "length raw < 2 ^ 31"
    "xmlParseMemory X raw = Some [x]" "xmlDocGetRootElement [x] = Some x" "xml_ok x"
    "root_meta x = Meta (me_name v) (Some (xmlNodeBufGetContent x)) (me_params v) (map no_blank (me_subs v))"
proof -
  obtain raw x where raw: "xmlDocDumpFormatMemory X [encode X v] = (raw, int (length raw))" "raw \<noteq> []" "length raw < 2 ^ 31"
    "xmlParseMemory X raw = Some [x]" "is_element x" "strip x = strip (encode X v)"
    using assms(2) unfolding rereads_def by blast
  have "xml_ok x" using xml_ok_strip [of x] xml_ok_strip [of "encode X v"] raw(6) xml_ok_encode [OF assms(1)] by simp
  moreover have "xmlDocGetRootElement [x] = Some x" using raw(5) by (simp add: xmlDocGetRootElement_def)
  moreover have "decode x = no_blank v" using decode_strip [of x] decode_strip [of "encode X v"] raw(6) decode_encode [OF assms(1)] by simp
  then have "root_meta x = Meta (me_name v) (Some (xmlNodeBufGetContent x)) (me_params v) (map no_blank (me_subs v))"
    using assms(3) by (cases v) (simp add: root_meta_def)
  ultimately show ?thesis using raw(1-4) that by blast
qed

text \<open>
  C9: A tree that is written as XML and parsed again is the same tree, as far as blank contents are not distinguished
  from none and except for the content of the root; the original tree is still there.  The contents are free of references and markup, which
  libxml would interpret, and the parameters of each node have distinct names.
\<close>

theorem metadata_xml_roundtrip:
  assumes "tree_in h t v" "as_given X v"
    and "rereads X (encode X (Meta (me_name v) None (me_params v) (me_subs v)))"
  shows "\<exists>raw h1 t' h2 c. metadata_xml_get_raw_alloc X (mt_ptr t) True True h = Some (int (length raw), Some raw, Some (of_nat (length raw)), h1)
    \<and> metadata_xml_new_from_xml X raw h1 = Some (mt_ptr t', h2)
    \<and> tree_in h2 t' (Meta (me_name v) (Some c) (me_params v) (map no_blank (me_subs v))) \<and> tree_in h2 t v"
proof -
  let ?v = "Meta (me_name v) None (me_params v) (me_subs v)"
  obtain h1 where h1: "metadata_xml_create_doc X (mt_ptr t) h = Some (Some [encode X ?v], h1)" "tree_in h1 t v"
    using document_tree [OF assms(1)] by blast
  have "as_given X ?v" using assms(2) by (cases v) simp
  then obtain raw x where raw: "xmlDocDumpFormatMemory X [encode X ?v] = (raw, int (length raw))" "raw \<noteq> []"
    "xmlParseMemory X raw = Some [x]" "xmlDocGetRootElement [x] = Some x" "xml_ok x"
    "root_meta x = Meta (me_name v) (Some (xmlNodeBufGetContent x)) (me_params v) (map no_blank (me_subs v))"
    using reread_root [OF _ assms(3)] by (metis meta.sel)
  have "wf_heap h1" "h_mem h1 = []" using h1(2) by (simp_all add: tree_in_def)
  then obtain t' h2 where h2: "metadata_xml_new_from_xml X raw h1 = Some (mt_ptr t', h2)" "tree_in h2 t' (root_meta x)" "only_new (set (owned t')) h1 h2"
    using xml_tree [OF _ _ raw(3-5)] by blast
  moreover have "tree_in h2 t v" by (rule only_new_tree_in [OF h1(2) h2(2,3)])
  moreover have "metadata_xml_get_raw_alloc X (mt_ptr t) True True h = Some (int (length raw), Some raw, Some (of_nat (length raw)), h1)"
    using h1(1) raw(1,2) by (simp add: metadata_xml_get_raw_alloc_def)
  ultimately show ?thesis using h2 raw(6) by metis
qed

text \<open>
  C33: \<open>metadata_xml_get_raw\<close> writes the document to the beginning of the buffer when it fits and fills the rest of the first \<open>len\<close> bytes with
  zeros; otherwise it returns -3 and the buffer is cleared.  What lies behind the first \<open>len\<close> bytes is never touched.
\<close>

theorem metadata_xml_get_raw_fits:
  assumes "tree_in h t v" "len \<le> length buf"
    and "xmlDocDumpFormatMemory X [encode X (Meta (me_name v) None (me_params v) (me_subs v))] = (raw, int (length raw))"
  shows "\<exists>h'. metadata_xml_get_raw X (mt_ptr t) (Some buf) len h
      = Some (if length raw \<le> len then (int (length raw), Some (raw @ replicate (len - length raw) CHR 0x00 @ drop len buf), h')
              else (-3, Some (replicate len CHR 0x00 @ drop len buf), h')) \<and> tree_in h' t v"
proof -
  obtain h' where "metadata_xml_create_doc X (mt_ptr t) h = Some (Some [encode X (Meta (me_name v) None (me_params v) (me_subs v))], h')"
    "tree_in h' t v"
    using document_tree [OF assms(1)] by blast
  then show ?thesis using assms(2,3) by (auto simp: metadata_xml_get_raw_def Let_def)
qed

section \<open>Examples\<close>

text \<open>The tree of the previous theories and the document with its markup, as the library reads it.\<close>

definition sample_meta :: meta where
  "sample_meta = Meta ''root'' None [] [Meta ''a'' (Some ''1'') [] [], Meta ''b'' None [] [], Meta ''a'' (Some ''2'') [] []]"

definition sample_mtree :: mtree where
  "sample_mtree = MT 1 5 [] [MT 9 13 [] [], MT 17 21 [] [], MT 25 29 [] []]"

definition sample_doc :: xml_node where
  "sample_doc = XML_ELEMENT_NODE ''root'' []
     [XML_TEXT_NODE '' '', XML_ELEMENT_NODE ''a'' [] [XML_TEXT_NODE ''1''], XML_TEXT_NODE '' '', XML_ELEMENT_NODE ''b'' [] [],
      XML_ELEMENT_NODE ''a'' [] [XML_TEXT_NODE ''2'']]"

definition sample_raw :: string where
  "sample_raw = ''<root> <a>1</a> <b/><a>2</a></root>''"

definition sample_libxml :: libxml where
  "sample_libxml = \<lparr>xmlParseMemory = (\<lambda>s. if s = sample_raw then Some [sample_doc] else None),
     xmlDocDumpFormatMemory = (\<lambda>d. (sample_raw, int (length sample_raw))),
     xmlStringGetNodeList = (\<lambda>s. [XML_TEXT_NODE s]), xmlPropNodes = (\<lambda>s. [Some s])\<rparr>"

lemma sample_tree_in: "tree_in sample_tree sample_mtree sample_meta"
  unfolding sample_mtree_def sample_meta_def tree_in_MT list_all2_Cons list_all2_Nil holds_MT
  by (simp add: sample_tree_def core_def alist_def wf_heap_def ring_def linked_def metadata_new_def metadata_set_name_def
      metadata_set_content_def metadata_add_def metadata_detach_def set_md_def haggle_attributelist_new_def malloc_def
      malloc_ok_def INIT_LIST_def list_add_tail_def listelm_add_def list_detach_def listelm_detach_def
      set_next_def set_prev_def Let_def)

theorem metadata_from_xml_witness:
  "\<exists>t h'. metadata_xml_new_from_xml sample_libxml sample_raw sample_tree = Some (mt_ptr t, h')
     \<and> tree_in h' t (Meta ''root'' (Some '' 1 2'') [] (map no_blank (me_subs sample_meta)))"
proof -
  have "xmlParseMemory sample_libxml sample_raw = Some [sample_doc]" "xmlDocGetRootElement [sample_doc] = Some sample_doc" "xml_ok sample_doc"
    by (simp_all add: sample_libxml_def xmlDocGetRootElement_def sample_doc_def)
  moreover have "root_meta sample_doc = Meta ''root'' (Some '' 1 2'') [] (map no_blank (me_subs sample_meta))"
    by (simp add: root_meta_def sample_doc_def sample_meta_def is_blank_ch_def)
  ultimately show ?thesis
    using metadata_from_xml [OF sample_tree_facts(8,7), of sample_libxml sample_raw "[sample_doc]" sample_doc] by auto
qed

theorem xml_document_of_metadata_witness:
  "\<exists>h'. metadata_xml_create_doc sample_libxml 1 sample_tree = Some (Some [encode sample_libxml sample_meta], h')"
  using xml_document_of_metadata [OF sample_tree_in, of sample_libxml] by (auto simp: sample_mtree_def sample_meta_def)

lemma sample_reread:
  "as_given sample_libxml sample_meta"
  "rereads sample_libxml (encode sample_libxml (Meta (me_name sample_meta) None (me_params sample_meta) (me_subs sample_meta)))"
proof -
  show "as_given sample_libxml sample_meta" by (simp add: sample_meta_def sample_libxml_def text_as_given_def)
  have "strip sample_doc = strip (encode sample_libxml (Meta (me_name sample_meta) None (me_params sample_meta) (me_subs sample_meta)))"
    by (simp add: sample_doc_def sample_meta_def sample_libxml_def content_nodes_def props_of_def is_blank_ch_def)
  then show "rereads sample_libxml (encode sample_libxml (Meta (me_name sample_meta) None (me_params sample_meta) (me_subs sample_meta)))"
    unfolding rereads_def
    by (intro exI [of _ sample_raw] exI [of _ sample_doc]) (simp add: sample_libxml_def sample_raw_def sample_doc_def)
qed

theorem metadata_xml_roundtrip_witness:
  "\<exists>raw h1 t' h2 c. metadata_xml_get_raw_alloc sample_libxml 1 True True sample_tree
       = Some (int (length raw), Some raw, Some (of_nat (length raw)), h1)
     \<and> metadata_xml_new_from_xml sample_libxml raw h1 = Some (mt_ptr t', h2)
     \<and> tree_in h2 t' (Meta ''root'' (Some c) [] (map no_blank (me_subs sample_meta)))"
proof -
  have "mt_ptr sample_mtree = 1" "me_name sample_meta = ''root''" "me_params sample_meta = []"
    by (simp_all add: sample_mtree_def sample_meta_def)
  then show ?thesis using metadata_xml_roundtrip [OF sample_tree_in sample_reread] by metis
qed

theorem metadata_xml_get_raw_fits_witness:
  "\<exists>h'. metadata_xml_get_raw sample_libxml 1 (Some ''0123456789'') 4 sample_tree
     = Some (-3, Some (replicate 4 CHR 0x00 @ ''456789''), h')"
  using metadata_xml_get_raw_fits [OF sample_tree_in, of 4 "''0123456789''" sample_libxml sample_raw]
  by (auto simp: sample_libxml_def sample_raw_def sample_mtree_def)

end
