(* ===== verification/Interface.thy ===== *)
theory Interface
  imports Metadata Base64
begin

text \<open>
  The network interfaces of \<open>src/src/libhaggle/interface.c\<close>.  An interface is one block of memory: the structure, then
  the bytes of the identifier, the name and the printed identifier, into which the members \<open>name\<close> and
  \<open>identifier_str\<close> point.  Such a pointer is a block and an offset into its bytes.  A byte that was never
  written is \<open>None\<close>, and a read of it, a read behind the end of a block or in a block that was released is
  undefined.  The sizes are below the range of \<open>int\<close>.
\<close>

section \<open>Types\<close>

datatype haggle_interface_type =
  IF_TYPE_UNDEFINED | IF_TYPE_APPLICATION_PORT | IF_TYPE_APPLICATION_LOCAL | IF_TYPE_ETHERNET | IF_TYPE_WIFI
| IF_TYPE_BLUETOOTH | IF_TYPE_MEDIA | IF_TYPE_MAX

datatype haggle_interface_status = IF_STATUS_UNDEFINED | IF_STATUS_UP | IF_STATUS_DOWN | IF_STATUS_MAX

type_synonym cptr = "ptr \<times> nat"

record haggle_interface =
  if_type :: haggle_interface_type
  if_status :: haggle_interface_status
  if_name :: cptr
  if_identifier_str :: cptr
  if_identifier_len :: nat
  if_data :: "char option list"

record iheap = mheap +
  h_ifaces :: "ptr \<rightharpoonup> haggle_interface"

text \<open>The table of the names in the order of the enumeration, up to its terminator.\<close>

definition interface_types :: "(haggle_interface_type \<times> string) list" where
  "interface_types =
     [(IF_TYPE_UNDEFINED, ''undefined''), (IF_TYPE_APPLICATION_PORT, ''application[port]''),
      (IF_TYPE_APPLICATION_LOCAL, ''application[local]''), (IF_TYPE_ETHERNET, ''ethernet''), (IF_TYPE_WIFI, ''wifi''),
      (IF_TYPE_BLUETOOTH, ''bluetooth''), (IF_TYPE_MEDIA, ''media'')]"

definition interface_typestr :: "haggle_interface_type \<Rightarrow> string option" where
  "interface_typestr t = map_of interface_types t"

definition interface_statusstr :: "haggle_interface_status \<Rightarrow> string option" where
  "interface_statusstr t =
     map_of [(IF_STATUS_UNDEFINED, ''undefined''), (IF_STATUS_UP, ''up''), (IF_STATUS_DOWN, ''down'')] t"

definition haggle_interface_str_to_type :: "string option \<Rightarrow> haggle_interface_type" where
  "haggle_interface_str_to_type str =
     (case str of
        None \<Rightarrow> IF_TYPE_UNDEFINED
      | Some s \<Rightarrow> (case find (\<lambda>(t, nm). s = nm) interface_types of Some (t, _) \<Rightarrow> t | None \<Rightarrow> IF_TYPE_UNDEFINED))"

definition interface_identifier_strlen :: "haggle_interface_type \<Rightarrow> nat" where
  "interface_identifier_strlen t = (if t \<in> {IF_TYPE_BLUETOOTH, IF_TYPE_ETHERNET, IF_TYPE_WIFI} then 18 else 0)"

section \<open>Bytes of a block\<close>

definition string_at :: "cptr \<Rightarrow> 'z iheap_scheme \<Rightarrow> string option" where
  "string_at p h = do { f \<leftarrow> h_ifaces h (fst p); read_string (drop (snd p) (if_data f)) }"

definition write_at :: "nat \<Rightarrow> string \<Rightarrow> char option list \<Rightarrow> char option list" where
  "write_at i s d = take i d @ map Some s @ drop (i + length s) d"

text \<open>\<open>sprintf\<close> with \<open>%02x\<close> for six bytes separated by colons.\<close>

definition hex_digit :: "nat \<Rightarrow> char" where
  "hex_digit n = ''0123456789abcdef'' ! n"

definition hex2 :: "char \<Rightarrow> string" where
  "hex2 c = [hex_digit (of_char c div 16), hex_digit (of_char c mod 16)]"

definition print_address :: "string \<Rightarrow> string" where
  "print_address cs = concat (map (\<lambda>c. hex2 c @ '':'') (butlast cs)) @ hex2 (last cs)"

section \<open>Operations\<close>

text \<open>
  \<open>haggle_interface_new\<close>: the list element of the structure is not initialised; nothing reads its pointers
  before \<open>list_add\<close> has written them.
\<close>

definition haggle_interface_new ::
    "haggle_interface_type \<Rightarrow> string option \<Rightarrow> string option \<Rightarrow> nat \<Rightarrow> 'z iheap_scheme \<Rightarrow> (ptr \<times> 'z iheap_scheme) option" where
  "haggle_interface_new t name identifier identifier_len h =
     (case (name, identifier) of
        (Some nm, Some idf) \<Rightarrow>
          (let (p, h) = malloc h in
           if p = NULL then Some (NULL, h)
           else if length idf < identifier_len then None
           else
             let d = map Some (take identifier_len idf) @ map Some (nm @ [CHR 0x00])
                       @ replicate (interface_identifier_strlen t) None;
                 strpos = identifier_len + length nm + 1 in
             do {
               d \<leftarrow> (if t \<in> {IF_TYPE_BLUETOOTH, IF_TYPE_ETHERNET, IF_TYPE_WIFI}
                     then do { cs \<leftarrow> those (take 6 d); Some (write_at strpos (print_address cs @ [CHR 0x00]) d) }
                     else Some d);
               Some (p, h\<lparr>h_links := (h_links h)(p \<mapsto> \<lparr>l_prev = NULL, l_next = NULL\<rparr>),
                          h_ifaces := (h_ifaces h)(p \<mapsto>
                            \<lparr>if_type = t, if_status = IF_STATUS_UNDEFINED, if_name = (p, identifier_len),
                             if_identifier_str = (p, strpos), if_identifier_len = identifier_len, if_data = d\<rparr>)\<rparr>)
             })
      | _ \<Rightarrow> Some (NULL, h))"

definition haggle_interface_free :: "ptr \<Rightarrow> 'z iheap_scheme \<Rightarrow> 'z iheap_scheme option" where
  "haggle_interface_free p h =
     (if p = NULL then Some h
      else
        do {
          _ \<leftarrow> h_ifaces h p;
          Some (h\<lparr>h_links := (h_links h)(p := None), h_ifaces := (h_ifaces h)(p := None)\<rparr>)
        })"

definition set_iface_status :: "ptr \<Rightarrow> haggle_interface_status \<Rightarrow> 'z iheap_scheme \<Rightarrow> 'z iheap_scheme option" where
  "set_iface_status p st h =
     do { f \<leftarrow> h_ifaces h p; Some (h\<lparr>h_ifaces := (h_ifaces h)(p \<mapsto> f\<lparr>if_status := st\<rparr>)\<rparr>) }"

text \<open>
  \<open>haggle_interface_new_from_metadata\<close>: \<open>stack\<close> is the decoding context before it is initialised.  When the decoder cannot
  allocate its buffer it returns true and \<open>NULL\<close>.
\<close>

definition haggle_interface_new_from_metadata ::
    "base64_decode_context \<Rightarrow> ptr \<Rightarrow> 'z iheap_scheme \<Rightarrow> (ptr \<times> 'z iheap_scheme) option" where
  "haggle_interface_new_from_metadata stack m h =
     do {
       tname \<leftarrow> metadata_get_parameter m (Some ''type'') h;
       let t = haggle_interface_str_to_type tname in
       if t = IF_TYPE_UNDEFINED then Some (NULL, h)
       else
         do {
           idp \<leftarrow> metadata_get_parameter m (Some ''identifier'') h;
           (case idp of
              None \<Rightarrow> Some (NULL, h)
            | Some idt \<Rightarrow>
                (let (ok, h) = malloc_ok h in
                 do {
                   (_, good, identifier) \<leftarrow> base64_decode_alloc ok (base64_decode_ctx_init stack) idt;
                   if \<not> good then Some (NULL, h)
                   else
                     do {
                       name \<leftarrow> metadata_get_parameter m (Some ''name'') h;
                       (p, h) \<leftarrow> haggle_interface_new t
                                  (Some (case name of Some s \<Rightarrow> s | None \<Rightarrow> ''Unknown interface''))
                                  identifier (case identifier of Some s \<Rightarrow> length s | None \<Rightarrow> 0) h;
                       if p = NULL then Some (NULL, h)
                       else
                         do {
                           status \<leftarrow> metadata_get_parameter m (Some ''status'') h;
                           (case status of
                              None \<Rightarrow> Some (p, h)
                            | Some s \<Rightarrow>
                                do {
                                  h \<leftarrow> set_iface_status p (if s = ''up'' then IF_STATUS_UP else IF_STATUS_DOWN) h;
                                  Some (p, h)
                                })
                         }
                     }
                 }))
         }
     }"

definition haggle_interface_copy :: "ptr \<Rightarrow> 'z iheap_scheme \<Rightarrow> (ptr \<times> 'z iheap_scheme) option" where
  "haggle_interface_copy p h =
     (if p = NULL then Some (NULL, h)
      else
        do {
          f \<leftarrow> h_ifaces h p;
          nm \<leftarrow> string_at (if_name f) h;
          let n = if_identifier_len f + length nm + 1 + interface_identifier_strlen (if_type f); (q, h) = malloc h in
          if q = NULL then Some (NULL, h)
          else if length (if_data f) < n then None
          else
            do {
              l \<leftarrow> h_links h p;
              Some (q, h\<lparr>h_links := (h_links h)(q \<mapsto> l), h_ifaces := (h_ifaces h)(q \<mapsto> f\<lparr>if_data := take n (if_data f)\<rparr>)\<rparr>)
            }
        })"

definition haggle_interface_get_type :: "ptr \<Rightarrow> 'z iheap_scheme \<Rightarrow> haggle_interface_type option" where
  "haggle_interface_get_type p h = (if p = NULL then Some IF_TYPE_UNDEFINED else map_option if_type (h_ifaces h p))"

definition haggle_interface_get_type_name :: "ptr \<Rightarrow> 'z iheap_scheme \<Rightarrow> string option option" where
  "haggle_interface_get_type_name p h =
     (if p = NULL then Some (Some ''undefined'') else map_option (\<lambda>f. interface_typestr (if_type f)) (h_ifaces h p))"

definition haggle_interface_get_status :: "ptr \<Rightarrow> 'z iheap_scheme \<Rightarrow> haggle_interface_status option" where
  "haggle_interface_get_status p h = (if p = NULL then Some IF_STATUS_UNDEFINED else map_option if_status (h_ifaces h p))"

definition haggle_interface_get_status_name :: "ptr \<Rightarrow> 'z iheap_scheme \<Rightarrow> string option option" where
  "haggle_interface_get_status_name p h =
     (if p = NULL then Some (Some ''undefined'') else map_option (\<lambda>f. interface_statusstr (if_status f)) (h_ifaces h p))"

text \<open>The functions that return a pointer into the block; \<open>NULL\<close> is \<open>(NULL, 0)\<close>.\<close>

definition haggle_interface_get_name :: "ptr \<Rightarrow> 'z iheap_scheme \<Rightarrow> cptr option" where
  "haggle_interface_get_name p h = (if p = NULL then Some (NULL, 0) else map_option if_name (h_ifaces h p))"

definition haggle_interface_get_identifier_str :: "ptr \<Rightarrow> 'z iheap_scheme \<Rightarrow> cptr option" where
  "haggle_interface_get_identifier_str p h = (if p = NULL then Some (NULL, 0) else map_option if_identifier_str (h_ifaces h p))"

definition haggle_interface_get_identifier :: "ptr \<Rightarrow> 'z iheap_scheme \<Rightarrow> cptr option" where
  "haggle_interface_get_identifier p h = (if p = NULL then Some (NULL, 0) else map_option (\<lambda>f. (p, 0)) (h_ifaces h p))"

definition haggle_interface_get_identifier_length :: "ptr \<Rightarrow> 'z iheap_scheme \<Rightarrow> nat option" where
  "haggle_interface_get_identifier_length p h = (if p = NULL then Some 0 else map_option if_identifier_len (h_ifaces h p))"



section \<open>A new interface\<close>

text \<open>What an interface in memory says about itself.\<close>

definition describes :: "'z iheap_scheme \<Rightarrow> ptr \<Rightarrow> haggle_interface_type \<Rightarrow> haggle_interface_status \<Rightarrow> string \<Rightarrow> string \<Rightarrow> bool" where
  "describes h p t st nm idf \<longleftrightarrow> p \<noteq> NULL
     \<and> haggle_interface_get_type p h = Some t \<and> haggle_interface_get_status p h = Some st
     \<and> (\<exists>q. haggle_interface_get_name p h = Some q \<and> string_at q h = Some nm)
     \<and> haggle_interface_get_identifier_length p h = Some (length idf)
     \<and> (\<exists>f. h_ifaces h p = Some f \<and> take (length idf) (if_data f) = map Some idf)
     \<and> (interface_identifier_strlen t = 18 \<and> 6 \<le> length idf \<longrightarrow>
          (\<exists>q. haggle_interface_get_identifier_str p h = Some q \<and> string_at q h = Some (print_address (take 6 idf))))"

text \<open>An interface whose name is in its own block.\<close>

definition whole :: "'z iheap_scheme \<Rightarrow> ptr \<Rightarrow> string \<Rightarrow> bool" where
  "whole h p nm \<longleftrightarrow> (\<exists>f l. h_ifaces h p = Some f \<and> h_links h p = Some l \<and> fst (if_name f) = p \<and> string_at (if_name f) h = Some nm
     \<and> length (if_data f) = if_identifier_len f + length nm + 1 + interface_identifier_strlen (if_type f))"

lemma hex_digit_not_nul: "n < 16 \<Longrightarrow> hex_digit n \<noteq> CHR 0x00"
  by (auto simp: hex_digit_def less_Suc_eq numeral_eq_Suc)

lemma print_address_chars: "CHR 0x00 \<notin> set (print_address cs)"
proof -
  have "CHR 0x00 \<notin> set (hex2 c)" for c
    using hex_digit_not_nul [of "of_char c div 16"] hex_digit_not_nul [of "of_char c mod 16"] nat_of_char_less_256 [of c]
    by (simp add: hex2_def less_mult_imp_div_less)
  then show ?thesis by (auto simp: print_address_def)
qed

lemma length_print_address: "length cs = 6 \<Longrightarrow> length (print_address cs) = 17"
  by (simp add: print_address_def hex2_def length_concat_const)

lemma those_map_Some [simp]: "those (map Some xs) = Some xs"
  by (induction xs) auto

lemma haggle_interface_new_describes:
  assumes "h_mem h = []" "0 < h_brk h" "CHR 0x00 \<notin> set nm" "interface_identifier_strlen t = 18 \<Longrightarrow> 6 \<le> length idf + length nm + 1"
  shows "\<exists>h'. haggle_interface_new t (Some nm) (Some idf) (length idf) h = Some (h_brk h, h')
    \<and> describes h' (h_brk h) t IF_STATUS_UNDEFINED nm idf \<and> whole h' (h_brk h) nm
    \<and> (\<forall>q. q \<noteq> h_brk h \<longrightarrow> h_links h' q = h_links h q \<and> h_ifaces h' q = h_ifaces h q)
    \<and> h_links h' (h_brk h) \<noteq> None \<and> h_attrs h' = h_attrs h \<and> h_alists h' = h_alists h \<and> h_mds h' = h_mds h
    \<and> h_mem h' = [] \<and> h_brk h' = h_brk h + 4 \<and> iheap.more h' = iheap.more h"
proof (cases "interface_identifier_strlen t = 18")
  case True
  then have t: "t \<in> {IF_TYPE_BLUETOOTH, IF_TYPE_ETHERNET, IF_TYPE_WIFI}"
    by (auto simp: interface_identifier_strlen_def split: if_splits)
  let ?c = "take 6 (idf @ nm @ [CHR 0x00])" and ?s = "print_address (take 6 (idf @ nm @ [CHR 0x00]))"
  have six: "6 \<le> length idf + length nm + 1" "length ?c = 6" using assms(4) True by auto
  have own: "?c = take 6 idf" if "6 \<le> length idf" using that by simp
  have len: "length ?s = 17" by (rule length_print_address [OF six(2)])
  let ?d = "map Some idf @ map Some (nm @ [CHR 0x00]) @ replicate 18 None"
  have d: "write_at (length idf + length nm + 1) (?s @ [CHR 0x00]) ?d = map Some idf @ map Some nm @ Some CHR 0x00 # map Some ?s @ [Some CHR 0x00]"
    using len by (simp add: write_at_def)
  have "take 6 ?d = take 6 (map Some (idf @ nm @ [CHR 0x00]) @ replicate 18 None)" by simp
  also have "\<dots> = map Some ?c" using six(1) by (simp only: take_append take_map length_map length_append) simp
  finally have "take 6 ?d = map Some ?c" .
  then have "those (take 6 ?d) = Some ?c" by (simp only: those_map_Some)
  then show ?thesis
    using t True d len assms(1-3) own print_address_chars [of ?c]
    by (auto simp: haggle_interface_new_def describes_def whole_def malloc_def malloc_ok_def string_at_def haggle_interface_get_type_def
        haggle_interface_get_status_def haggle_interface_get_name_def haggle_interface_get_identifier_length_def
        haggle_interface_get_identifier_str_def)
next
  case False
  then have t: "t \<notin> {IF_TYPE_BLUETOOTH, IF_TYPE_ETHERNET, IF_TYPE_WIFI}" "interface_identifier_strlen t = 0"
    by (auto simp: interface_identifier_strlen_def split: if_splits)
  then show ?thesis
    using assms(1-3)
    by (auto simp: haggle_interface_new_def describes_def whole_def malloc_def malloc_ok_def string_at_def haggle_interface_get_type_def
        haggle_interface_get_status_def haggle_interface_get_name_def haggle_interface_get_identifier_length_def)
qed

text \<open>What the parameters of a node of the tree say about an interface, if they describe one.\<close>

definition iface_params :: "attribute list \<Rightarrow> (haggle_interface_type \<times> haggle_interface_status \<times> string \<times> string) option" where
  "iface_params vs =
     (let t = haggle_interface_str_to_type (value_of vs ''type'');
          st = (case value_of vs ''status'' of
                  None \<Rightarrow> IF_STATUS_UNDEFINED
                | Some s \<Rightarrow> if s = ''up'' then IF_STATUS_UP else IF_STATUS_DOWN);
          nm = (case value_of vs ''name'' of None \<Rightarrow> ''Unknown interface'' | Some s \<Rightarrow> s) in
      if t = IF_TYPE_UNDEFINED then None
      else
        case value_of vs ''identifier'' of
          None \<Rightarrow> None
        | Some s \<Rightarrow> map_option (\<lambda>(idf, _). (t, st, nm, idf)) (decode_text (no_newlines s)))"

text \<open>
  The name is a C string.  For a type whose address is printed, the identifier and the name with its terminator have at least the six bytes
  that are printed; with fewer, bytes that were not written would be.
\<close>

definition good_params :: "attribute list \<Rightarrow> bool" where
  "good_params vs \<longleftrightarrow>
     (case iface_params vs of
        None \<Rightarrow> True
      | Some (t, st, nm, idf) \<Rightarrow> CHR 0x00 \<notin> set nm \<and> (interface_identifier_strlen t = 18 \<longrightarrow> 6 \<le> length idf + length nm + 1))"

lemma describes_set_status:
  "describes h p t st nm idf \<Longrightarrow> h_ifaces h p = Some f
   \<Longrightarrow> describes (h\<lparr>h_ifaces := (h_ifaces h)(p \<mapsto> f\<lparr>if_status := st'\<rparr>)\<rparr>) p t st' nm idf"
  by (auto simp: describes_def string_at_def haggle_interface_get_type_def haggle_interface_get_status_def
      haggle_interface_get_name_def haggle_interface_get_identifier_length_def haggle_interface_get_identifier_str_def)

text \<open>The effect of one new interface on the memory.\<close>

definition new_iface :: "'z iheap_scheme \<Rightarrow> 'z iheap_scheme \<Rightarrow> bool" where
  "new_iface h h' \<longleftrightarrow> (\<forall>q. q \<noteq> h_brk h \<longrightarrow> h_links h' q = h_links h q \<and> h_ifaces h' q = h_ifaces h q)
     \<and> h_links h' (h_brk h) \<noteq> None \<and> h_attrs h' = h_attrs h \<and> h_alists h' = h_alists h \<and> h_mds h' = h_mds h
     \<and> h_mem h' = [] \<and> h_brk h' = h_brk h + 4 \<and> iheap.more h' = iheap.more h"

lemma interface_new_from_metadata_spec:
  assumes "wf_heap h" "h_mem h = []" "length (ctx_buf stack) = 4"
    and "h_mds h m = Some md" "m \<noteq> NULL" "alist h (md_parameters md) xs vs" "good_params vs"
  shows "case iface_params vs of
      None \<Rightarrow> haggle_interface_new_from_metadata stack m h = Some (NULL, h)
    | Some (t, st, nm, idf) \<Rightarrow>
        \<exists>h'. haggle_interface_new_from_metadata stack m h = Some (h_brk h, h') \<and> describes h' (h_brk h) t st nm idf \<and> new_iface h h'"
proof (cases "iface_params vs")
  case None
  have get: "metadata_get_parameter m (Some s) h = Some (value_of vs s)" for s
    by (rule metadata_get_parameter_alist [OF assms(4,5,6)])
  have dec: "\<exists>ctx'. base64_decode_alloc True (base64_decode_ctx_init stack) s =
      Some (ctx', decode_text (no_newlines s) \<noteq> None, map_option fst (decode_text (no_newlines s)))" for s
    by (rule base64_decode_alloc_spec [OF assms(3)])
  show ?thesis
    using None get assms(2) dec [of "the (value_of vs ''identifier'')"]
    by (auto simp: haggle_interface_new_from_metadata_def iface_params_def malloc_ok_def Let_def split: if_splits option.splits)
next
  case (Some r)
  obtain t st nm idf where r: "r = (t, st, nm, idf)" by (cases r)
  let ?p = "h_brk h"
  obtain s rest where s: "value_of vs ''identifier'' = Some s" "decode_text (no_newlines s) = Some (idf, rest)"
    "t = haggle_interface_str_to_type (value_of vs ''type'')" "t \<noteq> IF_TYPE_UNDEFINED"
    "nm = (case value_of vs ''name'' of None \<Rightarrow> ''Unknown interface'' | Some s \<Rightarrow> s)"
    "st = (case value_of vs ''status'' of None \<Rightarrow> IF_STATUS_UNDEFINED | Some s \<Rightarrow> if s = ''up'' then IF_STATUS_UP else IF_STATUS_DOWN)"
    using Some r by (auto simp: iface_params_def Let_def split: if_splits option.splits)
  obtain ctx' where dec: "base64_decode_alloc True (base64_decode_ctx_init stack) s = Some (ctx', True, Some idf)"
    using base64_decode_alloc_spec [OF assms(3), of s] s(2) by auto
  have ok: "CHR 0x00 \<notin> set nm" "interface_identifier_strlen t = 18 \<Longrightarrow> 6 \<le> length idf + length nm + 1" "0 < ?p"
    using assms(1,7) Some r by (auto simp: good_params_def wf_heap_def)
  obtain h' where h': "haggle_interface_new t (Some nm) (Some idf) (length idf) h = Some (?p, h')"
    "describes h' ?p t IF_STATUS_UNDEFINED nm idf" "new_iface h h'"
    using haggle_interface_new_describes [OF assms(2) ok(3,1,2)] unfolding new_iface_def by blast
  have "alist h' (md_parameters md) xs vs"
    using alist_below [OF assms(1,6)] h'(3) unfolding new_iface_def
    by (intro alist_cong [OF assms(6)]) (metis less_irrefl, simp_all)
  then have get: "metadata_get_parameter m (Some s) h = Some (value_of vs s)" "metadata_get_parameter m (Some s) h' = Some (value_of vs s)" for s
    using metadata_get_parameter_alist [OF assms(4,5,6)] metadata_get_parameter_alist [of h' m md] assms(4,5) h'(3)
    by (simp_all add: new_iface_def)
  obtain f where f: "h_ifaces h' ?p = Some f" using h'(2) by (auto simp: describes_def)
  have st: "new_iface h (h'\<lparr>h_ifaces := (h_ifaces h')(?p \<mapsto> f\<lparr>if_status := u\<rparr>)\<rparr>)" for u
    using h'(3) by (simp add: new_iface_def)
  have "\<exists>h'. haggle_interface_new_from_metadata stack m h = Some (?p, h') \<and> describes h' ?p t st nm idf \<and> new_iface h h'"
    using assms(2) get s dec h' f st ok(3) describes_set_status [OF h'(2) f]
    by (cases "value_of vs ''status''") (auto simp: haggle_interface_new_from_metadata_def malloc_ok_def set_iface_status_def)
  then show ?thesis using Some r by simp
qed

text \<open>
  C34: An interface is made from metadata exactly when the parameters name a known type and have an identifier in which every complete
  group of four characters, newlines removed, is valid base64; up to three characters after the last complete group are ignored,
  whatever they are.  The interface has this type, the bytes of the complete groups as its identifier, the name and the status of the parameters
  or their defaults, and an address of at least six bytes is printed in hexadecimal.  Otherwise \<open>NULL\<close> is returned and the memory is unchanged.  Excluded is
  only an identifier for a printed address that together with the name and its terminator has fewer than six bytes.
\<close>

theorem interface_from_metadata:
  fixes h :: iheap
  assumes "wf_heap h" "h_mem h = []" "length (ctx_buf stack) = 4"
    and "h_mds h m = Some md" "m \<noteq> NULL" "alist h (md_parameters md) xs vs" "good_params vs"
  shows "case iface_params vs of
      None \<Rightarrow> haggle_interface_new_from_metadata stack m h = Some (NULL, h)
    | Some (t, st, nm, idf) \<Rightarrow>
        \<exists>p h'. haggle_interface_new_from_metadata stack m h = Some (p, h') \<and> describes h' p t st nm idf"
  using interface_new_from_metadata_spec [OF assms] by (auto split: option.splits)

text \<open>
  The copy of an interface is not independent: its name points into the block of the original.  It reads the
  same name while the original is there, and once the original is released reading the name is undefined.
\<close>

theorem interface_copy_dangles:
  fixes h :: iheap
  assumes "h_mem h = []" "0 < h_brk h" "CHR 0x00 \<notin> set nm" "interface_identifier_strlen t = 18 \<Longrightarrow> 6 \<le> length idf"
  shows "\<exists>p q h1 h2 h3 s. haggle_interface_new t (Some nm) (Some idf) (length idf) h = Some (p, h1)
    \<and> haggle_interface_copy p h1 = Some (q, h2) \<and> q \<noteq> NULL \<and> q \<noteq> p
    \<and> haggle_interface_get_name q h2 = Some s \<and> string_at s h2 = Some nm
    \<and> haggle_interface_free p h2 = Some h3 \<and> haggle_interface_get_name q h3 = Some s \<and> string_at s h3 = None"
proof -
  obtain h1 where h1: "haggle_interface_new t (Some nm) (Some idf) (length idf) h = Some (h_brk h, h1)"
    "whole h1 (h_brk h) nm" "h_mem h1 = []" "h_brk h < h_brk h1"
    using haggle_interface_new_describes [OF assms(1-3), of t idf] assms(4) by force
  then obtain f l where f: "h_ifaces h1 (h_brk h) = Some f" "h_links h1 (h_brk h) = Some l" "fst (if_name f) = h_brk h"
    "string_at (if_name f) h1 = Some nm"
    "length (if_data f) = if_identifier_len f + length nm + 1 + interface_identifier_strlen (if_type f)"
    by (auto simp: whole_def)
  let ?p = "h_brk h" and ?q = "h_brk h1"
  let ?h2 = "h1\<lparr>h_brk := ?q + 4, h_links := (h_links h1)(?q \<mapsto> l), h_ifaces := (h_ifaces h1)(?q \<mapsto> f)\<rparr>"
  let ?h3 = "?h2\<lparr>h_links := (h_links ?h2)(?p := None), h_ifaces := (h_ifaces ?h2)(?p := None)\<rparr>"
  have "haggle_interface_copy ?p h1 = Some (?q, ?h2)"
    using f h1(3,4) assms(2) by (simp add: haggle_interface_copy_def malloc_def malloc_ok_def)
  moreover have "haggle_interface_free ?p ?h2 = Some ?h3" using f h1(4) assms(2) by (simp add: haggle_interface_free_def)
  moreover have "haggle_interface_get_name ?q ?h2 = Some (if_name f)" "haggle_interface_get_name ?q ?h3 = Some (if_name f)"
    "string_at (if_name f) ?h2 = Some nm" "string_at (if_name f) ?h3 = None"
    using f h1(4) by (simp_all add: haggle_interface_get_name_def string_at_def)
  ultimately show ?thesis using h1(1,4) assms(2) by fastforce
qed

text \<open>The root of a tree with the parameters of a wireless interface that is up.\<close>

definition sample_iface :: iheap where
  "sample_iface =
     (let h = \<lparr>h_links = Map.empty, h_brk = 1, h_mem = [], h_attrs = Map.empty, h_alists = Map.empty, h_mds = Map.empty,
               h_ifaces = Map.empty\<rparr>;
          (m, h) = the (metadata_new (Some ''Interface'') None NULL h);
          (a1, h) = haggle_attribute_new (Some ''type'') (Some ''wifi'') h;
          (_, h) = the (haggle_attributelist_add_attribute 5 a1 h);
          (a2, h) = haggle_attribute_new (Some ''identifier'') (Some ''YWJjZGVm'') h;
          (_, h) = the (haggle_attributelist_add_attribute 5 a2 h);
          (a3, h) = haggle_attribute_new (Some ''status'') (Some ''up'') h;
          (_, h) = the (haggle_attributelist_add_attribute 5 a3 h) in h)"

lemma sample_iface_facts:
  "h_mds sample_iface 1 = Some (sample_node 1 5 ''Interface'' None)" "h_mem sample_iface = []" "wf_heap sample_iface"
  "alist sample_iface 5 [9, 13, 17] [plain_attr (''type'', ''wifi''), plain_attr (''identifier'', ''YWJjZGVm''), plain_attr (''status'', ''up'')]"
  by (simp_all add: sample_iface_def alist_def wf_heap_def ring_def linked_def metadata_new_def metadata_set_name_def
      metadata_set_content_def set_md_def haggle_attributelist_new_def malloc_def plain_attr_def
      malloc_ok_def INIT_LIST_def list_add_tail_def listelm_add_def haggle_attribute_new_def haggle_attribute_new_weighted_def
      haggle_attributelist_add_attribute_def list_unattached_def set_next_def set_prev_def Let_def)

theorem interface_from_metadata_witness:
  "\<exists>p h'. haggle_interface_new_from_metadata \<lparr>ctx_i = 0, ctx_buf = ''????''\<rparr> 1 sample_iface = Some (p, h')
    \<and> describes h' p IF_TYPE_WIFI IF_STATUS_UP ''Unknown interface'' ''abcdef''"
proof -
  let ?vs = "[plain_attr (''type'', ''wifi''), plain_attr (''identifier'', ''YWJjZGVm''), plain_attr (''status'', ''up'')]"
  have "decode_text (no_newlines ''YWJjZGVm'') = Some (''abcdef'', [])"
    using decode_encode_text [of "''abcdef''"] by (simp add: b64str_def no_newlines_def)
  then have "iface_params ?vs = Some (IF_TYPE_WIFI, IF_STATUS_UP, ''Unknown interface'', ''abcdef'')"
    by (simp add: iface_params_def plain_attr_def haggle_interface_str_to_type_def interface_types_def)
  then show ?thesis
    using interface_from_metadata [OF sample_iface_facts(3,2) _ sample_iface_facts(1) _ ,
        of "\<lparr>ctx_i = 0, ctx_buf = ''????''\<rparr>" "[9, 13, 17]" ?vs] sample_iface_facts(4)
    by (simp add: good_params_def)
qed

theorem interface_copy_dangles_witness:
  "\<exists>p q h1 h2 h3 s. haggle_interface_new IF_TYPE_MEDIA (Some ''disk'') (Some ''x'') 1 sample_iface = Some (p, h1)
    \<and> haggle_interface_copy p h1 = Some (q, h2) \<and> haggle_interface_get_name q h2 = Some s \<and> string_at s h2 = Some ''disk''
    \<and> haggle_interface_free p h2 = Some h3 \<and> string_at s h3 = None"
  using interface_copy_dangles [OF sample_iface_facts(2), of "''disk''" IF_TYPE_MEDIA "''x''"] sample_iface_facts(3)
  by (auto simp: interface_identifier_strlen_def wf_heap_def)


end
