(* ===== verification/Node.thy ===== *)
theory Node
  imports Interface
begin

text \<open>
  The nodes and node lists of \<open>src/src/libhaggle/node.c\<close>.  The list element of a node is its first member; the heads of its
  lists of attributes and interfaces are at the two addresses after it.  The list head of a node list is its
  first member.  The counters are \<open>int\<close>, and their overflow is undefined.
\<close>

section \<open>Structures\<close>

definition NODE_ID_LEN :: nat where "NODE_ID_LEN = 20"

record node =
  n_id :: string
  n_name :: "string option"
  n_num_attr :: int
  n_num_interfaces :: int

record nheap = iheap +
  h_nodes :: "ptr \<rightharpoonup> node"
  h_nodelists :: "ptr \<rightharpoonup> int"

abbreviation n_attributes :: "ptr \<Rightarrow> ptr" where "n_attributes n \<equiv> n + 1"
abbreviation n_interfaces :: "ptr \<Rightarrow> ptr" where "n_interfaces n \<equiv> n + 2"

definition int_inc :: "int \<Rightarrow> int option" where
  "int_inc i = (if i < 2 ^ 31 - 1 then Some (i + 1) else None)"

definition int_dec :: "int \<Rightarrow> int option" where
  "int_dec i = (if - (2 ^ 31) < i then Some (i - 1) else None)"

section \<open>Nodes\<close>

definition haggle_node_add_interface :: "ptr \<Rightarrow> ptr \<Rightarrow> 'z nheap_scheme \<Rightarrow> 'z nheap_scheme option" where
  "haggle_node_add_interface n iface h =
     (if n = NULL \<or> iface = NULL then Some h
      else
        do {
          nd \<leftarrow> h_nodes h n;
          k \<leftarrow> int_inc (n_num_interfaces nd);
          (_, L) \<leftarrow> list_add iface (n_interfaces n) (h_links h);
          Some (h\<lparr>h_links := L, h_nodes := (h_nodes h)(n \<mapsto> nd\<lparr>n_num_interfaces := k\<rparr>)\<rparr>)
        })"

text \<open>The loop over the children named \<open>Interface\<close>.\<close>

partial_function (option) node_interfaces_loop ::
    "base64_decode_context \<Rightarrow> ptr \<Rightarrow> ptr \<Rightarrow> ptr \<Rightarrow> 'z nheap_scheme \<Rightarrow> 'z nheap_scheme option" where
  "node_interfaces_loop stack n m mi h =
     (if mi = NULL then Some h
      else
        do {
          (iface, h) \<leftarrow> haggle_interface_new_from_metadata stack mi h;
          h \<leftarrow> (if iface \<noteq> NULL then haggle_node_add_interface n iface h else Some h);
          (mi, h) \<leftarrow> metadata_get_next m h;
          node_interfaces_loop stack n m mi h
        })"

text \<open>
  \<open>haggle_node_new_from_metadata\<close>: \<open>memset\<close> clears the structure.  The decoder is called with room for 0 bytes;
  what it writes replaces the start of the identifier.  A node without room for its name is not released.
\<close>

definition haggle_node_new_from_metadata ::
    "base64_decode_context \<Rightarrow> ptr \<Rightarrow> 'z nheap_scheme \<Rightarrow> (ptr \<times> 'z nheap_scheme) option" where
  "haggle_node_new_from_metadata stack m h =
     (if m = NULL then Some (NULL, h)
      else
        do {
          r \<leftarrow> metadata_name_is m ''Node'' h;
          if r = 0 then Some (NULL, h)
          else
            let (n, h) = malloc h in
            if n = NULL then Some (NULL, h)
            else
              let nd = \<lparr>n_id = replicate NODE_ID_LEN CHR 0x00, n_name = None, n_num_attr = 0, n_num_interfaces = 0\<rparr>;
                  h = h\<lparr>h_links := INIT_LIST (n_interfaces n) (INIT_LIST (n_attributes n)
                                    ((h_links h)(n \<mapsto> \<lparr>l_prev = NULL, l_next = NULL\<rparr>))),
                        h_nodes := (h_nodes h)(n \<mapsto> nd)\<rparr> in
              do {
                name \<leftarrow> metadata_get_parameter m (Some ''name'') h;
                let (ok, h) = (if name = None then (True, h) else malloc_ok h) in
                if \<not> ok then Some (NULL, h)
                else
                  do {
                    idp \<leftarrow> metadata_get_parameter m (Some ''id'') h;
                    out \<leftarrow> (case idp of
                             None \<Rightarrow> Some []
                           | Some s \<Rightarrow> map_option (\<lambda>(_, out, _). out) (base64_decode (base64_decode_ctx_init stack) s 0));
                    let h = h\<lparr>h_nodes := (h_nodes h)(n \<mapsto> nd\<lparr>n_name := name, n_id := out @ drop (length out) (n_id nd)\<rparr>)\<rparr> in
                    do {
                      (mi, h) \<leftarrow> metadata_get m (Some ''Interface'') h;
                      h \<leftarrow> node_interfaces_loop stack n m mi h;
                      Some (n, h)
                    }
                  }
              }
        })"

definition free_node :: "ptr \<Rightarrow> 'z nheap_scheme \<Rightarrow> 'z nheap_scheme" where
  "free_node n h =
     h\<lparr>h_links := (h_links h)(n := None, n_attributes n := None, n_interfaces n := None), h_nodes := (h_nodes h)(n := None)\<rparr>"

definition haggle_node_free :: "ptr \<Rightarrow> 'z nheap_scheme \<Rightarrow> 'z nheap_scheme option" where
  "haggle_node_free n h =
     (if n = NULL then Some h
      else
        do {
          r \<leftarrow> list_for_each_safe h_links (\<lambda>pos h. map_option Inr (haggle_attribute_free pos h)) (n_attributes n) h;
          r \<leftarrow> list_for_each_safe h_links (\<lambda>pos h. map_option Inr (haggle_interface_free pos h)) (n_interfaces n)
                (case r of Inl h \<Rightarrow> h | Inr h \<Rightarrow> h);
          let h = (case r of Inl h \<Rightarrow> h | Inr h \<Rightarrow> h) in
          do { _ \<leftarrow> h_nodes h n; Some (free_node n h) }
        })"

definition haggle_node_get_name :: "ptr \<Rightarrow> 'z nheap_scheme \<Rightarrow> string option option" where
  "haggle_node_get_name n h = (if n = NULL then Some None else map_option n_name (h_nodes h n))"

definition haggle_node_get_num_interfaces :: "ptr \<Rightarrow> 'z nheap_scheme \<Rightarrow> int option" where
  "haggle_node_get_num_interfaces n h =
     (if n = NULL then Some HAGGLE_PARAM_ERROR else map_option n_num_interfaces (h_nodes h n))"

text \<open>The loop \<open>list_for_each (...) if (i++ == num) return\<close>.\<close>

definition element_n :: "ptr \<Rightarrow> int \<Rightarrow> links \<Rightarrow> ptr option" where
  "element_n head num L =
     do {
       r \<leftarrow> list_for_each (\<lambda>_. L) (\<lambda>pos i. Some (if i = num then Inl pos else Inr (i + 1))) head 0;
       Some (case r of Inl p \<Rightarrow> p | Inr _ \<Rightarrow> NULL)
     }"

definition haggle_node_get_interface_n :: "ptr \<Rightarrow> int \<Rightarrow> 'z nheap_scheme \<Rightarrow> ptr option" where
  "haggle_node_get_interface_n n num h = (if n = NULL then Some NULL else element_n (n_interfaces n) num (h_links h))"

definition haggle_node_get_num_attributes :: "ptr \<Rightarrow> 'z nheap_scheme \<Rightarrow> int option" where
  "haggle_node_get_num_attributes n h = (if n = NULL then Some HAGGLE_PARAM_ERROR else map_option n_num_attr (h_nodes h n))"

definition haggle_node_get_attribute_n :: "ptr \<Rightarrow> int \<Rightarrow> 'z nheap_scheme \<Rightarrow> ptr option" where
  "haggle_node_get_attribute_n n num h = (if n = NULL then Some NULL else element_n (n_attributes n) num (h_links h))"

definition haggle_node_get_attribute_by_name :: "ptr \<Rightarrow> string option \<Rightarrow> 'z nheap_scheme \<Rightarrow> ptr option" where
  "haggle_node_get_attribute_by_name n name h =
     (case name of
        None \<Rightarrow> Some NULL
      | Some nm \<Rightarrow>
          if n = NULL then Some NULL
          else
            do {
              r \<leftarrow> list_for_each (\<lambda>_. h_links h)
                    (\<lambda>pos u. do { eq \<leftarrow> name_is pos nm h; Some (if eq then Inl pos else Inr u) }) (n_attributes n) ();
              Some (case r of Inl a \<Rightarrow> a | Inr _ \<Rightarrow> NULL)
            })"

definition haggle_node_get_attribute_by_name_value ::
    "ptr \<Rightarrow> string option \<Rightarrow> string option \<Rightarrow> 'z nheap_scheme \<Rightarrow> ptr option" where
  "haggle_node_get_attribute_by_name_value n name vl h =
     (case (name, vl) of
        (Some nm, Some v) \<Rightarrow>
          if n = NULL then Some NULL
          else
            do {
              r \<leftarrow> list_for_each (\<lambda>_. h_links h)
                    (\<lambda>pos u. do {
                       eq \<leftarrow> name_is pos nm h;
                       if eq then do { eq' \<leftarrow> value_is pos v h; Some (if eq' then Inl pos else Inr u) }
                       else Some (Inr u)
                     }) (n_attributes n) ();
              Some (case r of Inl a \<Rightarrow> a | Inr _ \<Rightarrow> NULL)
            }
      | _ \<Rightarrow> Some NULL)"

definition haggle_node_get_attribute_by_name_n :: "ptr \<Rightarrow> string option \<Rightarrow> int \<Rightarrow> 'z nheap_scheme \<Rightarrow> ptr option" where
  "haggle_node_get_attribute_by_name_n n name num h =
     (case name of
        None \<Rightarrow> Some NULL
      | Some nm \<Rightarrow>
          if n = NULL then Some NULL
          else
            do {
              r \<leftarrow> list_for_each (\<lambda>_. h_links h)
                    (\<lambda>pos i :: int. do {
                       eq \<leftarrow> name_is pos nm h;
                       Some (if eq then if num = i then Inl pos else Inr (i + 1) else Inr i)
                     }) (n_attributes n) 0;
              Some (case r of Inl a \<Rightarrow> a | Inr _ \<Rightarrow> NULL)
            })"

definition haggle_node_add_attribute_weighted ::
    "ptr \<Rightarrow> string option \<Rightarrow> string option \<Rightarrow> u64 \<Rightarrow> 'z nheap_scheme \<Rightarrow> (int \<times> 'z nheap_scheme) option" where
  "haggle_node_add_attribute_weighted n name vl weight h =
     (let (a, h) = haggle_attribute_new_weighted name vl weight h in
      if a = NULL then Some (HAGGLE_INTERNAL_ERROR, h)
      else
        do {
          nd \<leftarrow> h_nodes h n;
          k \<leftarrow> int_inc (n_num_attr nd);
          (_, L) \<leftarrow> list_add a (n_attributes n) (h_links h);
          Some (k, h\<lparr>h_links := L, h_nodes := (h_nodes h)(n \<mapsto> nd\<lparr>n_num_attr := k\<rparr>)\<rparr>)
        })"

definition haggle_node_add_attribute ::
    "ptr \<Rightarrow> string option \<Rightarrow> string option \<Rightarrow> 'z nheap_scheme \<Rightarrow> (int \<times> 'z nheap_scheme) option" where
  "haggle_node_add_attribute n name vl h = haggle_node_add_attribute_weighted n name vl 1 h"

section \<open>Node lists\<close>

definition haggle_nodelist_new :: "'z nheap_scheme \<Rightarrow> ptr \<times> 'z nheap_scheme" where
  "haggle_nodelist_new h =
     (let (nl, h) = malloc h in
      if nl = NULL then (NULL, h)
      else (nl, h\<lparr>h_links := INIT_LIST nl (h_links h), h_nodelists := (h_nodelists h)(nl \<mapsto> 0)\<rparr>))"

definition haggle_nodelist_free :: "ptr \<Rightarrow> 'z nheap_scheme \<Rightarrow> 'z nheap_scheme option" where
  "haggle_nodelist_free nl h =
     (if nl = NULL then Some h
      else
        do {
          r \<leftarrow> list_for_each_safe h_links (\<lambda>pos h. map_option Inr (haggle_node_free pos h)) nl h;
          let h = (case r of Inl h \<Rightarrow> h | Inr h \<Rightarrow> h) in
          do {
            _ \<leftarrow> h_nodelists h nl;
            Some (h\<lparr>h_links := (h_links h)(nl := None), h_nodelists := (h_nodelists h)(nl := None)\<rparr>)
          }
        })"

definition haggle_nodelist_size :: "ptr \<Rightarrow> 'z nheap_scheme \<Rightarrow> int option" where
  "haggle_nodelist_size nl h = (if nl = NULL then Some HAGGLE_PARAM_ERROR else h_nodelists h nl)"

definition haggle_nodelist_add_node :: "ptr \<Rightarrow> ptr \<Rightarrow> 'z nheap_scheme \<Rightarrow> (int \<times> 'z nheap_scheme) option" where
  "haggle_nodelist_add_node nl n h =
     (if nl = NULL \<or> n = NULL then Some (HAGGLE_PARAM_ERROR, h)
      else
        do {
          (_, L) \<leftarrow> list_add n nl (h_links h);
          k \<leftarrow> h_nodelists h nl;
          k \<leftarrow> int_inc k;
          Some (k, h\<lparr>h_links := L, h_nodelists := (h_nodelists h)(nl \<mapsto> k)\<rparr>)
        })"

partial_function (option) nodelist_loop ::
    "base64_decode_context \<Rightarrow> ptr \<Rightarrow> ptr \<Rightarrow> ptr \<Rightarrow> 'z nheap_scheme \<Rightarrow> 'z nheap_scheme option" where
  "nodelist_loop stack nl m mn h =
     (if mn = NULL then Some h
      else
        do {
          (n, h) \<leftarrow> haggle_node_new_from_metadata stack mn h;
          h \<leftarrow> (if n \<noteq> NULL then map_option snd (haggle_nodelist_add_node nl n h) else Some h);
          (mn, h) \<leftarrow> metadata_get_next m h;
          nodelist_loop stack nl m mn h
        })"

definition haggle_nodelist_new_from_metadata ::
    "base64_decode_context \<Rightarrow> ptr \<Rightarrow> 'z nheap_scheme \<Rightarrow> (ptr \<times> 'z nheap_scheme) option" where
  "haggle_nodelist_new_from_metadata stack m h =
     (if m = NULL then Some (NULL, h)
      else
        let (nl, h) = haggle_nodelist_new h in
        if nl = NULL then Some (NULL, h)
        else
          do {
            (mn, h) \<leftarrow> metadata_get m (Some ''Node'') h;
            h \<leftarrow> nodelist_loop stack nl m mn h;
            Some (nl, h)
          })"

definition haggle_nodelist_get_node_n :: "ptr \<Rightarrow> int \<Rightarrow> 'z nheap_scheme \<Rightarrow> ptr option" where
  "haggle_nodelist_get_node_n nl num h = (if nl = NULL \<or> num < 0 then Some NULL else element_n nl num (h_links h))"

definition haggle_nodelist_pop :: "ptr \<Rightarrow> 'z nheap_scheme \<Rightarrow> (ptr \<times> 'z nheap_scheme) option" where
  "haggle_nodelist_pop nl h =
     (if nl = NULL then Some (NULL, h)
      else
        do {
          k \<leftarrow> h_nodelists h nl;
          l \<leftarrow> h_links h nl;
          if k = 0 \<or> l_next l = NULL then Some (NULL, h)
          else
            do {
              (_, L) \<leftarrow> list_detach (l_next l) (h_links h);
              k \<leftarrow> int_dec k;
              Some (l_next l, h\<lparr>h_links := L, h_nodelists := (h_nodelists h)(nl \<mapsto> k)\<rparr>)
            }
        })"



section \<open>Node lists as stacks\<close>

text \<open>
  The contract of a counted stack: a new element goes to the front and the count is returned, the front
  element is taken off, and elements that may be added stay so.
\<close>

locale counted_stack =
  fixes rep :: "'s \<Rightarrow> 'a list \<Rightarrow> bool" and addable :: "'a \<Rightarrow> 's \<Rightarrow> bool"
    and push :: "'a \<Rightarrow> 's \<Rightarrow> (int \<times> 's) option" and pop :: "'s \<Rightarrow> ('a \<times> 's) option"
  assumes push: "rep s xs \<Longrightarrow> addable x s \<Longrightarrow> x \<notin> set xs \<Longrightarrow> length xs < 2 ^ 31 - 1 \<Longrightarrow>
      \<exists>s'. push x s = Some (int (length xs) + 1, s') \<and> rep s' (x # xs) \<and> (\<forall>y. addable y s \<longrightarrow> addable y s')"
    and pop: "rep s (x # xs) \<Longrightarrow> \<exists>s'. pop s = Some (x, s') \<and> rep s' xs"
begin

primrec push_all :: "'a list \<Rightarrow> 's \<Rightarrow> 's option" where
  "push_all [] s = Some s"
| "push_all (x # xs) s = do { (_, s) \<leftarrow> push x s; push_all xs s }"

primrec pop_n :: "nat \<Rightarrow> 's \<Rightarrow> ('a list \<times> 's) option" where
  "pop_n 0 s = Some ([], s)"
| "pop_n (Suc n) s = do { (x, s) \<leftarrow> pop s; (xs, s) \<leftarrow> pop_n n s; Some (x # xs, s) }"

lemma push_all_rep:
  "rep s xs \<Longrightarrow> \<forall>y \<in> set ys. addable y s \<Longrightarrow> distinct (ys @ xs) \<Longrightarrow> length (ys @ xs) < 2 ^ 31 \<Longrightarrow>
   \<exists>s'. push_all ys s = Some s' \<and> rep s' (rev ys @ xs)"
proof (induction ys arbitrary: s xs)
  case (Cons y ys)
  then obtain s' where s': "push y s = Some (int (length xs) + 1, s')" "rep s' (y # xs)" "\<forall>z. addable z s \<longrightarrow> addable z s'"
    using push [of s xs y] by auto
  then show ?case using Cons.IH [of s' "y # xs"] Cons.prems by auto
qed simp

lemma pop_n_rep: "rep s (ys @ xs) \<Longrightarrow> \<exists>s'. pop_n (length ys) s = Some (ys, s') \<and> rep s' xs"
proof (induction ys arbitrary: s)
  case (Cons y ys)
  then obtain s' where s': "pop s = Some (y, s')" "rep s' (ys @ xs)" using pop [of s y "ys @ xs"] by auto
  then show ?case using Cons.IH [of s'] by auto
qed simp

lemma lifo:
  assumes "rep s xs" "\<forall>y \<in> set ys. addable y s" "distinct (ys @ xs)" "length (ys @ xs) < 2 ^ 31"
  shows "\<exists>s1 s2. push_all ys s = Some s1 \<and> rep s1 (rev ys @ xs) \<and> pop_n (length ys) s1 = Some (rev ys, s2) \<and> rep s2 xs"
  using push_all_rep [OF assms] pop_n_rep [of _ "rev ys" xs] by fastforce

end

definition nlist :: "'z nheap_scheme \<Rightarrow> ptr \<Rightarrow> ptr list \<Rightarrow> bool" where
  "nlist h nl ns \<longleftrightarrow> ring (h_links h) nl ns \<and> h_nodelists h nl = Some (int (length ns))"

lemma nodelist_add_nlist:
  assumes "nlist h nl xs" "n \<in> dom (h_links h)" "n \<noteq> NULL" "n \<noteq> nl" "n \<notin> set xs" "length xs < 2 ^ 31 - 1"
  shows "\<exists>h'. haggle_nodelist_add_node nl n h = Some (int (length xs) + 1, h') \<and> nlist h' nl (n # xs)
    \<and> dom (h_links h') = dom (h_links h) \<and> h_nodes h' = h_nodes h"
proof -
  have r: "ring (h_links h) nl xs" "nl \<noteq> NULL" using assms(1) by (auto simp: nlist_def ring_def)
  obtain L where L: "list_add n nl (h_links h) = Some (LIST_SUCCESS, L)" "ring L nl (n # xs)" "dom L = dom (h_links h)"
    using list_add_ring [OF r(1) assms(2,3)] assms(4,5) by (auto simp: same_outside_def)
  have "int (length xs) < 2 ^ 31 - 1" using assms(6) by simp
  then show ?thesis
    using L r(2) assms(1,3) by (auto simp: haggle_nodelist_add_node_def nlist_def int_inc_def)
qed

lemma nodelist_pop_nlist:
  assumes "nlist h nl (n # xs)"
  shows "\<exists>h'. haggle_nodelist_pop nl h = Some (n, h') \<and> nlist h' nl xs \<and> h_nodes h' = h_nodes h"
proof -
  have r: "ring (h_links h) nl ([] @ n # xs)" "nl \<noteq> NULL" "n \<noteq> NULL" using assms by (auto simp: nlist_def ring_def)
  obtain L where L: "list_detach n (h_links h) = Some (LIST_SUCCESS, L)" "ring L nl xs"
    using list_detach_ring [OF r(1)] by auto
  obtain l where "h_links h nl = Some l" "l_next l = n" using ring_head_next [of "h_links h" nl "n # xs"] r(1) by auto
  then show ?thesis
    using L r assms by (auto simp: haggle_nodelist_pop_def nlist_def int_dec_def)
qed

interpretation nls: counted_stack "\<lambda>h. nlist h nl" "\<lambda>n h. n \<in> dom (h_links h) \<and> n \<noteq> NULL \<and> n \<noteq> nl"
    "haggle_nodelist_add_node nl" "haggle_nodelist_pop nl" for nl
proof unfold_locales
  fix h :: "'a nheap_scheme" and xs n
  assume "nlist h nl xs" "n \<in> dom (h_links h) \<and> n \<noteq> NULL \<and> n \<noteq> nl" "n \<notin> set xs" "length xs < 2 ^ 31 - 1"
  then show "\<exists>h'. haggle_nodelist_add_node nl n h = Some (int (length xs) + 1, h') \<and> nlist h' nl (n # xs)
      \<and> (\<forall>y. y \<in> dom (h_links h) \<and> y \<noteq> NULL \<and> y \<noteq> nl \<longrightarrow> y \<in> dom (h_links h') \<and> y \<noteq> NULL \<and> y \<noteq> nl)"
    using nodelist_add_nlist [of h nl xs n] by auto
qed (use nodelist_pop_nlist in blast)

primrec add_nodes :: "ptr \<Rightarrow> ptr list \<Rightarrow> 'z nheap_scheme \<Rightarrow> 'z nheap_scheme option" where
  "add_nodes nl [] h = Some h"
| "add_nodes nl (n # ns) h = do { (_, h) \<leftarrow> haggle_nodelist_add_node nl n h; add_nodes nl ns h }"

primrec pop_nodes :: "ptr \<Rightarrow> nat \<Rightarrow> 'z nheap_scheme \<Rightarrow> (ptr list \<times> 'z nheap_scheme) option" where
  "pop_nodes nl 0 h = Some ([], h)"
| "pop_nodes nl (Suc k) h = do { (n, h) \<leftarrow> haggle_nodelist_pop nl h; (ns, h) \<leftarrow> pop_nodes nl k h; Some (n # ns, h) }"

lemma add_nodes_push_all: "add_nodes nl ns h = nls.push_all nl ns h"
  by (induction ns arbitrary: h) (auto intro!: Option.bind_cong)

lemma pop_nodes_pop_n: "pop_nodes nl k h = nls.pop_n nl k h"
  by (induction k arbitrary: h) (auto intro!: Option.bind_cong)

lemma loop_over_position: "loop_over (\<lambda>pos i. Some (if i = num then Inl pos else Inr (i + 1))) xs i
   = Some (if i \<le> num \<and> nat (num - i) < length xs then Inl (xs ! nat (num - i)) else Inr (i + int (length xs)))"
proof (induction xs arbitrary: i)
  case (Cons x xs)
  have k: "nat (num - i) = Suc (nat (num - (i + 1)))" if "i < num" using that by simp
  show ?case using Cons [of "i + 1"] by (cases "i < num") (auto simp: k)
qed simp

lemma element_n_ring:
  assumes "ring L q xs"
  shows "element_n q num L = Some (if 0 \<le> num \<and> nat num < length xs then xs ! nat num else NULL)"
proof -
  have "list_for_each (\<lambda>_. L) (\<lambda>pos i. Some (if i = num then Inl pos else Inr (i + 1))) q 0
      = loop_over (\<lambda>pos i. Some (if i = num then Inl pos else Inr (i + 1))) xs 0"
    by (rule list_for_each_pure [OF assms]) simp
  then show ?thesis using loop_over_position [of num xs 0] by (simp add: element_n_def)
qed

text \<open>
  C36: A node list is a counted stack: nodes that were added come off in the reverse order, the size counts them,
  the node at each position is found, and the nodes that were in the list before are still there.
\<close>

theorem nodelist_is_stack:
  assumes "nlist h nl xs" "\<forall>n \<in> set ns. n \<in> dom (h_links h) \<and> n \<noteq> NULL \<and> n \<noteq> nl" "distinct (ns @ xs)"
    "length (ns @ xs) < 2 ^ 31"
  shows "\<exists>h1 h2. add_nodes nl ns h = Some h1 \<and> haggle_nodelist_size nl h1 = Some (int (length ns + length xs))
    \<and> (\<forall>i. haggle_nodelist_get_node_n nl i h1
         = Some (if 0 \<le> i \<and> nat i < length (rev ns @ xs) then (rev ns @ xs) ! nat i else NULL))
    \<and> pop_nodes nl (length ns) h1 = Some (rev ns, h2) \<and> nlist h2 nl xs"
proof -
  obtain h1 h2 where h: "nls.push_all nl ns h = Some h1" "nlist h1 nl (rev ns @ xs)"
    "nls.pop_n nl (length ns) h1 = Some (rev ns, h2)" "nlist h2 nl xs"
    using nls.lifo [OF assms] by blast
  have r: "ring (h_links h1) nl (rev ns @ xs)" "nl \<noteq> NULL" using h(2) by (auto simp: nlist_def ring_def)
  have "haggle_nodelist_size nl h1 = Some (int (length ns + length xs))"
    using h(2) r(2) by (simp add: haggle_nodelist_size_def nlist_def)
  then show ?thesis
    using h element_n_ring [OF r(1)] r(2) by (auto simp: add_nodes_push_all pop_nodes_pop_n haggle_nodelist_get_node_n_def)
qed


section \<open>Nodes from metadata\<close>

text \<open>
  What allocation above an address \<open>b\<close> and moving iterators leave alone: the list elements below \<open>b\<close>, the attributes and
  the tree.
\<close>

definition kept :: "ptr \<Rightarrow> 'z mheap_scheme \<Rightarrow> 'z mheap_scheme \<Rightarrow> bool" where
  "kept b h h' \<longleftrightarrow> (\<forall>q < b. h_links h' q = h_links h q) \<and> h_attrs h' = h_attrs h \<and> h_alists h' = h_alists h
     \<and> (\<forall>c. map_option (\<lambda>md. (md_parent md, md_name md, md_content md, md_parameters md)) (h_mds h' c)
          = map_option (\<lambda>md. (md_parent md, md_name md, md_content md, md_parameters md)) (h_mds h c))"

lemma kept_refl: "kept b h h" by (simp add: kept_def)

lemma kept_trans: "kept b h h' \<Longrightarrow> kept b h' h'' \<Longrightarrow> kept b h h''" by (simp add: kept_def)

lemma kept_same_tree: "same_tree h h' \<Longrightarrow> kept b h h'" by (simp add: kept_def same_tree_def)

lemma kept_md:
  assumes "kept b h h'" "h_mds h c = Some md"
  shows "\<exists>md'. h_mds h' c = Some md' \<and> md_name md' = md_name md \<and> md_parameters md' = md_parameters md"
  using assms unfolding kept_def by (cases "h_mds h' c") (auto dest: spec [of _ c])

lemma kept_alist: "kept b h h' \<Longrightarrow> alist h al xs vs \<Longrightarrow> \<forall>p \<in> set (al # xs). p < b \<Longrightarrow> alist h' al xs vs"
  by (rule alist_cong) (auto simp: kept_def)

lemma kept_ring: "kept b h h' \<Longrightarrow> ring (h_links h) q cs \<Longrightarrow> \<forall>p \<in> set (q # cs). p < b \<Longrightarrow> ring (h_links h') q cs"
  using ring_cong [of q cs "h_links h" "h_links h'"] unfolding kept_def by metis

text \<open>A child of the tree whose parameters are \<open>vs\<close>.\<close>

definition has_params :: "ptr \<Rightarrow> 'z mheap_scheme \<Rightarrow> ptr \<Rightarrow> attribute list \<Rightarrow> bool" where
  "has_params b h c vs \<longleftrightarrow> c \<noteq> NULL \<and> good_params vs
     \<and> (\<exists>md xs. h_mds h c = Some md \<and> alist h (md_parameters md) xs vs \<and> (\<forall>p \<in> set (md_parameters md # xs). p < b))"

lemma kept_has_params: "kept b h h' \<Longrightarrow> has_params b h c vs \<Longrightarrow> has_params b h' c vs"
proof -
  assume k: "kept b h h'" and "has_params b h c vs"
  then obtain md xs where md: "h_mds h c = Some md" "alist h (md_parameters md) xs vs" "\<forall>p \<in> set (md_parameters md # xs). p < b"
    "c \<noteq> NULL" "good_params vs"
    by (auto simp: has_params_def)
  obtain md' where "h_mds h' c = Some md'" "md_parameters md' = md_parameters md" using kept_md [OF k md(1)] by blast
  then show "has_params b h' c vs" using kept_alist [OF k md(2,3)] md(3-5) by (auto simp: has_params_def)
qed

text \<open>The interfaces of a node, the last one made first.\<close>

definition node_with :: "'z nheap_scheme \<Rightarrow> ptr \<Rightarrow> ptr list
    \<Rightarrow> (haggle_interface_type \<times> haggle_interface_status \<times> string \<times> string) list \<Rightarrow> bool" where
  "node_with h n ifs ds \<longleftrightarrow> ring (h_links h) (n_interfaces n) ifs
     \<and> haggle_node_get_num_interfaces n h = Some (int (length ifs))
     \<and> list_all2 (\<lambda>p (t, st, nm, idf). describes h p t st nm idf) ifs ds"

text \<open>The loop invariant: \<open>n\<close> is the first address allocated for the node.\<close>

definition building :: "ptr \<Rightarrow> 'z nheap_scheme \<Rightarrow> ptr list
    \<Rightarrow> (haggle_interface_type \<times> haggle_interface_status \<times> string \<times> string) list \<Rightarrow> node \<Rightarrow> bool" where
  "building n h ifs ds nd \<longleftrightarrow> wf_heap h \<and> h_mem h = [] \<and> n + 4 \<le> h_brk h \<and> n \<noteq> NULL \<and> node_with h n ifs ds
     \<and> (\<forall>p \<in> set ifs. n + 4 \<le> p \<and> p < h_brk h) \<and> (\<forall>p \<ge> h_brk h. h_ifaces h p = None)
     \<and> map_option (n_num_interfaces_update (\<lambda>_. 0)) (h_nodes h n) = Some nd"

lemma describes_mono:
  assumes "describes h p t st nm idf" "\<forall>q. h_ifaces h q \<noteq> None \<longrightarrow> h_ifaces h' q = h_ifaces h q"
  shows "describes h' p t st nm idf"
proof -
  have "string_at q h = Some s \<Longrightarrow> string_at q h' = Some s" for q s
    using assms(2) by (auto simp: string_at_def bind_eq_Some_conv)
  then show ?thesis
    using assms by (auto simp: describes_def haggle_interface_get_type_def haggle_interface_get_status_def
        haggle_interface_get_name_def haggle_interface_get_identifier_length_def haggle_interface_get_identifier_str_def)
qed

lemma more_nodes: "iheap.more h' = iheap.more h \<Longrightarrow> h_nodes (h' :: 'z nheap_scheme) = h_nodes h"
  by (cases h; cases h') simp

lemma list_all2_describes:
  assumes "list_all2 (\<lambda>p (t, st, nm, idf). describes h p t st nm idf) ifs ds"
    and "\<forall>q. h_ifaces h q \<noteq> None \<longrightarrow> h_ifaces h' q = h_ifaces h q"
  shows "list_all2 (\<lambda>p (t, st, nm, idf). describes h' p t st nm idf) ifs ds"
  using assms by (auto elim!: list_all2_mono intro: describes_mono)

lemma describes_cong: "h_ifaces h' = h_ifaces h \<Longrightarrow> describes h p t st nm idf \<Longrightarrow> describes h' p t st nm idf"
  by (rule describes_mono) auto

text \<open>The new interface is linked in front of the others; the lists below the node are not touched.\<close>

lemma link_interface:
  assumes "building n h ifs ds nd" "new_iface h h'"
  shows "\<exists>L. list_add (h_brk h) (n_interfaces n) (h_links h') = Some (LIST_SUCCESS, L)
    \<and> ring L (n_interfaces n) (h_brk h # ifs) \<and> (\<forall>q < n. L q = h_links h q) \<and> (\<forall>q \<ge> h_brk h'. L q = None)"
proof -
  let ?p = "h_brk h" and ?hd = "n_interfaces n"
  have B: "wf_heap h" "n + 4 \<le> ?p" "ring (h_links h) ?hd ifs" "\<forall>q \<in> set ifs. n + 4 \<le> q \<and> q < ?p"
    using assms(1) by (auto simp: building_def node_with_def)
  have N: "\<forall>q. q \<noteq> ?p \<longrightarrow> h_links h' q = h_links h q" "?p \<in> dom (h_links h')" "h_brk h' = ?p + 4"
    using assms(2) by (auto simp: new_iface_def)
  have p: "?p \<notin> set (?hd # ifs)" using B(2,4) by auto
  then have r: "ring (h_links h') ?hd ifs" using B(3) N(1) ring_cong [of ?hd ifs "h_links h" "h_links h'"] by metis
  then obtain L where L: "list_add ?p ?hd (h_links h') = Some (LIST_SUCCESS, L)" "ring L ?hd (?p # ifs)"
    "same_outside (insert ?p (set (?hd # ifs))) (h_links h') L"
    using list_add_ring [OF r N(2) _ p] B(2) by auto
  have "L q = h_links h q" if "q < n" for q
  proof -
    have "q \<notin> insert ?p (set (?hd # ifs))" "q \<noteq> ?p" using that B(2,4) by auto
    then show ?thesis using L(3) N(1) unfolding same_outside_def by metis
  qed
  moreover have "L q = None" if "h_brk h' \<le> q" for q
    using that same_outside_None [OF L(3)] N(1,3) B(1) by (auto simp: wf_heap_def)
  ultimately show ?thesis using L(1,2) by blast
qed

lemma building_add:
  assumes "building n h ifs ds nd" "new_iface h h'" "describes h' (h_brk h) t st nm idf" "length ifs < 2 ^ 31 - 1"
  shows "\<exists>h''. haggle_node_add_interface n (h_brk h) h' = Some h'' \<and> building n h'' (h_brk h # ifs) ((t, st, nm, idf) # ds) nd
    \<and> kept n h h'' \<and> h_mds h'' = h_mds h"
proof -
  let ?p = "h_brk h"
  have B: "n + 4 \<le> ?p" "n \<noteq> NULL" "\<forall>q \<in> set ifs. n + 4 \<le> q \<and> q < ?p" "\<forall>q \<ge> ?p. h_ifaces h q = None"
    "list_all2 (\<lambda>p (t, st, nm, idf). describes h p t st nm idf) ifs ds" "wf_heap h"
    using assms(1) by (auto simp: building_def node_with_def)
  obtain md where md: "h_nodes h n = Some md" "n_num_interfaces md = int (length ifs)" "md\<lparr>n_num_interfaces := 0\<rparr> = nd"
    using assms(1) B(2) by (auto simp: building_def node_with_def haggle_node_get_num_interfaces_def)
  have N: "\<forall>q. q \<noteq> ?p \<longrightarrow> h_ifaces h' q = h_ifaces h q" "h_brk h' = ?p + 4" "h_nodes h' = h_nodes h"
    using assms(2) more_nodes by (auto simp: new_iface_def)
  obtain L where L: "list_add ?p (n_interfaces n) (h_links h') = Some (LIST_SUCCESS, L)" "ring L (n_interfaces n) (?p # ifs)"
    "\<forall>q < n. L q = h_links h q" "\<forall>q \<ge> h_brk h'. L q = None"
    using link_interface [OF assms(1,2)] by blast
  let ?h = "h'\<lparr>h_links := L, h_nodes := (h_nodes h')(n \<mapsto> md\<lparr>n_num_interfaces := int (length ifs) + 1\<rparr>)\<rparr>"
  have "int_inc (int (length ifs)) = Some (int (length ifs) + 1)" using assms(4) by (simp add: int_inc_def)
  then have "haggle_node_add_interface n ?p h' = Some ?h"
    using L(1) md N(3) B(1,2) by (simp add: haggle_node_add_interface_def)
  moreover have "describes ?h ?p t st nm idf" by (rule describes_cong [OF _ assms(3)]) simp
  moreover have "list_all2 (\<lambda>p (t, st, nm, idf). describes ?h p t st nm idf) ifs ds"
  proof (rule list_all2_describes [OF B(5)], intro allI impI)
    show "h_ifaces ?h q = h_ifaces h q" if "h_ifaces h q \<noteq> None" for q using that N(1) B(4) by (cases "q = ?p") auto
  qed
  moreover have "wf_heap ?h" using assms(2) B(2,6) L(3,4) N(2) by (auto simp: wf_heap_def new_iface_def)
  moreover have "kept n h ?h" using assms(2) L(3) by (simp add: kept_def new_iface_def)
  moreover have "\<forall>q \<ge> h_brk ?h. h_ifaces ?h q = None" using N(1,2) B(4) by simp
  ultimately show ?thesis
    using L(2) md B(1-3) N(2) assms(2)
    by (auto simp: building_def node_with_def haggle_node_get_num_interfaces_def new_iface_def)
qed

lemma describes_mds [simp]: "describes (h\<lparr>h_mds := M\<rparr>) p t st nm idf = describes h p t st nm idf"
  by (auto simp: describes_def string_at_def haggle_interface_get_type_def haggle_interface_get_status_def haggle_interface_get_name_def
      haggle_interface_get_identifier_length_def haggle_interface_get_identifier_str_def)

lemma building_set_md [simp]: "building n (set_md m md h) ifs ds nd = building n h ifs ds nd"
  by (simp add: set_md_def building_def node_with_def wf_heap_def haggle_node_get_num_interfaces_def cong: if_cong)

lemma iterating_kept:
  assumes "iterating m name us ws h" "kept b h h'" "h_mds h' m = h_mds h m" "\<forall>p \<in> set (children m # us @ ws). p < b"
  shows "iterating m name us ws h'"
proof -
  have L: "h_links h' p = h_links h p" if "p \<in> set (children m # us @ ws)" for p
    using assms(2,4) that unfolding kept_def by blast
  have "hd (ws @ [children m]) \<in> set (children m # us @ ws)" by (cases ws) auto
  then show ?thesis
    using assms(1,3) L ring_cong [of "children m" "us @ ws" "h_links h" "h_links h'"] unfolding iterating_def by metis
qed

lemma kept_named:
  assumes "kept b h h'"
  shows "name_matches name h' c = name_matches name h c" "named h' cs = named h cs"
proof -
  have n: "map_option md_name (h_mds h' c) = map_option md_name (h_mds h c)" for c
    using assms unfolding kept_def by (cases "h_mds h' c"; cases "h_mds h c") (auto dest: spec [of _ c])
  then show "name_matches name h' c = name_matches name h c" by (simp add: name_matches_def)
  have "named h cs = (\<forall>c \<in> set cs. \<exists>s. map_option md_name (h_mds h c) = Some (Some s))" for h :: "'a mheap_scheme"
    by (fastforce simp: named_def)
  then show "named h' cs = named h cs" using n by (simp del: map_option_eq_Some)
qed

text \<open>One round of the loop.\<close>

lemma interface_round:
  assumes "building n h ifs ds nd" "has_params n h c vs" "length (ctx_buf stack) = 4" "length ifs < 2 ^ 31 - 1"
  shows "\<exists>p h1 h2 ifs'. haggle_interface_new_from_metadata stack c h = Some (p, h1)
    \<and> (if p \<noteq> NULL then haggle_node_add_interface n p h1 else Some h1) = Some h2
    \<and> building n h2 ifs' (case iface_params vs of None \<Rightarrow> ds | Some d \<Rightarrow> d # ds) nd \<and> length ifs' \<le> Suc (length ifs)
    \<and> kept n h h2 \<and> h_mds h2 = h_mds h"
proof -
  obtain md xs where md: "h_mds h c = Some md" "alist h (md_parameters md) xs vs" "c \<noteq> NULL" "good_params vs"
    using assms(2) by (auto simp: has_params_def)
  have "wf_heap h" "h_mem h = []" "0 < h_brk h" using assms(1) by (auto simp: building_def)
  then show ?thesis
    using interface_new_from_metadata_spec [OF _ _ assms(3) md(1,3,2,4)] assms(1) kept_refl
      building_add [OF assms(1) _ _ assms(4)]
    by (fastforce split: option.splits prod.splits)
qed

lemma node_interfaces_loop_builds:
  assumes "named h0 cs" "m \<noteq> NULL" "length (ctx_buf stack) = 4" "\<forall>p \<in> set (children m # cs). p < n"
    and "\<And>c. c \<in> set cs \<Longrightarrow> name_matches (Some ''Interface'') h0 c \<Longrightarrow> has_params n h0 c (pv c)"
  shows "building n h ifs ds nd \<Longrightarrow> iterating m (Some ''Interface'') us ws h \<Longrightarrow> kept n h0 h \<Longrightarrow> us @ ws = cs
    \<Longrightarrow> ws = [] \<or> name_matches (Some ''Interface'') h0 (hd ws) \<Longrightarrow> length ifs + length ws < 2 ^ 31
    \<Longrightarrow> \<exists>h' ifs'. node_interfaces_loop stack n m (if ws = [] then NULL else hd ws) h = Some h'
        \<and> building n h' ifs' (rev (List.map_filter (iface_params \<circ> pv) (filter (name_matches (Some ''Interface'') h0) ws)) @ ds) nd"
proof (induction "length ws" arbitrary: h ifs ds us ws rule: less_induct)
  case less
  let ?P = "name_matches (Some ''Interface'') h0"
  show ?case
  proof (cases ws)
    case Nil
    then show ?thesis
      using less.prems(1) by (subst node_interfaces_loop.simps) (auto simp: map_filter_def)
  next
    case (Cons c rest)
    then have c: "c \<in> set cs" "?P c" "c \<noteq> NULL"
      using less.prems(2,4,5) by (auto simp: iterating_def ring_def)
    have "has_params n h c (pv c)" using kept_has_params [OF less.prems(3)] assms(5) c(1,2) by blast
    then obtain p h1 h2 ifs' where R: "haggle_interface_new_from_metadata stack c h = Some (p, h1)"
      "(if p \<noteq> NULL then haggle_node_add_interface n p h1 else Some h1) = Some h2"
      "building n h2 ifs' (case iface_params (pv c) of None \<Rightarrow> ds | Some d \<Rightarrow> d # ds) nd" "length ifs' \<le> Suc (length ifs)"
      "kept n h h2" "h_mds h2 = h_mds h"
      using interface_round [OF less.prems(1) _ assms(3)] less.prems(6) Cons by fastforce
    have k2: "kept n h0 h2" by (rule kept_trans [OF less.prems(3) R(5)])
    let ?ws = "dropWhile (\<lambda>c. \<not> ?P c) rest"
    have "iterating m (Some ''Interface'') us (c # rest) h2"
      using iterating_kept [OF less.prems(2) R(5)] R(6) assms(4) less.prems(4) Cons by auto
    moreover have "named h2 (us @ c # rest)" using kept_named(2) [OF k2] assms(1) less.prems(4) Cons by simp
    ultimately obtain us' h3 where G: "metadata_get_next m h2 = Some (if ?ws = [] then NULL else hd ?ws, h3)"
      "us' @ ?ws = us @ c # rest" "iterating m (Some ''Interface'') us' ?ws h3" "same_tree h2 h3"
      using metadata_get_next_advances [of m "Some ''Interface''" us c rest h2] assms(2)
      unfolding kept_named(1) [OF k2] by blast
    have b3: "building n h3 ifs' (case iface_params (pv c) of None \<Rightarrow> ds | Some d \<Rightarrow> d # ds) nd"
      using R(3) get_next_set_md [OF G(1)] by auto
    have "kept n h0 h3" by (rule kept_trans [OF k2 kept_same_tree [OF G(4)]])
    moreover have "length ?ws < length ws" using Cons by (simp add: le_imp_less_Suc length_dropWhile_le)
    moreover have "?ws = [] \<or> ?P (hd ?ws)" using hd_dropWhile_not [of ?P rest] by (metis list.collapse)
    moreover have "length ifs' + length ?ws < 2 ^ 31" using calculation(2) R(4) less.prems(6) Cons by simp
    moreover have "us' @ ?ws = cs" using G(2) less.prems(4) Cons by simp
    ultimately obtain h' ifs'' where "node_interfaces_loop stack n m (if ?ws = [] then NULL else hd ?ws) h3 = Some h'"
      "building n h' ifs'' (rev (List.map_filter (iface_params \<circ> pv) (filter ?P ?ws))
        @ (case iface_params (pv c) of None \<Rightarrow> ds | Some d \<Rightarrow> d # ds)) nd"
      using less.hyps [OF _ b3 G(3)] by blast
    moreover have "node_interfaces_loop stack n m c h = node_interfaces_loop stack n m (if ?ws = [] then NULL else hd ?ws) h3"
      using R(1,2) G(1) c(3) by (subst node_interfaces_loop.simps) auto
    ultimately show ?thesis
      using Cons c(2) by (auto simp: map_filter_simps filter_dropWhile_not split: option.splits)
  qed
qed

text \<open>The node before its interfaces are read: the allocated record with the name of the parameter, on a heap like \<open>h\<close>.\<close>

definition named_node :: "string option \<Rightarrow> node" where
  "named_node nm = \<lparr>n_id = replicate NODE_ID_LEN CHR 0x00, n_name = nm, n_num_attr = 0, n_num_interfaces = 0\<rparr>"

definition fresh_node :: "string option \<Rightarrow> nheap \<Rightarrow> nheap" where
  "fresh_node nm h = (let n = h_brk h in
     h\<lparr>h_brk := n + 4, h_links := INIT_LIST (n_interfaces n) (INIT_LIST (n_attributes n)
         ((h_links h)(n \<mapsto> \<lparr>l_prev = NULL, l_next = NULL\<rparr>))), h_nodes := (h_nodes h)(n \<mapsto> named_node nm)\<rparr>)"

lemma fresh_node_kept: "kept (h_brk h) h (fresh_node nm h)"
  by (auto simp: fresh_node_def Let_def kept_def INIT_LIST_def)

lemma fresh_node_same [simp]: "h_mds (fresh_node nm h) = h_mds h" "h_mem (fresh_node nm h) = h_mem h"
  by (simp_all add: fresh_node_def Let_def)

lemma fresh_node_building:
  assumes "wf_heap h" "h_mem h = []" "\<forall>p \<ge> h_brk h. h_ifaces h p = None"
  shows "building (h_brk h) (fresh_node nm h) [] [] (named_node nm)"
  using assms by (auto simp: building_def fresh_node_def named_node_def Let_def node_with_def wf_heap_def INIT_LIST_def
      ring_def linked_def haggle_node_get_num_interfaces_def)

text \<open>The decoder is given no room, so it returns without writing.\<close>

lemma decode_no_room:
  assumes "length (ctx_buf stack) = 4"
  shows "\<exists>r. base64_decode (base64_decode_ctx_init stack) s 0 = Some r \<and> fst (snd r) = []"
  using base64_decode_fresh [OF assms, of s 0] by (auto simp: base64_decode_def split: option.splits)

lemma node_new_steps:
  assumes "wf_heap h" "h_mem h = []" "length (ctx_buf stack) = 4" "h_mds h m = Some md" "m \<noteq> NULL"
    and "md_name md = Some ''Node''" "alist h (md_parameters md) xs vs"
    and "metadata_get m (Some ''Interface'') (fresh_node (value_of vs ''name'') h) = Some (c, h3)"
    and "node_interfaces_loop stack (h_brk h) m c h3 = Some h'"
  shows "haggle_node_new_from_metadata stack m h = Some (h_brk h, h')"
proof -
  have n: "h_brk h \<noteq> NULL" using assms(1) by (simp add: wf_heap_def)
  have "alist (fresh_node None h) (md_parameters md) xs vs"
    using kept_alist [OF fresh_node_kept assms(7)] alist_below [OF assms(1,7)] by blast
  then have get: "metadata_get_parameter m (Some s) (fresh_node None h) = Some (value_of vs s)" for s
    using metadata_get_parameter_alist [of "fresh_node None h" m md] assms(4,5) by simp
  have r: "(case value_of vs ''id'' of None \<Rightarrow> Some []
      | Some s \<Rightarrow> map_option (\<lambda>(_, out, _). out) (base64_decode (base64_decode_ctx_init stack) s 0)) = Some ([] :: string)"
    using decode_no_room [OF assms(3)] by (cases "value_of vs ''id''") fastforce+
  have "metadata_name_is m ''Node'' h = Some 1" using assms(4-6) by (simp add: metadata_name_is_def)
  moreover have "malloc h = (h_brk h, h\<lparr>h_brk := h_brk h + 4\<rparr>)" using assms(2) by (simp add: malloc_def malloc_ok_def)
  moreover have "malloc_ok (fresh_node None h) = (True, fresh_node None h)" using assms(2) by (simp add: malloc_ok_def)
  ultimately show ?thesis
    using n assms(5,8,9) get r
    by (cases "value_of vs ''name''")
      (simp_all add: haggle_node_new_from_metadata_def Let_def fresh_node_def named_node_def)
qed

lemma building_id:
  assumes "building n h ifs ds (named_node nm)"
  shows "haggle_node_get_name n h = Some nm" "map_option n_id (h_nodes h n) = Some (replicate NODE_ID_LEN CHR 0x00)"
proof -
  obtain z where z: "h_nodes h n = Some z" "z\<lparr>n_num_interfaces := 0\<rparr> = named_node nm" "n \<noteq> NULL"
    using assms by (auto simp: building_def)
  have "n_name z = n_name (named_node nm)" "n_id z = n_id (named_node nm)" using z(2) [symmetric] by simp_all
  then show "haggle_node_get_name n h = Some nm" "map_option n_id (h_nodes h n) = Some (replicate NODE_ID_LEN CHR 0x00)"
    using z(1,3) by (simp_all add: named_node_def haggle_node_get_name_def)
qed

text \<open>
  C35: A node is rebuilt from its metadata: it has the name of the parameter, and for every child that describes an
  interface, in reverse order, that interface, with their number as its count; children that do not
  describe one are skipped.  The identifier of the node, however, stays zero whatever the
  parameter \<open>id\<close> says, because the decoder is told that there is no room.  Excluded are children with a hardware address that together with
  the name and its terminator has fewer than six bytes.
\<close>

theorem node_from_metadata:
  fixes h :: nheap
  assumes "wf_heap h" "h_mem h = []" "\<forall>p \<ge> h_brk h. h_ifaces h p = None" "length (ctx_buf stack) = 4"
    and "h_mds h m = Some md" "m \<noteq> NULL" "md_name md = Some ''Node''" "alist h (md_parameters md) xs vs"
    and "ring (h_links h) (children m) cs" "named h cs" "length cs < 2 ^ 31"
    and "\<forall>c \<in> set cs. name_matches (Some ''Interface'') h c \<longrightarrow>
           (\<exists>md xs. h_mds h c = Some md \<and> alist h (md_parameters md) xs (pv c)) \<and> good_params (pv c)"
  shows "\<exists>n h' ifs. haggle_node_new_from_metadata stack m h = Some (n, h') \<and> n \<noteq> NULL
    \<and> haggle_node_get_name n h' = Some (value_of vs ''name'')
    \<and> node_with h' n ifs (rev (List.map_filter (iface_params \<circ> pv) (filter (name_matches (Some ''Interface'') h) cs)))
    \<and> map_option n_id (h_nodes h' n) = Some (replicate NODE_ID_LEN CHR 0x00)"
proof -
  let ?n = "h_brk h" and ?P = "name_matches (Some ''Interface'') h" and ?nm = "value_of vs ''name''"
  let ?ws = "dropWhile (\<lambda>c. \<not> ?P c) cs"
  have k: "kept ?n h (fresh_node ?nm h)" by (rule fresh_node_kept)
  have cs: "\<forall>p \<in> set (children m # cs). p < ?n"
    using ring_dom [OF assms(9)] assms(1) unfolding wf_heap_def by (metis domIff linorder_not_less subsetD)
  have "ring (h_links (fresh_node ?nm h)) (children m) cs" by (rule kept_ring [OF k assms(9) cs])
  then obtain us h3 where G: "metadata_get m (Some ''Interface'') (fresh_node ?nm h) = Some (if ?ws = [] then NULL else hd ?ws, h3)"
    "us @ ?ws = cs" "iterating m (Some ''Interface'') us ?ws h3" "same_tree (fresh_node ?nm h) h3"
    using metadata_get_starts [of "fresh_node ?nm h" m cs md "Some ''Interface''"] assms(2,5,6,10) kept_named [OF k] by auto
  have "has_params ?n h c (pv c)" if "c \<in> set cs" "?P c" for c
    using assms(12) that alist_below [OF assms(1)] assms(9) by (fastforce simp: has_params_def ring_def)
  moreover have "?ws = [] \<or> ?P (hd ?ws)" using hd_dropWhile_not [of ?P cs] by (metis list.collapse)
  moreover have "length ?ws < 2 ^ 31" using assms(11) length_dropWhile_le [of "\<lambda>c. \<not> ?P c" cs] by linarith
  moreover have "building ?n h3 [] [] (named_node ?nm)"
    using fresh_node_building [OF assms(1-3), of ?nm] get_set_md [OF G(1)] assms(2) by auto
  moreover have "kept ?n h h3" by (rule kept_trans [OF k kept_same_tree [OF G(4)]])
  ultimately obtain h' ifs where L: "node_interfaces_loop stack ?n m (if ?ws = [] then NULL else hd ?ws) h3 = Some h'"
    "building ?n h' ifs (rev (List.map_filter (iface_params \<circ> pv) (filter ?P ?ws)) @ []) (named_node ?nm)"
    using node_interfaces_loop_builds [of h cs m stack ?n pv h3 "[]" "[]" "named_node ?nm" us ?ws, OF assms(10,6,4) cs _ _ G(3) _ G(2)]
    by auto
  have "haggle_node_new_from_metadata stack m h = Some (?n, h')"
    by (rule node_new_steps [OF assms(1,2,4-8) G(1) L(1)])
  then show ?thesis
    using L(2) building_id [OF L(2)] by (auto simp: building_def filter_dropWhile_not)
qed

text \<open>The description of a node with one interface.\<close>

definition sample_nodes :: nheap where
  "sample_nodes =
     (let h = \<lparr>h_links = Map.empty, h_brk = 1, h_mem = [], h_attrs = Map.empty, h_alists = Map.empty, h_mds = Map.empty,
               h_ifaces = Map.empty, h_nodes = Map.empty, h_nodelists = Map.empty\<rparr>;
          (m, h) = the (metadata_new (Some ''Node'') None NULL h);
          (i, h) = the (metadata_new (Some ''Interface'') None m h);
          (a1, h) = haggle_attribute_new (Some ''type'') (Some ''media'') h;
          (_, h) = the (haggle_attributelist_add_attribute 13 a1 h);
          (a2, h) = haggle_attribute_new (Some ''identifier'') (Some ''YWJj'') h;
          (_, h) = the (haggle_attributelist_add_attribute 13 a2 h);
          (a3, h) = haggle_attribute_new (Some ''id'') (Some ''YWJj'') h;
          (_, h) = the (haggle_attributelist_add_attribute 5 a3 h);
          (nl, h) = haggle_nodelist_new h in h)"

lemma sample_nodes_facts:
  "h_mds sample_nodes 1 = Some (sample_node 1 5 ''Node'' None)" "h_mem sample_nodes = []" "wf_heap sample_nodes"
  "h_mds sample_nodes 9 = Some (sample_node 1 13 ''Interface'' None)"
  "alist sample_nodes 5 [25] [plain_attr (''id'', ''YWJj'')]"
  "alist sample_nodes 13 [17, 21] [plain_attr (''type'', ''media''), plain_attr (''identifier'', ''YWJj'')]"
  "ring (h_links sample_nodes) 2 [9]" "h_ifaces sample_nodes = Map.empty" "h_links sample_nodes 29 = Some \<lparr>l_prev = 29, l_next = 29\<rparr>"
  "h_nodelists sample_nodes 29 = Some 0" "h_links sample_nodes 1 \<noteq> None" "h_links sample_nodes 9 \<noteq> None"
  by (simp_all add: sample_nodes_def alist_def wf_heap_def ring_def linked_def metadata_new_def metadata_set_name_def
      metadata_set_content_def metadata_add_def metadata_detach_def set_md_def haggle_attributelist_new_def malloc_def plain_attr_def
      malloc_ok_def INIT_LIST_def list_add_tail_def listelm_add_def haggle_attribute_new_def haggle_attribute_new_weighted_def
      haggle_attributelist_add_attribute_def list_unattached_def set_next_def set_prev_def list_detach_def listelm_detach_def
      haggle_nodelist_new_def Let_def)

theorem node_from_metadata_witness:
  "\<exists>n h' ifs. haggle_node_new_from_metadata \<lparr>ctx_i = 0, ctx_buf = ''????''\<rparr> 1 sample_nodes = Some (n, h')
    \<and> node_with h' n ifs [(IF_TYPE_MEDIA, IF_STATUS_UNDEFINED, ''Unknown interface'', ''abc'')]
    \<and> map_option n_id (h_nodes h' n) = Some (replicate NODE_ID_LEN CHR 0x00)"
proof -
  let ?vs = "[plain_attr (''type'', ''media''), plain_attr (''identifier'', ''YWJj'')]"
  have "decode_text (no_newlines ''YWJj'') = Some (''abc'', [])"
    using decode_encode_text [of "''abc''"] by (simp add: b64str_def no_newlines_def)
  then have p: "iface_params ?vs = Some (IF_TYPE_MEDIA, IF_STATUS_UNDEFINED, ''Unknown interface'', ''abc'')"
    by (simp add: iface_params_def plain_attr_def haggle_interface_str_to_type_def interface_types_def)
  then have "good_params ?vs" by (simp add: good_params_def interface_identifier_strlen_def)
  moreover have "named sample_nodes [9]" "name_matches (Some ''Interface'') sample_nodes 9"
    using sample_nodes_facts(4) by (simp_all add: named_def name_matches_def)
  moreover have "ring (h_links sample_nodes) (children 1) [9]" using sample_nodes_facts(7) by (simp add: numeral_2_eq_2)
  ultimately have "\<exists>n h' ifs. haggle_node_new_from_metadata \<lparr>ctx_i = 0, ctx_buf = ''????''\<rparr> 1 sample_nodes = Some (n, h') \<and> n \<noteq> NULL
    \<and> haggle_node_get_name n h' = Some (value_of [plain_attr (''id'', ''YWJj'')] ''name'')
    \<and> node_with h' n ifs (rev (List.map_filter (iface_params \<circ> (\<lambda>_. ?vs)) (filter (name_matches (Some ''Interface'') sample_nodes) [9])))
    \<and> map_option n_id (h_nodes h' n) = Some (replicate NODE_ID_LEN CHR 0x00)"
    using sample_nodes_facts(4-6,8)
    by (intro node_from_metadata [OF sample_nodes_facts(3,2) _ _ sample_nodes_facts(1)]) auto
  then show ?thesis
    using p \<open>name_matches (Some ''Interface'') sample_nodes 9\<close> by (auto simp: map_filter_simps)
qed

theorem nodelist_is_stack_witness:
  "\<exists>h1 h2. add_nodes 29 [1] sample_nodes = Some h1 \<and> haggle_nodelist_size 29 h1 = Some 1
     \<and> pop_nodes 29 1 h1 = Some ([1], h2)"
proof -
  have "nlist sample_nodes 29 []" using sample_nodes_facts(9,10) by (simp add: nlist_def ring_def linked_def)
  moreover have "\<forall>n \<in> set [1]. n \<in> dom (h_links sample_nodes) \<and> n \<noteq> NULL \<and> n \<noteq> 29" using sample_nodes_facts(11) by auto
  ultimately show ?thesis
    using nodelist_is_stack [of sample_nodes 29 "[]" "[1]"] by (auto simp del: add_nodes.simps pop_nodes.simps)
qed


end
