(* ===== verification/Dataobject.thy ===== *)
theory Dataobject
  imports SHA1 Node
begin

text \<open>
  The data objects of \<open>src/src/libhaggle/dataobject.c\<close>.  The file system is an argument of the functions that read files: for
  every path that can be opened, the bytes that can be read, whether reading behind them fails (an error
  instead of the end of the file), and whether the position can be moved.  \<open>time_t\<close> and \<open>long\<close> are integers
  of the range the values have.  Strings are values in the records, not blocks of memory: \<open>free\<close> of a file name, a path, the text
  of a hash or a thumbnail has no counterpart, and a release concerns the object, its attribute list and its metadata.  The state of local variables that are not initialised is an argument.  The functions for
  the raw form are in \<open>Dataobject_Raw\<close>.
\<close>

section \<open>Files\<close>

record os_file =
  f_data :: string
  f_bad :: bool
  f_seek :: bool

type_synonym files = "string \<rightharpoonup> os_file"

text \<open>An open stream: what is left to read, and the indicators.\<close>

record stream =
  s_rest :: string
  s_bad :: bool
  s_eof :: bool
  s_err :: bool

definition fopen_stream :: "files \<Rightarrow> string \<Rightarrow> stream option" where
  "fopen_stream fs path =
     map_option (\<lambda>f. \<lparr>s_rest = f_data f, s_bad = f_bad f, s_eof = False, s_err = False\<rparr>) (fs path)"

definition fread_stream :: "nat \<Rightarrow> stream \<Rightarrow> string \<times> stream" where
  "fread_stream n s =
     (if n \<le> length (s_rest s) then (take n (s_rest s), s\<lparr>s_rest := drop n (s_rest s)\<rparr>)
      else (s_rest s, if s_bad s then s\<lparr>s_rest := [], s_err := True\<rparr> else s\<lparr>s_rest := [], s_eof := True\<rparr>))"

section \<open>Printing numbers\<close>

definition digit :: "nat \<Rightarrow> char" where
  "digit n = ''0123456789'' ! n"

fun digits :: "nat \<Rightarrow> string" where
  "digits n = (if n < 10 then [digit n] else digits (n div 10) @ [digit (n mod 10)])"

declare digits.simps [simp del]

text \<open>\<open>%ld\<close> and \<open>%06ld\<close>.\<close>

definition print_ld :: "int \<Rightarrow> string" where
  "print_ld i = (if i < 0 then ''-'' @ digits (nat (- i)) else digits (nat i))"

definition print_06ld :: "int \<Rightarrow> string" where
  "print_06ld i =
     (if i < 0 then ''-'' @ replicate (5 - length (digits (nat (- i)))) CHR ''0'' @ digits (nat (- i))
      else replicate (6 - length (digits (nat i))) CHR ''0'' @ digits (nat i))"

definition createtime_text :: "int \<Rightarrow> int \<Rightarrow> string" where
  "createtime_text sec usec = print_ld sec @ ''.'' @ print_06ld usec"

section \<open>Data objects\<close>

definition HAGGLE_DATAOBJECT_ERROR :: int where "HAGGLE_DATAOBJECT_ERROR = -90"
definition HASH_LENGTH :: nat where "HASH_LENGTH = 20"
definition DATAOBJECT_FLAG_PERSISTENT :: u16 where "DATAOBJECT_FLAG_PERSISTENT = 1"
definition HAGGLE_TAG :: string where "HAGGLE_TAG = ''Haggle''"

record dataobject =
  d_flags :: u16
  d_sec :: int
  d_usec :: int
  d_filename :: "string option"
  d_filepath :: "string option"
  d_datalen :: u64
  d_fp :: "stream option"
  d_hash :: "byte list"
  d_hash_str :: "string option"
  d_thumbnail_str :: "string option"
  d_al :: ptr
  d_raw :: "string option"
  d_raw_len :: u64
  d_m :: ptr

record dheap = nheap +
  h_dobjs :: "ptr \<rightharpoonup> dataobject"

definition set_dobj :: "ptr \<Rightarrow> dataobject \<Rightarrow> 'z dheap_scheme \<Rightarrow> 'z dheap_scheme" where
  "set_dobj p d h = h\<lparr>h_dobjs := (h_dobjs h)(p \<mapsto> d)\<rparr>"

definition free_dobj :: "ptr \<Rightarrow> 'z dheap_scheme \<Rightarrow> 'z dheap_scheme" where
  "free_dobj p h = h\<lparr>h_dobjs := (h_dobjs h)(p := None)\<rparr>"

text \<open>The structure after \<open>memset\<close>.\<close>

definition zero_dobj :: dataobject where
  "zero_dobj = \<lparr>d_flags = 0, d_sec = 0, d_usec = 0, d_filename = None, d_filepath = None, d_datalen = 0, d_fp = None,
     d_hash = replicate HASH_LENGTH 0, d_hash_str = None, d_thumbnail_str = None, d_al = NULL, d_raw = None, d_raw_len = 0,
     d_m = NULL\<rparr>"

definition haggle_dataobject_set_flags :: "ptr \<Rightarrow> u16 \<Rightarrow> 'z dheap_scheme \<Rightarrow> (u16 \<times> 'z dheap_scheme) option" where
  "haggle_dataobject_set_flags p flags h =
     do { d \<leftarrow> h_dobjs h p; let f = d_flags d OR flags in Some (f, set_dobj p (d\<lparr>d_flags := f\<rparr>) h) }"

definition haggle_dataobject_unset_flags :: "ptr \<Rightarrow> u16 \<Rightarrow> 'z dheap_scheme \<Rightarrow> (u16 \<times> 'z dheap_scheme) option" where
  "haggle_dataobject_unset_flags p flags h =
     do { d \<leftarrow> h_dobjs h p; let f = d_flags d AND (flags XOR 0xFFFF) in Some (f, set_dobj p (d\<lparr>d_flags := f\<rparr>) h) }"

text \<open>\<open>now\<close> is the time of the platform.\<close>

definition haggle_dataobject_set_createtime ::
    "int \<times> int \<Rightarrow> ptr \<Rightarrow> (int \<times> int) option \<Rightarrow> 'z dheap_scheme \<Rightarrow> (int \<times> 'z dheap_scheme) option" where
  "haggle_dataobject_set_createtime now p createtime h =
     (if p = NULL then Some (HAGGLE_PARAM_ERROR, h)
      else
        let (sec, usec) = (case createtime of None \<Rightarrow> now | Some t \<Rightarrow> t) in
        do { d \<leftarrow> h_dobjs h p; Some (HAGGLE_NO_ERROR, set_dobj p (d\<lparr>d_sec := sec, d_usec := usec\<rparr>) h) })"

definition haggle_dataobject_read_data_stop :: "ptr \<Rightarrow> 'z dheap_scheme \<Rightarrow> (int \<times> 'z dheap_scheme) option" where
  "haggle_dataobject_read_data_stop p h =
     (if p = NULL then Some (HAGGLE_DATAOBJECT_ERROR, h)
      else
        do {
          d \<leftarrow> h_dobjs h p;
          if d_fp d = None then Some (0, h) else Some (1, set_dobj p (d\<lparr>d_fp := None\<rparr>) h)
        })"

definition haggle_dataobject_free :: "ptr \<Rightarrow> 'z dheap_scheme \<Rightarrow> 'z dheap_scheme option" where
  "haggle_dataobject_free p h =
     (if p = NULL then Some h
      else
        do {
          d \<leftarrow> h_dobjs h p;
          h \<leftarrow> (if d_fp d \<noteq> None then map_option snd (haggle_dataobject_read_data_stop p h) else Some h);
          h \<leftarrow> (if d_al d \<noteq> NULL then haggle_attributelist_free (d_al d) h else Some h);
          h \<leftarrow> (if d_m d \<noteq> NULL then metadata_free (d_m d) h else Some h);
          Some (free_dobj p h)
        })"

text \<open>\<open>haggle_dataobject_new\<close>: the branch of \<open>haggle_dataobject_new_from_raw\<close> without a raw buffer.\<close>

definition haggle_dataobject_new :: "'z dheap_scheme \<Rightarrow> (ptr \<times> 'z dheap_scheme) option" where
  "haggle_dataobject_new h =
     (let (p, h) = malloc h in
      if p = NULL then Some (NULL, h)
      else
        do {
          (_, h) \<leftarrow> haggle_dataobject_set_flags p DATAOBJECT_FLAG_PERSISTENT (set_dobj p zero_dobj h);
          let (al, h) = haggle_attributelist_new h in
          do {
            d \<leftarrow> h_dobjs h p;
            let h = set_dobj p (d\<lparr>d_al := al\<rparr>) h in
            if al = NULL then do { h \<leftarrow> haggle_dataobject_free p h; Some (NULL, h) }
            else
              do {
                (m, h) \<leftarrow> metadata_new (Some HAGGLE_TAG) None NULL h;
                d \<leftarrow> h_dobjs h p;
                let h = set_dobj p (d\<lparr>d_m := m\<rparr>) h in
                if m = NULL then do { h \<leftarrow> haggle_dataobject_free p h; Some (NULL, h) }
                else Some (p, h)
              }
          }
        })"

text \<open>The search for the file name from the end of the path; \<open>i\<close> is one more than in the code.\<close>

fun file_name_loop :: "string \<Rightarrow> nat \<Rightarrow> string option \<Rightarrow> string option" where
  "file_name_loop path 0 fn = fn"
| "file_name_loop path (Suc i) fn =
     (if path ! i = CHR ''/'' \<or> path ! i = CHR 0x5C then Some (drop (Suc i) path)
      else file_name_loop path i (Some (drop i path)))"

text \<open>\<open>haggle_dataobject_new_from_file\<close>, without the keyword extractor.  On a file that cannot be positioned \<open>ftell\<close> returns -1.\<close>

definition haggle_dataobject_new_from_file :: "files \<Rightarrow> string option \<Rightarrow> 'z dheap_scheme \<Rightarrow> (ptr \<times> 'z dheap_scheme) option" where
  "haggle_dataobject_new_from_file fs filepath h =
     (case filepath of
        None \<Rightarrow> Some (NULL, h)
      | Some path \<Rightarrow>
          if path = [] then Some (NULL, h)
          else
            case fs path of
              None \<Rightarrow> Some (NULL, h)
            | Some f \<Rightarrow>
                let (p, h) = malloc h in
                if p = NULL then Some (NULL, h)
                else
                  do {
                    (_, h) \<leftarrow> haggle_dataobject_set_flags p DATAOBJECT_FLAG_PERSISTENT (set_dobj p zero_dobj h);
                    let (al, h) = haggle_attributelist_new h in
                    do {
                      d \<leftarrow> h_dobjs h p;
                      let d = d\<lparr>d_datalen := (if f_seek f then of_nat (length (f_data f)) else -1), d_al := al\<rparr>;
                          h = set_dobj p d h in
                      if al = NULL then do { h \<leftarrow> haggle_dataobject_free p h; Some (NULL, h) }
                      else
                        let (ok, h) = malloc_ok h in
                        if \<not> ok then do { h \<leftarrow> haggle_dataobject_free p h; Some (NULL, h) }
                        else
                          let d = d\<lparr>d_filepath := Some path\<rparr>; h = set_dobj p d h;
                              filename = file_name_loop path (length path) None;
                              (ok, h) = (if filename \<noteq> None then malloc_ok h else (True, h)) in
                          if \<not> ok then do { h \<leftarrow> haggle_dataobject_free p h; Some (NULL, h) }
                          else
                            let h = set_dobj p (d\<lparr>d_filename := filename\<rparr>) h in
                            do {
                              (m, h) \<leftarrow> metadata_new (Some HAGGLE_TAG) None NULL h;
                              d \<leftarrow> h_dobjs h p;
                              let h = set_dobj p (d\<lparr>d_m := m\<rparr>) h in
                              if m = NULL then do { h \<leftarrow> haggle_dataobject_free p h; Some (NULL, h) }
                              else Some (p, h)
                            }
                    }
                  })"

section \<open>The identifier\<close>

text \<open>The hash of the attributes: one round of the loop.  The weight is converted to 32 bits.\<close>

definition id_body :: "'z dheap_scheme \<Rightarrow> ptr \<Rightarrow> SHA1Context \<Rightarrow> (unit + SHA1Context) option" where
  "id_body h a ctx =
     do {
       nm \<leftarrow> haggle_attribute_get_name a h;
       nm \<leftarrow> nm;
       vl \<leftarrow> haggle_attribute_get_value a h;
       vl \<leftarrow> vl;
       weight \<leftarrow> haggle_attribute_get_weight a h;
       let ctx = SHA1_Update ctx (map byte_of_char nm);
           ctx = SHA1_Update ctx (map byte_of_char vl);
           w = htonl (ucast weight);
           ctx = SHA1_Update ctx (le_bytes w) in
       Some (Inr ctx)
     }"

text \<open>\<open>haggle_dataobject_calculate_id\<close>: the bytes of \<open>datalen\<close> are those in the memory of a little-endian host.\<close>

definition haggle_dataobject_calculate_id ::
    "SHA1Context \<Rightarrow> ptr \<Rightarrow> byte list \<Rightarrow> 'z dheap_scheme \<Rightarrow> (int \<times> byte list) option" where
  "haggle_dataobject_calculate_id stack p idbuf h =
     do {
       d \<leftarrow> h_dobjs h p;
       let ctx = SHA1_Init stack in
       do {
         r \<leftarrow> (if d_al d = NULL then Some (Inr ctx) else list_for_each (\<lambda>_. h_links h) (id_body h) (d_al d) ctx);
         let ctx = (case r of Inl _ \<Rightarrow> ctx | Inr ctx \<Rightarrow> ctx);
             ctx = (if d_sec d \<noteq> 0
                    then SHA1_Update ctx (map byte_of_char (take 19 (createtime_text (d_sec d) (d_usec d)))) else ctx);
             ctx = (if d_hash_str d \<noteq> None then SHA1_Update ctx (d_hash d)
                    else case d_filename d of
                      None \<Rightarrow> ctx
                    | Some fn \<Rightarrow>
                        if d_datalen d > 0
                        then SHA1_Update (SHA1_Update ctx (map byte_of_char fn)) (rev (be_bytes 8 (d_datalen d)))
                        else ctx) in
         Some (0, fst (SHA1_Final idbuf ctx))
       }
     }"

section \<open>Conversion to metadata\<close>

text \<open>The statements that set the content of a child with a name, or make one.\<close>

definition set_child :: "ptr \<Rightarrow> string \<Rightarrow> string \<Rightarrow> 'z dheap_scheme \<Rightarrow> 'z dheap_scheme option" where
  "set_child md name content h =
     do {
       (c, h) \<leftarrow> metadata_get md (Some name) h;
       if c \<noteq> NULL then map_option snd (metadata_set_content c (Some content) h)
       else map_option snd (metadata_new (Some name) (Some content) md h)
     }"

definition set_child_opt :: "ptr \<Rightarrow> string \<Rightarrow> string option \<Rightarrow> 'z dheap_scheme \<Rightarrow> 'z dheap_scheme option" where
  "set_child_opt md name content h = (case content of None \<Rightarrow> Some h | Some s \<Rightarrow> set_child md name s h)"

text \<open>The loop that releases the children named \<open>Attr\<close>.\<close>

partial_function (option) remove_attrs_loop :: "ptr \<Rightarrow> ptr \<Rightarrow> 'z dheap_scheme \<Rightarrow> 'z dheap_scheme option" where
  "remove_attrs_loop m md h =
     (if md = NULL then Some h
      else
        do {
          h \<leftarrow> metadata_free md h;
          (md, h) \<leftarrow> metadata_get_next m h;
          remove_attrs_loop m md h
        })"

text \<open>The loop that makes a child for each attribute; the buffer for the weight has eight characters.\<close>

definition attr_child :: "ptr \<Rightarrow> ptr \<Rightarrow> 'z dheap_scheme \<Rightarrow> (unit + 'z dheap_scheme) option" where
  "attr_child m a h =
     do {
       vl \<leftarrow> haggle_attribute_get_value a h;
       (am, h) \<leftarrow> metadata_new (Some ''Attr'') vl m h;
       if am = NULL then Some (Inr h)
       else
         do {
           nm \<leftarrow> haggle_attribute_get_name a h;
           (_, h) \<leftarrow> metadata_set_parameter am (Some ''name'') nm h;
           weight \<leftarrow> haggle_attribute_get_weight a h;
           if weight = 0 then Some (Inr h)
           else if 8 \<le> length (digits (unat weight)) then None
           else
             do {
               (_, h) \<leftarrow> metadata_set_parameter am (Some ''weight'') (Some (digits (unat weight))) h;
               Some (Inr h)
             }
         }
     }"

text \<open>The part that describes the data: the child \<open>Data\<close> and its children.  The flag is false at the early return.\<close>

definition data_child :: "ptr \<Rightarrow> 'z dheap_scheme \<Rightarrow> (bool \<times> 'z dheap_scheme) option" where
  "data_child p h =
     do {
       d \<leftarrow> h_dobjs h p;
       (md, h) \<leftarrow> metadata_get (d_m d) (Some ''Data'') h;
       (md, h) \<leftarrow> (if md \<noteq> NULL then Some (md, h) else metadata_new (Some ''Data'') None (d_m d) h);
       if md = NULL then Some (False, h)
       else
         do {
           (_, h) \<leftarrow> metadata_set_parameter md (Some ''data_len'') (Some (take 19 (digits (unat (d_datalen d))))) h;
           h \<leftarrow> set_child_opt md ''FileName'' (d_filename d) h;
           h \<leftarrow> (if d_hash_str d = None then Some h
                 else set_child md ''FileHash'' (c_string (base64_encode (map char_of_byte (d_hash d)) 29)) h);
           h \<leftarrow> set_child_opt md ''Thumbnail'' (d_thumbnail_str d) h;
           h \<leftarrow> set_child_opt md ''FilePath'' (d_filepath d) h;
           Some (True, h)
         }
     }"

definition haggle_dataobject_to_metadata :: "ptr \<Rightarrow> 'z dheap_scheme \<Rightarrow> (ptr \<times> 'z dheap_scheme) option" where
  "haggle_dataobject_to_metadata p h =
     (if p = NULL then Some (NULL, h)
      else
        do {
          d \<leftarrow> h_dobjs h p;
          if d_m d = NULL then Some (NULL, h)
          else
            do {
              (_, h) \<leftarrow> metadata_set_parameter (d_m d) (Some ''persistent'')
                         (Some (if d_flags d AND DATAOBJECT_FLAG_PERSISTENT \<noteq> 0 then ''yes'' else ''no'')) h;
              h \<leftarrow> (if d_sec d = 0 then Some h
                    else if 32 \<le> length (createtime_text (d_sec d) (d_usec d)) then None
                    else map_option snd (metadata_set_parameter (d_m d) (Some ''create_time'')
                           (Some (createtime_text (d_sec d) (d_usec d))) h));
              (ok, h) \<leftarrow> (if d_filepath d \<noteq> None \<or> d_datalen d > 0 then data_child p h else Some (True, h));
              if \<not> ok then Some (NULL, h)
              else
                do {
                  (md, h) \<leftarrow> metadata_get (d_m d) (Some ''Attr'') h;
                  h \<leftarrow> remove_attrs_loop (d_m d) md h;
                  r \<leftarrow> list_for_each h_links (attr_child (d_m d)) (d_al d) h;
                  Some (d_m d, case r of Inl _ \<Rightarrow> h | Inr h \<Rightarrow> h)
                }
            }
        })"

section \<open>Members\<close>

definition haggle_dataobject_get_filename :: "ptr \<Rightarrow> 'z dheap_scheme \<Rightarrow> string option option" where
  "haggle_dataobject_get_filename p h = (if p = NULL then Some None else map_option d_filename (h_dobjs h p))"

definition haggle_dataobject_get_filepath :: "ptr \<Rightarrow> 'z dheap_scheme \<Rightarrow> string option option" where
  "haggle_dataobject_get_filepath p h = (if p = NULL then Some None else map_option d_filepath (h_dobjs h p))"

text \<open>The setters do not check the new value: \<open>strlen (NULL)\<close> is undefined.\<close>

definition haggle_dataobject_set_filename ::
    "ptr \<Rightarrow> string option \<Rightarrow> 'z dheap_scheme \<Rightarrow> (string option \<times> 'z dheap_scheme) option" where
  "haggle_dataobject_set_filename p filename h =
     (if p = NULL then Some (None, h)
      else
        do {
          fn \<leftarrow> filename;
          let (ok, h) = malloc_ok h in
          if \<not> ok then Some (None, h)
          else do { d \<leftarrow> h_dobjs h p; Some (Some fn, set_dobj p (d\<lparr>d_filename := Some fn\<rparr>) h) }
        })"

definition haggle_dataobject_set_filepath ::
    "ptr \<Rightarrow> string option \<Rightarrow> 'z dheap_scheme \<Rightarrow> (string option \<times> 'z dheap_scheme) option" where
  "haggle_dataobject_set_filepath p filepath h =
     (if p = NULL then Some (None, h)
      else
        do {
          fn \<leftarrow> filepath;
          let (ok, h) = malloc_ok h in
          if \<not> ok then Some (None, h)
          else do { d \<leftarrow> h_dobjs h p; Some (Some fn, set_dobj p (d\<lparr>d_filepath := Some fn\<rparr>) h) }
        })"

section \<open>Reading the data\<close>

text \<open>\<open>haggle_dataobject_get_data_size\<close>: the returned code and the value stored through \<open>count\<close>, if there is one.\<close>

definition haggle_dataobject_get_data_size :: "files \<Rightarrow> ptr \<Rightarrow> bool \<Rightarrow> 'z dheap_scheme \<Rightarrow> (int \<times> nat option) option" where
  "haggle_dataobject_get_data_size fs p has_count h =
     (if p = NULL then Some (HAGGLE_DATAOBJECT_ERROR, None)
      else
        do {
          d \<leftarrow> h_dobjs h p;
          (case d_filepath d of
             None \<Rightarrow> Some (HAGGLE_FILE_ERROR, None)
           | Some path \<Rightarrow>
               if \<not> has_count then Some (HAGGLE_PARAM_ERROR, None)
               else
                 case fs path of
                   None \<Rightarrow> Some (HAGGLE_FILE_ERROR, Some 0)
                 | Some f \<Rightarrow> if \<not> f_seek f then Some (HAGGLE_FILE_ERROR, Some 0) else Some (0, Some (length (f_data f))))
        })"

definition haggle_dataobject_read_data_start :: "files \<Rightarrow> ptr \<Rightarrow> 'z dheap_scheme \<Rightarrow> (int \<times> 'z dheap_scheme) option" where
  "haggle_dataobject_read_data_start fs p h =
     (if p = NULL then Some (HAGGLE_DATAOBJECT_ERROR, h)
      else
        do {
          d \<leftarrow> h_dobjs h p;
          (case d_filepath d of
             None \<Rightarrow> Some (HAGGLE_FILE_ERROR, h)
           | Some path \<Rightarrow>
               let fp = fopen_stream fs path; h = set_dobj p (d\<lparr>d_fp := fp\<rparr>) h in
               Some (if fp = None then HAGGLE_FILE_ERROR else 0, h))
        })"

text \<open>\<open>haggle_dataobject_read_data\<close>: the returned value and the bytes stored in the buffer.\<close>

definition haggle_dataobject_read_data ::
    "ptr \<Rightarrow> bool \<Rightarrow> nat \<Rightarrow> 'z dheap_scheme \<Rightarrow> (int \<times> string \<times> 'z dheap_scheme) option" where
  "haggle_dataobject_read_data p has_buffer count h =
     (if p = NULL then Some (HAGGLE_DATAOBJECT_ERROR, [], h)
      else
        do {
          d \<leftarrow> h_dobjs h p;
          (case d_fp d of
             None \<Rightarrow> Some (HAGGLE_FILE_ERROR, [], h)
           | Some s \<Rightarrow>
               if \<not> has_buffer then Some (HAGGLE_PARAM_ERROR, [], h)
               else
                 let (bs, s) = fread_stream count s in
                 if s_err s then Some (HAGGLE_FILE_ERROR, bs, set_dobj p (d\<lparr>d_fp := Some s\<rparr>) h)
                 else Some (int (length bs), bs, set_dobj p (d\<lparr>d_fp := (if s_eof s then None else Some s)\<rparr>) h))
        })"

text \<open>\<open>haggle_dataobject_get_data_all\<close>: the data, or \<open>None\<close> for \<open>NULL\<close>.\<close>

definition haggle_dataobject_get_data_all :: "files \<Rightarrow> ptr \<Rightarrow> 'z dheap_scheme \<Rightarrow> (string option \<times> 'z dheap_scheme) option" where
  "haggle_dataobject_get_data_all fs p h =
     (if p = NULL then Some (None, h)
      else
        do {
          d \<leftarrow> h_dobjs h p;
          (case d_filepath d of
             None \<Rightarrow> Some (None, h)
           | Some path \<Rightarrow>
               (case (fs path, fopen_stream fs path) of
                  (Some f, Some s) \<Rightarrow>
                    if \<not> f_seek f then Some (None, h)
                    else
                      let (ok, h) = malloc_ok h in
                      if \<not> ok then Some (None, h)
                      else
                        let (bs, s) = fread_stream (length (f_data f)) s in
                        Some (if length bs = length (f_data f) then Some bs else None, h)
                | _ \<Rightarrow> Some (None, h)))
        })"

section \<open>Attributes\<close>

definition haggle_dataobject_get_num_attributes :: "ptr \<Rightarrow> 'z dheap_scheme \<Rightarrow> u64 option" where
  "haggle_dataobject_get_num_attributes p h = do { d \<leftarrow> h_dobjs h p; haggle_attributelist_size (d_al d) h }"

definition haggle_dataobject_get_attribute_n :: "ptr \<Rightarrow> u64 \<Rightarrow> 'z dheap_scheme \<Rightarrow> ptr option" where
  "haggle_dataobject_get_attribute_n p n h =
     (if p = NULL then Some NULL else do { d \<leftarrow> h_dobjs h p; haggle_attributelist_get_attribute_n (d_al d) n h })"

definition haggle_dataobject_get_attribute_by_name :: "ptr \<Rightarrow> string option \<Rightarrow> 'z dheap_scheme \<Rightarrow> ptr option" where
  "haggle_dataobject_get_attribute_by_name p name h =
     (if p = NULL then Some NULL else do { d \<leftarrow> h_dobjs h p; haggle_attributelist_get_attribute_by_name (d_al d) name h })"

definition haggle_dataobject_get_attribute_by_name_value ::
    "ptr \<Rightarrow> string option \<Rightarrow> string option \<Rightarrow> 'z dheap_scheme \<Rightarrow> ptr option" where
  "haggle_dataobject_get_attribute_by_name_value p name vl h =
     (if p = NULL then Some NULL
      else do { d \<leftarrow> h_dobjs h p; haggle_attributelist_get_attribute_by_name_value (d_al d) name vl h })"

text \<open>The position is an \<open>unsigned long\<close> that is passed as an \<open>int\<close>.\<close>

definition haggle_dataobject_get_attribute_by_name_n :: "ptr \<Rightarrow> string option \<Rightarrow> u64 \<Rightarrow> 'z dheap_scheme \<Rightarrow> ptr option" where
  "haggle_dataobject_get_attribute_by_name_n p name n h =
     (if p = NULL then Some NULL
      else
        do {
          d \<leftarrow> h_dobjs h p;
          haggle_attributelist_get_attribute_by_name_n (d_al d) name (sint (ucast n :: u32)) h
        })"

definition haggle_dataobject_get_attributelist :: "ptr \<Rightarrow> 'z dheap_scheme \<Rightarrow> ptr option" where
  "haggle_dataobject_get_attributelist p h = (if p = NULL then Some NULL else map_option d_al (h_dobjs h p))"

definition haggle_dataobject_remove_attribute :: "ptr \<Rightarrow> ptr \<Rightarrow> 'z dheap_scheme \<Rightarrow> (int \<times> 'z dheap_scheme) option" where
  "haggle_dataobject_remove_attribute p a h =
     do {
       d \<leftarrow> h_dobjs h p;
       (r, h) \<leftarrow> haggle_attributelist_detach_attribute (d_al d) a h;
       Some (if r = 1 then 1 else 0, h)
     }"

definition haggle_dataobject_remove_attribute_by_name_value ::
    "ptr \<Rightarrow> string option \<Rightarrow> string option \<Rightarrow> 'z dheap_scheme \<Rightarrow> (int \<times> 'z dheap_scheme) option" where
  "haggle_dataobject_remove_attribute_by_name_value p name vl h =
     do {
       d \<leftarrow> h_dobjs h p;
       (a, h) \<leftarrow> haggle_attributelist_remove_attribute (d_al d) name vl h;
       if a \<noteq> NULL then do { h \<leftarrow> haggle_attribute_free a h; Some (1, h) } else Some (0, h)
     }"

definition haggle_dataobject_add_attribute_weighted ::
    "ptr \<Rightarrow> string option \<Rightarrow> string option \<Rightarrow> u64 \<Rightarrow> 'z dheap_scheme \<Rightarrow> (int \<times> 'z dheap_scheme) option" where
  "haggle_dataobject_add_attribute_weighted p name vl weight h =
     (let (a, h) = haggle_attribute_new_weighted name vl weight h in
      if a = NULL then Some (HAGGLE_INTERNAL_ERROR, h)
      else
        do {
          d \<leftarrow> h_dobjs h p;
          (n, h) \<leftarrow> haggle_attributelist_add_attribute (d_al d) a h;
          Some (sint (ucast n :: u32), h)
        })"

definition haggle_dataobject_add_attribute ::
    "ptr \<Rightarrow> string option \<Rightarrow> string option \<Rightarrow> 'z dheap_scheme \<Rightarrow> (int \<times> 'z dheap_scheme) option" where
  "haggle_dataobject_add_attribute p name vl h = haggle_dataobject_add_attribute_weighted p name vl 1 h"

section \<open>The hash of the data\<close>

text \<open>\<open>sprintf\<close> with \<open>%02hhX\<close>.\<close>

definition HEX2 :: "byte \<Rightarrow> string" where
  "HEX2 b = [''0123456789ABCDEF'' ! (unat b div 16), ''0123456789ABCDEF'' ! (unat b mod 16)]"

definition dataobject_set_hash_str :: "ptr \<Rightarrow> 'z dheap_scheme \<Rightarrow> (int \<times> 'z dheap_scheme) option" where
  "dataobject_set_hash_str p h =
     (if p = NULL then Some (HAGGLE_PARAM_ERROR, h)
      else
        do {
          d \<leftarrow> h_dobjs h p;
          let (ok, h) = (if d_hash_str d = None then malloc_ok h else (True, h)) in
          if \<not> ok then Some (HAGGLE_ALLOC_ERROR, h)
          else Some (HAGGLE_NO_ERROR, set_dobj p (d\<lparr>d_hash_str := Some (concat (map HEX2 (take HASH_LENGTH (d_hash d))))\<rparr>) h)
        })"

definition DATA_BUFFER_LEN :: nat where "DATA_BUFFER_LEN = 4096"

function hash_loop :: "SHA1Context \<Rightarrow> stream \<Rightarrow> SHA1Context \<times> stream" where
  "hash_loop ctx s =
     (if s_eof s \<or> s_err s then (ctx, s)
      else let (bs, s') = fread_stream DATA_BUFFER_LEN s in hash_loop (SHA1_Update ctx (map byte_of_char bs)) s')"
  by pat_completeness auto
termination
  by (relation "measure (\<lambda>(_, s). length (s_rest s) + (if s_eof s \<or> s_err s then 0 else 1))")
    (auto simp: fread_stream_def DATA_BUFFER_LEN_def split: if_splits)

declare hash_loop.simps [simp del]

definition haggle_dataobject_add_hash ::
    "files \<Rightarrow> SHA1Context \<Rightarrow> ptr \<Rightarrow> 'z dheap_scheme \<Rightarrow> (int \<times> 'z dheap_scheme) option" where
  "haggle_dataobject_add_hash fs stack p h =
     (if p = NULL then Some (HAGGLE_INTERNAL_ERROR, h)
      else
        do {
          d \<leftarrow> h_dobjs h p;
          (case d_filepath d of
             None \<Rightarrow> Some (HAGGLE_INTERNAL_ERROR, h)
           | Some path \<Rightarrow>
               (case fopen_stream fs path of
                  None \<Rightarrow> Some (HAGGLE_FILE_ERROR, h)
                | Some s \<Rightarrow>
                    let (ctx, s) = hash_loop (SHA1_Init stack) s in
                    if s_err s then Some (HAGGLE_FILE_ERROR, h)
                    else
                      let h = set_dobj p (d\<lparr>d_hash := fst (SHA1_Final (d_hash d) ctx)\<rparr>) h in
                      do { (_, h) \<leftarrow> dataobject_set_hash_str p h; Some (HAGGLE_NO_ERROR, h) }))
        })"

section \<open>The thumbnail\<close>

text \<open>
  \<open>haggle_dataobject_set_thumbnail\<close>: the size of the buffer is computed with \<open>BASE64_LENGTH\<close>; \<open>memset\<close> clears it, so that the
  string ends where the encoder stops.
\<close>

definition haggle_dataobject_set_thumbnail :: "ptr \<Rightarrow> string \<Rightarrow> 'z dheap_scheme \<Rightarrow> (int \<times> 'z dheap_scheme) option" where
  "haggle_dataobject_set_thumbnail p data h =
     (if p = NULL then Some (HAGGLE_PARAM_ERROR, h)
      else
        let b64_len = BASE64_LENGTH (of_nat (length data)); (ok, h) = malloc_ok h in
        if \<not> ok then Some (HAGGLE_INTERNAL_ERROR, h)
        else
          do {
            d \<leftarrow> h_dobjs h p;
            Some (HAGGLE_NO_ERROR,
              set_dobj p (d\<lparr>d_thumbnail_str := Some (c_string (base64_encode data (unat (b64_len + 1))))\<rparr>) h)
          })"

text \<open>\<open>haggle_dataobject_read_thumbnail\<close>: the returned value and the bytes stored in the buffer of \<open>len\<close> bytes.\<close>

definition haggle_dataobject_read_thumbnail ::
    "base64_decode_context \<Rightarrow> ptr \<Rightarrow> nat \<Rightarrow> 'z dheap_scheme \<Rightarrow> (int \<times> string) option" where
  "haggle_dataobject_read_thumbnail stack p len h =
     (if p = NULL then Some (HAGGLE_PARAM_ERROR, [])
      else
        do {
          d \<leftarrow> h_dobjs h p;
          (case d_thumbnail_str d of
             None \<Rightarrow> Some (HAGGLE_PARAM_ERROR, [])
           | Some t \<Rightarrow>
               do {
                 (_, out, ok) \<leftarrow> base64_decode (base64_decode_ctx_init stack) t len;
                 Some (if ok then int (length out) else HAGGLE_INTERNAL_ERROR, out)
               })
        })"

definition haggle_dataobject_get_thumbnail_size :: "ptr \<Rightarrow> 'z dheap_scheme \<Rightarrow> (int \<times> nat option) option" where
  "haggle_dataobject_get_thumbnail_size p h =
     (if p = NULL then Some (HAGGLE_PARAM_ERROR, None)
      else
        do {
          d \<leftarrow> h_dobjs h p;
          (case d_thumbnail_str d of
             None \<Rightarrow> Some (HAGGLE_PARAM_ERROR, None)
           | Some t \<Rightarrow> Some (HAGGLE_NO_ERROR, Some (3 * (length t div 4) + 2)))
        })"

section \<open>Metadata\<close>

definition haggle_dataobject_get_metadata :: "ptr \<Rightarrow> string option \<Rightarrow> 'z dheap_scheme \<Rightarrow> (ptr \<times> 'z dheap_scheme) option" where
  "haggle_dataobject_get_metadata p name h =
     (if p = NULL then Some (NULL, h)
      else do { d \<leftarrow> h_dobjs h p; if name \<noteq> None then metadata_get (d_m d) name h else Some (d_m d, h) })"

definition haggle_dataobject_add_metadata :: "ptr \<Rightarrow> ptr \<Rightarrow> 'z dheap_scheme \<Rightarrow> (int \<times> 'z dheap_scheme) option" where
  "haggle_dataobject_add_metadata p m h =
     (if p = NULL \<or> m = NULL then Some (HAGGLE_PARAM_ERROR, h)
      else
        do {
          d \<leftarrow> h_dobjs h p;
          (_, h) \<leftarrow> metadata_add (d_m d) m h;
          Some (HAGGLE_NO_ERROR, h)
        })"



section \<open>The hash of a file\<close>

lemma set_dobj_simps [simp]:
  "h_dobjs (set_dobj p d h) = (h_dobjs h)(p \<mapsto> d)" "h_mem (set_dobj p d h) = h_mem h" "h_links (set_dobj p d h) = h_links h"
  "h_attrs (set_dobj p d h) = h_attrs h" "h_alists (set_dobj p d h) = h_alists h" "h_brk (set_dobj p d h) = h_brk h"
  "set_dobj p d' (set_dobj p d h) = set_dobj p d' h"
  by (simp_all add: set_dobj_def)

lemma length_sha1 [simp]: "length (sha1 m) = 20"
  by (simp add: sha1_def split: prod.splits)

lemma hash_loop_absorbs:
  "ready ctx m \<Longrightarrow> \<not> s_eof s \<Longrightarrow> \<not> s_err s \<Longrightarrow> length m + length (s_rest s) < 2 ^ 61 \<Longrightarrow>
   \<exists>ctx' s'. hash_loop ctx s = (ctx', s') \<and> s_err s' = s_bad s \<and> ready ctx' (m @ map byte_of_char (s_rest s))"
proof (induction ctx s arbitrary: m rule: hash_loop.induct)
  case (1 ctx s)
  obtain bs s' where r: "fread_stream DATA_BUFFER_LEN s = (bs, s')" by fastforce
  have step: "hash_loop ctx s = hash_loop (SHA1_Update ctx (map byte_of_char bs)) s'"
    using 1(3,4) r by (simp add: hash_loop.simps [of ctx s])
  have len: "length m + length bs < 2 ^ 61" "s_rest s = bs @ s_rest s'" "s_bad s' = s_bad s"
    using "1.prems"(4) r by (auto simp: fread_stream_def split: if_splits)
  have up: "ready (SHA1_Update ctx (map byte_of_char bs)) (m @ map byte_of_char bs)"
    using SHA1_Update_ready [OF "1.prems"(1), of "map byte_of_char bs"] len(1) by simp
  show ?case
  proof (cases "s_eof s' \<or> s_err s'")
    case True
    then have "s_rest s' = []" "s_err s' = s_bad s"
      using r "1.prems"(2,3) by (auto simp: fread_stream_def split: if_splits)
    then show ?thesis using True step up len by (auto simp: hash_loop.simps [of _ s'])
  next
    case False
    have "length (m @ map byte_of_char bs) + length (s_rest s') < 2 ^ 61" using "1.prems"(4) len(2) by simp
    then show ?thesis
      using "1.IH" [of "(bs, s')" bs s' "m @ map byte_of_char bs"] False r up "1.prems"(2,3) step len by auto
  qed
qed

lemma add_hash_file:
  assumes "h_dobjs h p = Some d" "p \<noteq> NULL" "d_filepath d = Some path" "fs path = Some f" "length (f_data f) < 2 ^ 61"
    "length (Message_Block stack) = 64" "h_mem h = []"
  shows "haggle_dataobject_add_hash fs stack p h =
    (if f_bad f then Some (HAGGLE_FILE_ERROR, h)
     else let dig = sha1 (map byte_of_char (f_data f)) in
       Some (HAGGLE_NO_ERROR, set_dobj p (d\<lparr>d_hash := dig, d_hash_str := Some (concat (map HEX2 dig))\<rparr>) h))"
proof -
  let ?s = "\<lparr>s_rest = f_data f, s_bad = f_bad f, s_eof = False, s_err = False\<rparr>"
  obtain ctx' s' where l: "hash_loop (SHA1_Init stack) ?s = (ctx', s')" "s_err s' = f_bad f"
    "ready ctx' (map byte_of_char (f_data f))"
    using hash_loop_absorbs [OF SHA1_Init_ready [OF assms(6)], of ?s] assms(5) by auto
  have "fst (SHA1_Final (d_hash d) ctx') = sha1 (map byte_of_char (f_data f))"
    using SHA1_Final_ready [OF l(3)] assms(5) by simp
  then show ?thesis
    using assms l by (auto simp: haggle_dataobject_add_hash_def fopen_stream_def dataobject_set_hash_str_def malloc_ok_def
        HASH_LENGTH_def Let_def)
qed

section \<open>The identifier of a data object\<close>

definition attr_bytes :: "attribute \<Rightarrow> byte list" where
  "attr_bytes v = map byte_of_char (the (attr_name v) @ the (attr_value v)) @ be_bytes 4 (ucast (attr_weight v) :: u32)"

definition id_tail :: "dataobject \<Rightarrow> byte list" where
  "id_tail d =
     (if d_sec d = 0 then [] else map byte_of_char (take 19 (createtime_text (d_sec d) (d_usec d)))) @
     (if d_hash_str d \<noteq> None then d_hash d
      else case d_filename d of
        None \<Rightarrow> []
      | Some fn \<Rightarrow> if d_datalen d > 0 then map byte_of_char fn @ rev (be_bytes 8 (d_datalen d)) else [])"

definition id_message :: "attribute list \<Rightarrow> dataobject \<Rightarrow> byte list" where
  "id_message vs d = concat (map attr_bytes vs) @ id_tail d"

lemma id_body_ready:
  assumes "h_attrs h a = Some v" "attr_name v = Some nm" "attr_value v = Some vl" "a \<noteq> NULL"
    "ready ctx m" "length m + length (attr_bytes v) < 2 ^ 61"
  shows "\<exists>ctx'. id_body h a ctx = Some (Inr ctx') \<and> ready ctx' (m @ attr_bytes v)"
proof -
  let ?nm = "map byte_of_char nm" and ?vl = "map byte_of_char vl" and ?w = "be_bytes 4 (ucast (attr_weight v) :: u32)"
  have "attr_bytes v = concat [?nm, ?vl, ?w]" using assms(2,3) by (simp add: attr_bytes_def)
  then have "ready (fold (\<lambda>d c. SHA1_Update c d) [?nm, ?vl, ?w] ctx) (m @ attr_bytes v)"
    using SHA1_Updates_ready [OF assms(5), of "[?nm, ?vl, ?w]"] assms(6) by simp
  then show ?thesis
    using assms(1-4) by (simp add: id_body_def haggle_attribute_get_name_def haggle_attribute_get_value_def haggle_attribute_get_weight_def)
qed

lemma id_loop_ready:
  assumes "length vs = length xs" "\<forall>(x, v) \<in> set (zip xs vs). h_attrs h x = Some v \<and> (\<exists>nm vl. attr_name v = Some nm \<and> attr_value v = Some vl)"
    "NULL \<notin> set xs" "ready ctx m" "length m + length (concat (map attr_bytes vs)) < 2 ^ 61"
  shows "\<exists>ctx'. loop_over (id_body h) xs ctx = Some (Inr ctx') \<and> ready ctx' (m @ concat (map attr_bytes vs))"
  using assms
proof (induction xs vs arbitrary: ctx m rule: list_induct2')
  case (4 x xs v vs)
  then obtain ctx' where c: "id_body h x ctx = Some (Inr ctx')" "ready ctx' (m @ attr_bytes v)"
    using id_body_ready [of h x v _ _ ctx m] by fastforce
  then show ?case using "4.IH" [of ctx' "m @ attr_bytes v"] "4.prems" by auto
qed auto

lemma calculate_id_message:
  assumes "h_dobjs h p = Some d" "alist h (d_al d) xs vs" "length (Message_Block stack) = 64" "length (id_message vs d) < 2 ^ 61"
  shows "haggle_dataobject_calculate_id stack p idbuf h = Some (0, sha1 (id_message vs d))"
proof -
  let ?m = "concat (map attr_bytes vs)"
  have len: "length ?m + length (id_tail d) < 2 ^ 61" using assms(4) by (simp add: id_message_def)
  have "list_for_each (\<lambda>_. h_links h) (id_body h) (d_al d) (SHA1_Init stack) = loop_over (id_body h) xs (SHA1_Init stack)"
    by (rule list_for_each_pure) (use assms(2) in \<open>simp_all add: alist_def\<close>)
  moreover have "\<forall>(x, v) \<in> set (zip xs vs). h_attrs h x = Some v \<and> (\<exists>nm vl. attr_name v = Some nm \<and> attr_value v = Some vl)"
    using alist_attrs [OF assms(2)] by fast
  ultimately obtain ctx where ctx: "list_for_each (\<lambda>_. h_links h) (id_body h) (d_al d) (SHA1_Init stack) = Some (Inr ctx)" "ready ctx ?m"
    using id_loop_ready [OF alist_length [OF assms(2)] _ _ SHA1_Init_ready [OF assms(3)]] alist_not_NULL [OF assms(2)] len by auto
  define chunks where "chunks =
    (if d_sec d = 0 then [] else [map byte_of_char (take 19 (createtime_text (d_sec d) (d_usec d)))]) @
    (if d_hash_str d \<noteq> None then [d_hash d]
     else case d_filename d of None \<Rightarrow> []
       | Some fn \<Rightarrow> if d_datalen d > 0 then [map byte_of_char fn, rev (be_bytes 8 (d_datalen d))] else [])"
  have "concat chunks = id_tail d" by (simp add: chunks_def id_tail_def split: option.splits)
  then have "ready (fold (\<lambda>d c. SHA1_Update c d) chunks ctx) (id_message vs d)"
    using SHA1_Updates_ready [OF ctx(2), of chunks] len by (simp add: id_message_def)
  then have "fst (SHA1_Final idbuf (fold (\<lambda>d c. SHA1_Update c d) chunks ctx)) = sha1 (id_message vs d)"
    using SHA1_Final_ready assms(4) by blast
  then show ?thesis
    using assms(1) ctx(1) alist_not_NULL [OF assms(2)]
    by (auto simp: haggle_dataobject_calculate_id_def chunks_def Let_def split: option.splits if_splits)
qed

section \<open>Data objects from files\<close>

lemma file_name_loop_suffix:
  "i \<le> length path \<Longrightarrow>
   file_name_loop path i (Some (drop i path)) = Some (drop (length (dropWhile (\<lambda>c. c \<noteq> CHR ''/'' \<and> c \<noteq> CHR 0x5C) (rev (take i path)))) path)"
proof (induction i)
  case (Suc i)
  then have "rev (take (Suc i) path) = path ! i # rev (take i path)" by (simp add: take_Suc_conv_app_nth)
  then show ?case using Suc by auto
qed simp



definition base_name :: "string \<Rightarrow> string" where
  "base_name path = rev (takeWhile (\<lambda>c. c \<noteq> CHR ''/'' \<and> c \<noteq> CHR 0x5C) (rev path))"

lemma base_name_drop: "base_name path = drop (length (dropWhile (\<lambda>c. c \<noteq> CHR ''/'' \<and> c \<noteq> CHR 0x5C) (rev path))) path"
  (is "_ = drop (length (dropWhile ?P _)) _")
proof -
  have "path = rev (dropWhile ?P (rev path)) @ base_name path"
    unfolding base_name_def by (metis rev_append rev_rev_ident takeWhile_dropWhile_id)
  then show ?thesis by (metis append_eq_conv_conj length_rev)
qed

lemma file_name_loop_base: "path \<noteq> [] \<Longrightarrow> file_name_loop path (length path) None = Some (base_name path)"
proof -
  assume "path \<noteq> []"
  then have "file_name_loop path (length path) None = file_name_loop path (length path) (Some (drop (length path) path))"
    by (cases "length path") auto
  then show ?thesis using file_name_loop_suffix [of "length path" path] by (simp add: base_name_drop)
qed

definition file_object :: "string \<Rightarrow> os_file \<Rightarrow> dataobject \<Rightarrow> bool" where
  "file_object path f d \<longleftrightarrow> d_filepath d = Some path \<and> d_filename d = Some (base_name path) \<and> d_sec d = 0
     \<and> d_datalen d = (if f_seek f then of_nat (length (f_data f)) else -1) \<and> d_flags d = DATAOBJECT_FLAG_PERSISTENT
     \<and> d_hash_str d = None \<and> d_fp d = None"

lemma new_from_file_object:
  assumes "h_mem h = []" "0 < h_brk h" "path \<noteq> []" "fs path = Some f"
  shows "\<exists>p h' d. haggle_dataobject_new_from_file fs (Some path) h = Some (p, h') \<and> p \<noteq> NULL \<and> h_mem h' = []
    \<and> h_dobjs h' p = Some d \<and> file_object path f d \<and> alist h' (d_al d) [] [] \<and> metadata_get_name (d_m d) h' = Some (Some HAGGLE_TAG)"
  using assms
  by (auto simp: haggle_dataobject_new_from_file_def file_name_loop_base malloc_def malloc_ok_def haggle_dataobject_set_flags_def
      haggle_attributelist_new_def metadata_new_def metadata_set_name_def metadata_set_content_def set_md_def set_dobj_def zero_dobj_def
      file_object_def alist_def ring_def linked_def INIT_LIST_def metadata_get_name_def DATAOBJECT_FLAG_PERSISTENT_def Let_def)


text \<open>
  C37: \<open>haggle_dataobject_add_hash\<close> reads the file in blocks of 4096 bytes and stores the SHA-1 digest of the whole
  contents and its text in hexadecimal in the object, changes nothing else and returns 0; when reading fails it returns an error
  and the data object is unchanged.  (The header says that it creates an attribute with the hash and returns what \<open>haggle_dataobject_add_attribute\<close>
  returns; no attribute is created.)
\<close>

theorem dataobject_add_hash_sha1:
  assumes "h_dobjs h p = Some d" "p \<noteq> NULL" "d_filepath d = Some path" "fs path = Some f" "length (f_data f) < 2 ^ 61"
    "length (Message_Block stack) = 64" "h_mem h = []"
  shows "haggle_dataobject_add_hash fs stack p h =
    (if f_bad f then Some (HAGGLE_FILE_ERROR, h)
     else let dig = sha1 (map byte_of_char (f_data f)) in
       Some (HAGGLE_NO_ERROR, set_dobj p (d\<lparr>d_hash := dig, d_hash_str := Some (concat (map HEX2 dig))\<rparr>) h))"
  using add_hash_file [of h p d path fs f stack] assms by blast


text \<open>
  C14: From a file to the identifier: a data object made from a readable file, with its hash added, has as its
  identifier the digest of the digest of the contents; its file name is the part of the path after the last separator.  Adding the hash
  returns 0 and creates no attribute, contrary to the header: the object has none, and the hash enters the identifier as a member.
\<close>

theorem file_object_id:
  fixes h :: dheap
  assumes "h_mem h = []" "0 < h_brk h" "path \<noteq> []" "fs path = Some f" "\<not> f_bad f" "length (f_data f) < 2 ^ 61"
    "length (Message_Block stack) = 64"
  shows "\<exists>p h1 h2. haggle_dataobject_new_from_file fs (Some path) h = Some (p, h1)
    \<and> haggle_dataobject_get_filename p h1 = Some (Some (base_name path))
    \<and> haggle_dataobject_add_hash fs stack p h1 = Some (HAGGLE_NO_ERROR, h2) \<and> haggle_dataobject_get_num_attributes p h2 = Some 0
    \<and> haggle_dataobject_calculate_id stack p idbuf h2 = Some (0, sha1 (sha1 (map byte_of_char (f_data f))))"
proof -
  obtain p h1 d where n: "haggle_dataobject_new_from_file fs (Some path) h = Some (p, h1)" "p \<noteq> NULL" "h_mem h1 = []"
    "h_dobjs h1 p = Some d" "file_object path f d" "alist h1 (d_al d) [] []"
    using new_from_file_object [of h path fs f] assms(1-4) by blast
  let ?dig = "sha1 (map byte_of_char (f_data f))"
  let ?d = "d\<lparr>d_hash := ?dig, d_hash_str := Some (concat (map HEX2 ?dig))\<rparr>"
  have "haggle_dataobject_add_hash fs stack p h1 = Some (HAGGLE_NO_ERROR, set_dobj p ?d h1)"
    using add_hash_file [of h1 p d path fs f stack] n(2-5) assms(4-7) by (simp add: file_object_def Let_def)
  moreover have "id_message [] ?d = ?dig" using n(5) by (simp add: id_message_def id_tail_def file_object_def)
  moreover have "alist (set_dobj p ?d h1) (d_al ?d) [] []" using n(6) by (simp add: alist_def)
  moreover have "haggle_dataobject_get_num_attributes p (set_dobj p ?d h1) = Some 0"
    using n(6) by (simp add: haggle_dataobject_get_num_attributes_def haggle_attributelist_size_def alist_def)
  ultimately show ?thesis
    using n calculate_id_message [of "set_dobj p ?d h1" p ?d "[]" "[]" stack idbuf] assms(7)
    by (auto simp: haggle_dataobject_get_filename_def file_object_def)
qed

section \<open>Thumbnails\<close>

lemma base64_encode_thumbnail:
  assumes "length data < 2 ^ 60"
  shows "c_string (base64_encode data (unat (BASE64_LENGTH (of_nat (length data)) + 1))) = encode_text data"
proof -
  have "4 * ((length data + 2) div 3) < 2 ^ 64 - 1" using assms by simp
  then have "unat (BASE64_LENGTH (of_nat (length data)) + 1) = Suc (length (encode_text data))"
    using BASE64_LENGTH_unat [of "length data"] assms by (simp add: add.commute length_encode_text)
  then show ?thesis by (simp add: base64_encode_def base64_encode_loop_eq)
qed

text \<open>
  C38: A thumbnail that was set is read back exactly into a buffer of the size that \<open>haggle_dataobject_get_thumbnail_size\<close> gives;
  into a shorter buffer its beginning is read.
\<close>

theorem thumbnail_roundtrip:
  fixes h :: dheap
  assumes "h_dobjs h p = Some d" "p \<noteq> NULL" "h_mem h = []" "length data < 2 ^ 60" "length (ctx_buf stack) = 4"
  shows "\<exists>h' n. haggle_dataobject_set_thumbnail p data h = Some (HAGGLE_NO_ERROR, h')
    \<and> haggle_dataobject_get_thumbnail_size p h' = Some (HAGGLE_NO_ERROR, Some n)
    \<and> haggle_dataobject_read_thumbnail stack p n h' = Some (int (length data), data)
    \<and> (\<forall>len. haggle_dataobject_read_thumbnail stack p len h' = Some (int (min len (length data)), take len data))"
proof -
  let ?h = "set_dobj p (d\<lparr>d_thumbnail_str := Some (encode_text data)\<rparr>) h" and ?n = "3 * (length (encode_text data) div 4) + 2"
  have "haggle_dataobject_set_thumbnail p data h = Some (HAGGLE_NO_ERROR, ?h)"
    using assms(1-3) base64_encode_thumbnail [OF assms(4)] by (simp add: haggle_dataobject_set_thumbnail_def malloc_ok_def)
  moreover have read: "haggle_dataobject_read_thumbnail stack p len ?h = Some (int (min len (length data)), take len data)" for len
    using base64_decode_fresh [OF assms(5), of "encode_text data" len] assms(2)
    by (auto simp: haggle_dataobject_read_thumbnail_def decode_encode_text)
  moreover have "length data \<le> ?n" by (simp add: length_encode_text)
  then have "haggle_dataobject_read_thumbnail stack p ?n ?h = Some (int (length data), data)" using read [of ?n] by simp
  ultimately show ?thesis using assms(2) by (auto simp: haggle_dataobject_get_thumbnail_size_def)
qed

section \<open>Examples\<close>

text \<open>A data object with the attribute \<open>a=1\<close> and a path, and a file system with one file.\<close>

definition sample_dobj :: dataobject where
  "sample_dobj = zero_dobj\<lparr>d_filepath := Some ''/f'', d_al := 5\<rparr>"

definition sample_objects :: dheap where
  "sample_objects =
     \<lparr>h_links = [5 \<mapsto> \<lparr>l_prev = 9, l_next = 9\<rparr>, 9 \<mapsto> \<lparr>l_prev = 5, l_next = 5\<rparr>], h_brk = 13, h_mem = [],
      h_attrs = [9 \<mapsto> plain_attr (''a'', ''1'')], h_alists = [5 \<mapsto> 1], h_mds = Map.empty, h_ifaces = Map.empty,
      h_nodes = Map.empty, h_nodelists = Map.empty, h_dobjs = [1 \<mapsto> sample_dobj]\<rparr>"

definition sample_files :: files where
  "sample_files = [''/f'' \<mapsto> \<lparr>f_data = ''abc'', f_bad = False, f_seek = True\<rparr>]"

lemma sample_objects_facts:
  "h_dobjs sample_objects 1 = Some sample_dobj" "h_mem sample_objects = []" "h_brk sample_objects = 13"
  "alist sample_objects 5 [9] [plain_attr (''a'', ''1'')]" "length (Message_Block any_context) = 64"
  by (simp_all add: sample_objects_def alist_def ring_def linked_def plain_attr_def any_context_def)

theorem dataobject_add_hash_sha1_witness:
  "\<exists>h'. haggle_dataobject_add_hash sample_files any_context 1 sample_objects = Some (HAGGLE_NO_ERROR, h')"
  using dataobject_add_hash_sha1 [of sample_objects 1 sample_dobj "''/f''" sample_files _ any_context] sample_objects_facts
  by (simp add: sample_dobj_def sample_files_def Let_def)


theorem file_object_id_witness:
  "\<exists>p h1 h2. haggle_dataobject_new_from_file sample_files (Some ''/f'') sample_objects = Some (p, h1)
    \<and> haggle_dataobject_get_filename p h1 = Some (Some ''f'')
    \<and> haggle_dataobject_add_hash sample_files any_context p h1 = Some (HAGGLE_NO_ERROR, h2) \<and> haggle_dataobject_get_num_attributes p h2 = Some 0
    \<and> haggle_dataobject_calculate_id any_context p [] h2 = Some (0, sha1 (sha1 (map byte_of_char ''abc'')))"
  using file_object_id [of sample_objects "''/f''" sample_files _ any_context "[]"] sample_objects_facts
  by (simp add: sample_files_def base_name_def)

theorem thumbnail_roundtrip_witness:
  "\<exists>h' n. haggle_dataobject_set_thumbnail 1 ''xyz'' sample_objects = Some (HAGGLE_NO_ERROR, h')
    \<and> haggle_dataobject_get_thumbnail_size 1 h' = Some (HAGGLE_NO_ERROR, Some n)
    \<and> haggle_dataobject_read_thumbnail \<lparr>ctx_i = 0, ctx_buf = ''????''\<rparr> 1 n h' = Some (3, ''xyz'')"
  using thumbnail_roundtrip [of sample_objects 1 sample_dobj "''xyz''" "\<lparr>ctx_i = 0, ctx_buf = ''????''\<rparr>"] sample_objects_facts
  by auto


end
