(* ===== verification/Dataobject_Raw.thy ===== *)
theory Dataobject_Raw
  imports Dataobject Metadata_XML
begin

text \<open>
  The raw form of data objects: the functions of \<open>src/src/libhaggle/dataobject.c\<close> that parse a data object from its XML text,
  write this text, and make a data object from a buffer.  The functions that read numbers are those of
  the C library; a number outside of the range of its type is undefined behaviour where the standard says so.
\<close>

section \<open>Reading numbers\<close>

definition is_space :: "char \<Rightarrow> bool" where
  "is_space c \<longleftrightarrow> c = CHR '' '' \<or> c \<in> {CHR 0x09, CHR 0x0A, CHR 0x0B, CHR 0x0C, CHR 0x0D}"

definition is_digit :: "char \<Rightarrow> bool" where
  "is_digit c \<longleftrightarrow> c \<in> set ''0123456789''"

definition digit_value :: "char \<Rightarrow> nat" where
  "digit_value c = of_char c - 48"

definition number :: "string \<Rightarrow> nat" where
  "number ds = foldl (\<lambda>n c. 10 * n + digit_value c) 0 ds"

text \<open>A decimal number with white space and a sign before it, and what follows it.\<close>

definition scan_int :: "string \<Rightarrow> (int \<times> string) option" where
  "scan_int s =
     (let s = dropWhile is_space s;
          (sg, s) = (case s of c # s' \<Rightarrow> if c = CHR ''-'' then (-1, s') else if c = CHR ''+'' then (1, s') else (1, s) | [] \<Rightarrow> (1, s));
          ds = takeWhile is_digit s in
      if ds = [] then None else Some (sg * int (number ds), dropWhile is_digit s))"

definition atoi :: "string \<Rightarrow> int option" where
  "atoi s =
     (case scan_int s of
        None \<Rightarrow> Some 0
      | Some (i, _) \<Rightarrow> if - (2 ^ 31) \<le> i \<and> i < 2 ^ 31 then Some i else None)"

definition strtoul :: "string \<Rightarrow> u64" where
  "strtoul s =
     (case scan_int s of
        None \<Rightarrow> 0
      | Some (i, _) \<Rightarrow> if 2 ^ 64 \<le> \<bar>i\<bar> then - 1 else word_of_int i)"

definition in_long :: "int \<Rightarrow> bool" where
  "in_long i \<longleftrightarrow> - (2 ^ 63) \<le> i \<and> i < 2 ^ 63"

text \<open>\<open>sscanf (s, "%ld.%ld", \<dots>)\<close>: variables that are not reached keep their value.\<close>

definition sscanf_time :: "int \<times> int \<Rightarrow> string \<Rightarrow> (int \<times> int) option" where
  "sscanf_time old s =
     (case scan_int s of
        None \<Rightarrow> Some old
      | Some (a, rest) \<Rightarrow>
          if \<not> in_long a then None
          else
            (case rest of
               [] \<Rightarrow> Some (a, snd old)
             | c # rest \<Rightarrow>
                 if c \<noteq> CHR ''.'' then Some (a, snd old)
                 else
                   (case scan_int rest of
                      None \<Rightarrow> Some (a, snd old)
                    | Some (b, _) \<Rightarrow> if in_long b then Some (a, b) else None)))"

section \<open>Parsing a data object\<close>

text \<open>The part of the loop that reads the hash of the file.\<close>

definition read_hash :: "base64_decode_context \<Rightarrow> ptr \<Rightarrow> string \<Rightarrow> 'z dheap_scheme \<Rightarrow> 'z dheap_scheme option" where
  "read_hash stack p content h =
     do {
       (_, out, ok) \<leftarrow> base64_decode (base64_decode_ctx_init stack) content HASH_LENGTH;
       d \<leftarrow> h_dobjs h p;
       let h = set_dobj p (d\<lparr>d_hash := map byte_of_char out @ drop (length out) (d_hash d)\<rparr>) h in
       if ok then map_option snd (dataobject_set_hash_str p h) else Some h
     }"

text \<open>One child of the element \<open>Data\<close>, and the loop over them.\<close>

definition read_field :: "base64_decode_context \<Rightarrow> ptr \<Rightarrow> ptr \<Rightarrow> 'z dheap_scheme \<Rightarrow> 'z dheap_scheme option" where
  "read_field stack p mc h =
     do {
       is_path \<leftarrow> metadata_name_is mc ''FilePath'' h;
       is_name \<leftarrow> metadata_name_is mc ''FileName'' h;
       is_hash \<leftarrow> metadata_name_is mc ''FileHash'' h;
       content \<leftarrow> metadata_get_content mc h;
       if is_path \<noteq> 0 then map_option snd (haggle_dataobject_set_filepath p content h)
       else if is_name \<noteq> 0 then map_option snd (haggle_dataobject_set_filename p content h)
       else if is_hash \<noteq> 0 then do { s \<leftarrow> content; read_hash stack p s h }
       else Some h
     }"

partial_function (option) read_data_loop :: "base64_decode_context \<Rightarrow> ptr \<Rightarrow> ptr \<Rightarrow> ptr \<Rightarrow> 'z dheap_scheme \<Rightarrow> 'z dheap_scheme option" where
  "read_data_loop stack p md mc h =
     (if mc = NULL then Some h
      else
        do {
          h \<leftarrow> read_field stack p mc h;
          (mc, h) \<leftarrow> metadata_get_next md h;
          read_data_loop stack p md mc h
        })"

definition read_data :: "base64_decode_context \<Rightarrow> ptr \<Rightarrow> ptr \<Rightarrow> 'z dheap_scheme \<Rightarrow> 'z dheap_scheme option" where
  "read_data stack p md h =
     do {
       str \<leftarrow> metadata_get_parameter md (Some ''data_len'') h;
       h \<leftarrow> (case str of
               None \<Rightarrow> Some h
             | Some s \<Rightarrow> do { n \<leftarrow> atoi s; d \<leftarrow> h_dobjs h p; Some (set_dobj p (d\<lparr>d_datalen := word_of_int n\<rparr>) h) });
       (mc, h) \<leftarrow> metadata_get md None h;
       read_data_loop stack p md mc h
     }"

definition read_attr :: "ptr \<Rightarrow> ptr \<Rightarrow> 'z dheap_scheme \<Rightarrow> 'z dheap_scheme option" where
  "read_attr p md h =
     do {
       name \<leftarrow> metadata_get_parameter md (Some ''name'') h;
       weightstr \<leftarrow> metadata_get_parameter md (Some ''weight'') h;
       if name = None then Some h
       else
         do {
           content \<leftarrow> metadata_get_content md h;
           let (a, h) = (case weightstr of
                           Some w \<Rightarrow> haggle_attribute_new_weighted name content (strtoul w) h
                         | None \<Rightarrow> haggle_attribute_new name content h) in
           if a = NULL then Some h
           else do { d \<leftarrow> h_dobjs h p; map_option snd (haggle_attributelist_add_attribute (d_al d) a h) }
         }
     }"

text \<open>One child of the root, and the loop over them.\<close>

definition read_child :: "base64_decode_context \<Rightarrow> ptr \<Rightarrow> ptr \<Rightarrow> 'z dheap_scheme \<Rightarrow> 'z dheap_scheme option" where
  "read_child stack p md h =
     do {
       is_data \<leftarrow> metadata_name_is md ''Data'' h;
       is_attr \<leftarrow> metadata_name_is md ''Attr'' h;
       if is_data \<noteq> 0 then read_data stack p md h
       else if is_attr \<noteq> 0 then read_attr p md h
       else Some h
     }"

partial_function (option) read_object_loop :: "base64_decode_context \<Rightarrow> ptr \<Rightarrow> ptr \<Rightarrow> ptr \<Rightarrow> 'z dheap_scheme \<Rightarrow> 'z dheap_scheme option" where
  "read_object_loop stack p m md h =
     (if md = NULL then Some h
      else
        do {
          h \<leftarrow> read_child stack p md h;
          (md, h) \<leftarrow> metadata_get_next m h;
          read_object_loop stack p m md h
        })"

definition read_persistent :: "ptr \<Rightarrow> string option \<Rightarrow> 'z dheap_scheme \<Rightarrow> 'z dheap_scheme option" where
  "read_persistent p persistent h =
     (if persistent = Some ''no'' \<or> persistent = Some ''false''
      then map_option snd (haggle_dataobject_unset_flags p DATAOBJECT_FLAG_PERSISTENT h)
      else if persistent = Some ''yes'' \<or> persistent = Some ''true''
      then map_option snd (haggle_dataobject_set_flags p DATAOBJECT_FLAG_PERSISTENT h)
      else Some h)"

definition read_createtime :: "int \<times> int \<Rightarrow> ptr \<Rightarrow> string option \<Rightarrow> 'z dheap_scheme \<Rightarrow> 'z dheap_scheme option" where
  "read_createtime locals p createtime h =
     (case createtime of
        None \<Rightarrow> Some h
      | Some s \<Rightarrow>
          do {
            ct \<leftarrow> sscanf_time locals s;
            map_option snd (haggle_dataobject_set_createtime (0, 0) p (Some ct) h)
          })"

text \<open>
  \<open>haggle_dataobject_new_from_raw\<close>: \<open>stack\<close> is the context of the decoder and \<open>locals\<close> the variables \<open>tv_sec\<close> and \<open>tv_usec\<close> before they are
  initialised.
\<close>

definition haggle_dataobject_new_from_raw :: "libxml \<Rightarrow> base64_decode_context \<Rightarrow> int \<times> int \<Rightarrow> string option \<Rightarrow> 'z dheap_scheme
    \<Rightarrow> (ptr \<times> 'z dheap_scheme) option" where
  "haggle_dataobject_new_from_raw X stack locals raw h =
     (let (p, h) = malloc h in
      if p = NULL then Some (NULL, h)
      else
        do {
          (_, h) \<leftarrow> haggle_dataobject_set_flags p DATAOBJECT_FLAG_PERSISTENT (set_dobj p zero_dobj h);
          let (al, h) = haggle_attributelist_new h in
          do {
            d \<leftarrow> h_dobjs h p;
            let h = set_dobj p (d\<lparr>d_al := al\<rparr>) h in
            if al = NULL then do { h \<leftarrow> haggle_dataobject_free p h; Some (NULL, h) }
            else
              do {
                (m, h) \<leftarrow> (case raw of
                             Some s \<Rightarrow> metadata_xml_new_from_xml X s h
                           | None \<Rightarrow> metadata_new (Some HAGGLE_TAG) None NULL h);
                d \<leftarrow> h_dobjs h p;
                let h = set_dobj p (d\<lparr>d_m := m\<rparr>) h in
                if m = NULL then do { h \<leftarrow> haggle_dataobject_free p h; Some (NULL, h) }
                else if raw = None then Some (p, h)
                else
                  do {
                    ok \<leftarrow> metadata_name_is m HAGGLE_TAG h;
                    if ok = 0 then do { h \<leftarrow> haggle_dataobject_free p h; Some (NULL, h) }
                    else
                      do {
                        persistent \<leftarrow> metadata_get_parameter m (Some ''persistent'') h;
                        h \<leftarrow> read_persistent p persistent h;
                        createtime \<leftarrow> metadata_get_parameter m (Some ''create_time'') h;
                        h \<leftarrow> read_createtime locals p createtime h;
                        (md, h) \<leftarrow> metadata_get m None h;
                        h \<leftarrow> read_object_loop stack p m md h;
                        Some (p, h)
                      }
                  }
              }
          }
        })"

lemma haggle_dataobject_new_raw: "haggle_dataobject_new_from_raw X stack locals None h = haggle_dataobject_new h"
  unfolding haggle_dataobject_new_from_raw_def haggle_dataobject_new_def Let_def option.case simp_thms if_True
  by (rule TrueI)

section \<open>Writing a data object\<close>

text \<open>
  \<open>haggle_dataobject_get_raw\<close> returns the text, \<open>None\<close> for \<open>NULL\<close>.  When no document can be made the pointer to the old text stays, although
  that text was released.
\<close>

definition haggle_dataobject_get_raw :: "libxml \<Rightarrow> ptr \<Rightarrow> 'z dheap_scheme \<Rightarrow> (string option \<times> 'z dheap_scheme) option" where
  "haggle_dataobject_get_raw X p h =
     (if p = NULL then Some (None, h)
      else
        do {
          (m, h) \<leftarrow> haggle_dataobject_to_metadata p h;
          if m = NULL then Some (None, h)
          else
            do {
              (_, buf, len, h) \<leftarrow> metadata_xml_get_raw_alloc X m True True h;
              d \<leftarrow> h_dobjs h p;
              let d = d\<lparr>d_raw := (case buf of None \<Rightarrow> d_raw d | Some s \<Rightarrow> Some s), d_raw_len := (case len of None \<Rightarrow> d_raw_len d | Some n \<Rightarrow> n)\<rparr> in
              Some (if d_raw_len d = 0 then None else d_raw d, set_dobj p d h)
            }
        })"

definition haggle_dataobject_get_raw_alloc :: "libxml \<Rightarrow> ptr \<Rightarrow> bool \<Rightarrow> bool \<Rightarrow> 'z dheap_scheme
    \<Rightarrow> (int \<times> string option \<times> u64 option \<times> 'z dheap_scheme) option" where
  "haggle_dataobject_get_raw_alloc X p buf len h =
     (if p = NULL then Some (HAGGLE_PARAM_ERROR, None, None, h)
      else
        do {
          (m, h) \<leftarrow> haggle_dataobject_to_metadata p h;
          if m = NULL then Some (HAGGLE_ALLOC_ERROR, None, None, h)
          else
            do {
              (ret, b, n, h) \<leftarrow> metadata_xml_get_raw_alloc X m buf len h;
              Some (if ret < 0 then HAGGLE_ALLOC_ERROR else HAGGLE_NO_ERROR, b, n, h)
            }
        })"

definition haggle_dataobject_get_raw_length :: "ptr \<Rightarrow> 'z dheap_scheme \<Rightarrow> u64 option" where
  "haggle_dataobject_get_raw_length p h = (if p = NULL then Some 0 else map_option d_raw_len (h_dobjs h p))"

section \<open>A data object from a buffer\<close>

text \<open>The name of file number \<open>i\<close>, cut off at the size of the buffer.\<close>

definition buffer_path :: "string \<Rightarrow> nat \<Rightarrow> string" where
  "buffer_path dir i = take 255 (dir @ ''/'' @ ''mem-dObj-'' @ digits i @ ''.do'')"

text \<open>The search for a name that does not exist; it has no value when every name exists.\<close>

partial_function (option) free_path_loop :: "files \<Rightarrow> string \<Rightarrow> nat \<Rightarrow> string option" where
  "free_path_loop fs dir i = (if fs (buffer_path dir i) = None then Some (buffer_path dir i) else free_path_loop fs dir (Suc i))"

text \<open>
  \<open>haggle_dataobject_new_from_buffer\<close>: \<open>can_create\<close> says whether a file can be opened for writing (the result is not checked), \<open>write\<close>
  gives for a path and the data what the file contains afterwards and whether all was written.  An empty buffer counts
  as not written.
\<close>

definition haggle_dataobject_new_from_buffer ::
    "string option \<Rightarrow> (string \<Rightarrow> bool) \<Rightarrow> (string \<Rightarrow> string \<Rightarrow> string \<times> bool) \<Rightarrow> files \<Rightarrow> string \<Rightarrow> 'z dheap_scheme
     \<Rightarrow> (ptr \<times> files \<times> 'z dheap_scheme) option" where
  "haggle_dataobject_new_from_buffer haggle_directory can_create write fs data h =
     (case haggle_directory of
        None \<Rightarrow> Some (NULL, fs, h)
      | Some dir \<Rightarrow>
          do {
            path \<leftarrow> free_path_loop fs dir 0;
            if \<not> can_create path then None
            else
              let (contents, ok) = write path data;
                  fs = fs(path \<mapsto> \<lparr>f_data = contents, f_bad = False, f_seek = True\<rparr>) in
              if \<not> ok \<or> data = [] then Some (NULL, fs, h)
              else do { (p, h) \<leftarrow> haggle_dataobject_new_from_file fs (Some path) h; Some (p, fs, h) }
          })"

section \<open>What the text of a data object says\<close>

text \<open>The values are folded over the children; \<open>None\<close> stands for what the parser does not survive.\<close>

primrec fold_opt :: "('a \<Rightarrow> 's \<Rightarrow> 's option) \<Rightarrow> 'a list \<Rightarrow> 's \<Rightarrow> 's option" where
  "fold_opt f [] s = Some s"
| "fold_opt f (x # xs) s = do { s \<leftarrow> f x s; fold_opt f xs s }"

lemma fold_opt_append: "fold_opt f (xs @ ys) s = do { s \<leftarrow> fold_opt f xs s; fold_opt f ys s }"
  by (induction xs arbitrary: s) (auto split: option.splits intro!: Option.bind_cong)

lemma fold_opt_step:
  assumes "fold_opt f xs s = Some r" "i < length xs"
  obtains u w where "fold_opt f (take i xs) s = Some u" "f (xs ! i) u = Some w" "fold_opt f (take (Suc i) xs) s = Some w"
proof -
  have e: "xs = take i xs @ xs ! i # drop (Suc i) xs" using assms(2) by (rule id_take_nth_drop)
  have "fold_opt f (take i xs @ xs ! i # drop (Suc i) xs) s = Some r" using assms(1) e by simp
  then obtain u w where u: "fold_opt f (take i xs) s = Some u" "f (xs ! i) u = Some w"
    unfolding fold_opt_append by (auto simp: bind_eq_Some_conv)
  moreover have "take (Suc i) xs = take i xs @ [xs ! i]" using assms(2) by (simp add: take_Suc_conv_app_nth)
  ultimately show ?thesis using that by (simp add: fold_opt_append)
qed

definition hash_value :: "base64_decode_context \<Rightarrow> string \<Rightarrow> dataobject \<Rightarrow> dataobject option" where
  "hash_value stack s d =
     do {
       (_, out, ok) \<leftarrow> base64_decode (base64_decode_ctx_init stack) s HASH_LENGTH;
       let d = d\<lparr>d_hash := map byte_of_char out @ drop (length out) (d_hash d)\<rparr> in
       Some (if ok then d\<lparr>d_hash_str := Some (concat (map HEX2 (take HASH_LENGTH (d_hash d))))\<rparr> else d)
     }"

definition field_value :: "base64_decode_context \<Rightarrow> meta \<Rightarrow> dataobject \<Rightarrow> dataobject option" where
  "field_value stack m d =
     (if me_name m = ''FilePath'' then map_option (\<lambda>s. d\<lparr>d_filepath := Some s\<rparr>) (me_content m)
      else if me_name m = ''FileName'' then map_option (\<lambda>s. d\<lparr>d_filename := Some s\<rparr>) (me_content m)
      else if me_name m = ''FileHash'' then do { s \<leftarrow> me_content m; hash_value stack s d }
      else Some d)"

definition data_value :: "base64_decode_context \<Rightarrow> meta \<Rightarrow> dataobject \<Rightarrow> dataobject option" where
  "data_value stack m d =
     do {
       d \<leftarrow> (case map_of (me_params m) ''data_len'' of
               None \<Rightarrow> Some d
             | Some s \<Rightarrow> map_option (\<lambda>n. d\<lparr>d_datalen := word_of_int n\<rparr>) (atoi s));
       fold_opt (field_value stack) (me_subs m) d
     }"

text \<open>An attribute without a weight has weight 1; one without a name or a value is left out.\<close>

definition attr_values :: "meta \<Rightarrow> attribute list" where
  "attr_values m =
     (case (map_of (me_params m) ''name'', me_content m) of
        (Some nm, Some vl) \<Rightarrow>
          [\<lparr>attr_name = Some nm, attr_value = Some vl,
            attr_weight = (case map_of (me_params m) ''weight'' of None \<Rightarrow> 1 | Some w \<Rightarrow> strtoul w)\<rparr>]
      | _ \<Rightarrow> [])"

definition child_value :: "base64_decode_context \<Rightarrow> meta \<Rightarrow> dataobject \<times> attribute list \<Rightarrow> (dataobject \<times> attribute list) option" where
  "child_value stack m s =
     (if me_name m = ''Data'' then map_option (\<lambda>d. (d, snd s)) (data_value stack m (fst s))
      else if me_name m = ''Attr'' then Some (fst s, snd s @ attr_values m)
      else Some s)"

text \<open>The members of the object that the parameters of the root determine, and the whole object.\<close>

definition root_value :: "int \<times> int \<Rightarrow> meta \<Rightarrow> dataobject option" where
  "root_value locals v =
     map_option (\<lambda>ct. zero_dobj\<lparr>d_flags := (if map_of (me_params v) ''persistent'' \<in> {Some ''no'', Some ''false''} then 0 else DATAOBJECT_FLAG_PERSISTENT),
         d_sec := fst ct, d_usec := snd ct\<rparr>)
       (case map_of (me_params v) ''create_time'' of None \<Rightarrow> Some (0, 0) | Some s \<Rightarrow> sscanf_time locals s)"

definition object_value :: "base64_decode_context \<Rightarrow> int \<times> int \<Rightarrow> meta \<Rightarrow> (dataobject \<times> attribute list) option" where
  "object_value stack locals v = do { d \<leftarrow> root_value locals v; fold_opt (child_value stack) (me_subs v) (d, []) }"

section \<open>The parser\<close>

text \<open>The object in memory: its members but for the two pointers.\<close>

definition placed :: "ptr \<Rightarrow> ptr \<Rightarrow> dataobject \<Rightarrow> dataobject" where
  "placed al m d = d\<lparr>d_al := al, d_m := m\<rparr>"

lemma hash_value_placed: "hash_value stack s (placed al m d) = map_option (placed al m) (hash_value stack s d)"
  unfolding hash_value_def placed_def by (cases "base64_decode (base64_decode_ctx_init stack) s HASH_LENGTH") (auto simp: Let_def)

lemma field_value_placed: "field_value stack c (placed al m d) = map_option (placed al m) (field_value stack c d)"
  unfolding field_value_def by (cases "me_content c") (simp_all add: hash_value_placed, simp_all add: placed_def)

lemma fold_field_placed:
  "fold_opt (field_value stack) cs (placed al m d) = map_option (placed al m) (fold_opt (field_value stack) cs d)"
proof (induction cs arbitrary: d)
  case (Cons c cs)
  then show ?case by (cases "field_value stack c d") (simp_all add: field_value_placed)
qed simp

lemma data_value_placed: "data_value stack c (placed al m d) = map_option (placed al m) (data_value stack c d)"
proof -
  have "(placed al m d)\<lparr>d_datalen := n\<rparr> = placed al m (d\<lparr>d_datalen := n\<rparr>)" for n by (simp add: placed_def)
  then show ?thesis unfolding data_value_def
    by (cases "map_of (me_params c) ''data_len''"; cases "atoi (the (map_of (me_params c) ''data_len''))") (simp_all add: fold_field_placed)
qed

text \<open>The memory \<open>h'\<close> is \<open>h\<close> with other members of the object \<open>p\<close> and another position of the iterators of the nodes in \<open>A\<close>.\<close>

definition rewritten :: "ptr \<Rightarrow> dataobject \<Rightarrow> ptr set \<Rightarrow> 'z dheap_scheme \<Rightarrow> 'z dheap_scheme \<Rightarrow> bool" where
  "rewritten p d A h h' \<longleftrightarrow> (\<exists>h1. walked A h h1 \<and> h' = set_dobj p d h1)"

lemma same_tree_set_dobj [simp]: "same_tree (set_dobj p d h) (set_dobj p d h') = same_tree h h'" "same_tree h (set_dobj p d h)"
  by (simp_all add: same_tree_def set_dobj_def)

lemma set_md_set_dobj: "set_md m md (set_dobj p d h) = set_dobj p d (set_md m md h)"
  by (simp add: set_md_def set_dobj_def)

lemma tree_in_set_dobj: "tree_in h t v \<Longrightarrow> tree_in (set_dobj p d h) t v"
  by (rule tree_in_agree) (auto simp: agree_def tree_in_def wf_heap_def set_dobj_def)

lemma rewritten_tree_in: "rewritten p d A h h' \<Longrightarrow> tree_in h t v \<Longrightarrow> tree_in h' t v"
  unfolding rewritten_def using walked_tree_in tree_in_set_dobj by blast

lemma rewritten_dobj: "rewritten p d A h h' \<Longrightarrow> h_dobjs h' p = Some d"
  by (auto simp: rewritten_def)

lemma rewritten_set: "rewritten p d A h h' \<Longrightarrow> rewritten p d' A h (set_dobj p d' h')"
  by (auto simp: rewritten_def)

lemma rewritten_move:
  assumes "rewritten p d A h h'" "same_tree h' (set_md m md h')" "m \<in> A"
  shows "rewritten p d A h (set_md m md h')"
proof -
  obtain h1 where h1: "walked A h h1" "h' = set_dobj p d h1" using assms(1) by (auto simp: rewritten_def)
  then have "walked {m} h1 (set_md m md h1)" using assms(2) by (intro set_md_walked) (auto simp: set_md_set_dobj)
  moreover have "A \<union> {m} = A" using assms(3) by blast
  ultimately have "walked A h (set_md m md h1)" using walked_trans [OF h1(1), of "{m}"] by simp
  then show ?thesis unfolding rewritten_def h1(2) set_md_set_dobj by blast
qed

lemma rewritten_safe:
  assumes "rewritten p d A h h'" "m \<notin> A"
  shows "iterator_safe m cs h h'"
proof -
  obtain h1 where h1: "walked A h h1" "h' = set_dobj p d h1" using assms(1) by (auto simp: rewritten_def)
  have "map_option md_name (h_mds h1 c) = map_option md_name (h_mds h c)" for c
    using h1(1) unfolding walked_def same_tree_def by (cases "h_mds h1 c"; cases "h_mds h c") (auto dest: spec [of _ c])
  then show ?thesis
    using walked_mds [OF h1(1) assms(2)] walked_links [OF h1(1)] by (simp add: iterator_safe_def h1(2) set_dobj_def)
qed

text \<open>One field of the data, and all of them.\<close>

lemma read_hash_value:
  assumes "h_dobjs h p = Some d" "p \<noteq> NULL" "h_mem h = []" "hash_value stack s d = Some d'"
  shows "read_hash stack p s h = Some (set_dobj p d' h)"
proof -
  obtain ctx out ok where "base64_decode (base64_decode_ctx_init stack) s HASH_LENGTH = Some (ctx, out, ok)"
    using assms(4) by (auto simp: hash_value_def bind_eq_Some_conv)
  then show ?thesis
    using assms by (cases ok) (auto simp: read_hash_def hash_value_def dataobject_set_hash_str_def malloc_ok_def Let_def)
qed

lemma read_field_value:
  assumes "tree_in h t m" "h_dobjs h p = Some d" "p \<noteq> NULL" "field_value stack m d = Some d'"
  shows "read_field stack p (mt_ptr t) h = Some (set_dobj p d' h)"
proof -
  have h: "h_mem h = []" using assms(1) by (simp add: tree_in_def)
  note r = tree_reads [OF assms(1)]
  have same: "set_dobj p d h = h" using assms(2) by (simp add: set_dobj_def fun_upd_idem)
  consider c where "me_name m = ''FilePath''" "me_content m = Some c" "d' = d\<lparr>d_filepath := Some c\<rparr>"
    | c where "me_name m = ''FileName''" "me_content m = Some c" "d' = d\<lparr>d_filename := Some c\<rparr>"
    | c where "me_name m = ''FileHash''" "me_content m = Some c" "hash_value stack c d = Some d'"
    | "me_name m \<notin> {''FilePath'', ''FileName'', ''FileHash''}" "d' = d"
    using assms(4) by (auto simp: field_value_def bind_eq_Some_conv split: if_splits)
  then show ?thesis
    using assms(2,3) h r same read_hash_value [OF assms(2,3) h]
    by cases (simp_all add: read_field_def haggle_dataobject_set_filepath_def haggle_dataobject_set_filename_def malloc_ok_def)
qed

lemma read_data_loop_fields:
  assumes "tree_in h (MT q al xs ts) (Meta nm c ps ms)" "h_dobjs h p = Some d" "p \<noteq> NULL"
    "fold_opt (field_value stack) ms d = Some d'"
  shows "\<exists>h'. do { (mc, h) \<leftarrow> metadata_get q None h; read_data_loop stack p q mc h } = Some h' \<and> rewritten p d' {q} h h'"
proof -
  have len: "length ts = length ms" using assms(1) by (auto simp: tree_in_MT dest: list_all2_lengthD)
  have 0: "rewritten p d {q} h h"
    using assms(2) walked_refl [of "{q}" h] by (auto simp: rewritten_def set_dobj_def fun_upd_idem intro!: exI [of _ h])
  let ?I = "\<lambda>i h'. \<exists>e. fold_opt (field_value stack) (take i ms) d = Some e \<and> rewritten p e {q} h h'"
  have "\<exists>h'. do { (mc, h) \<leftarrow> metadata_get q None h; read_data_loop stack p q mc h } = Some h' \<and> ?I (length ts) h'"
  proof (rule iterate_children [where body = "read_field stack p" and I = ?I and m = q and ts = ts])
    show "read_data_loop stack p q NULL h = Some h" for h :: "'a dheap_scheme" by (subst read_data_loop.simps) simp
    show "read_data_loop stack p q c h = do { h \<leftarrow> read_field stack p c h; (c, h) \<leftarrow> metadata_get_next q h; read_data_loop stack p q c h }"
      if "c \<noteq> NULL" for c and h :: "'a dheap_scheme" using that by (subst read_data_loop.simps) simp
    show "tree_in h (MT q al xs ts) (Meta nm c ps ms)" by (rule assms(1))
    show "?I 0 h" using 0 by simp
    show "?I i (set_md q md h')" if "?I i h'" "same_tree h' (set_md q md h')" for i h' md
      using that rewritten_move [of p _ "{q}" h h' q md] by blast
    fix i h' assume i: "i < length ts" and I: "?I i h'"
    then obtain e where e: "fold_opt (field_value stack) (take i ms) d = Some e" "rewritten p e {q} h h'" by blast
    obtain u where u: "field_value stack (ms ! i) e = Some u" "fold_opt (field_value stack) (take (Suc i) ms) d = Some u"
      using fold_opt_step [OF assms(4), of i] i len e(1) by auto
    have T: "tree_in h' (MT q al xs ts) (Meta nm c ps ms)" by (rule rewritten_tree_in [OF e(2) assms(1)])
    have "read_field stack p (mt_ptr (ts ! i)) h' = Some (set_dobj p u h')"
      by (rule read_field_value [OF tree_in_child [OF T i] rewritten_dobj [OF e(2)] assms(3) u(1)])
    moreover have "iterator_safe q (map mt_ptr ts) h' (set_dobj p u h')" by (simp add: iterator_safe_def set_dobj_def)
    ultimately show "\<exists>h''. read_field stack p (mt_ptr (ts ! i)) h' = Some h'' \<and> ?I (Suc i) h'' \<and> iterator_safe q (map mt_ptr ts) h' h''"
      using u(2) rewritten_set [OF e(2)] by blast
  qed
  then show ?thesis using assms(4) len by auto
qed

lemma read_data_value:
  assumes "tree_in h t m" "h_dobjs h p = Some d" "p \<noteq> NULL" "data_value stack m d = Some d'"
  shows "\<exists>h'. read_data stack p (mt_ptr t) h = Some h' \<and> rewritten p d' {mt_ptr t} h h'"
proof -
  obtain q al xs ts where t: "t = MT q al xs ts" by (cases t)
  obtain nm c ps ms where m: "m = Meta nm c ps ms" by (cases m)
  obtain e where e: "fold_opt (field_value stack) ms e = Some d'"
    "(case map_of ps ''data_len'' of None \<Rightarrow> Some h
      | Some s \<Rightarrow> do { n \<leftarrow> atoi s; d \<leftarrow> h_dobjs h p; Some (set_dobj p (d\<lparr>d_datalen := word_of_int n\<rparr>) h) }) = Some (set_dobj p e h)"
    using assms(2,4) by (auto simp: data_value_def m bind_eq_Some_conv set_dobj_def fun_upd_idem split: option.splits)
  have "\<exists>h'. do { (mc, h) \<leftarrow> metadata_get q None (set_dobj p e h); read_data_loop stack p q mc h } = Some h' \<and> rewritten p d' {q} (set_dobj p e h) h'"
    by (rule read_data_loop_fields [OF _ _ assms(3) e(1)]) (use tree_in_set_dobj [OF assms(1), of p e] in \<open>simp_all add: t m\<close>)
  then obtain h' where h': "do { (mc, h) \<leftarrow> metadata_get q None (set_dobj p e h); read_data_loop stack p q mc h } = Some h'"
    "rewritten p d' {q} (set_dobj p e h) h'" by blast
  have "read_data stack p q h = Some h'" using tree_reads(3) [OF assms(1), of "''data_len''"] e(2) h'(1) by (simp add: read_data_def t m)
  moreover have "rewritten p d' {q} h h'"
  proof -
    obtain M where "h' = set_dobj p d' (set_dobj p e h\<lparr>h_mds := M\<rparr>)" "\<forall>r. r \<notin> {q} \<longrightarrow> M r = h_mds h r" "same_tree (set_dobj p e h) (set_dobj p e h\<lparr>h_mds := M\<rparr>)"
      using h'(2) by (auto simp: rewritten_def walked_def set_dobj_def)
    then show ?thesis
      unfolding rewritten_def walked_def by (intro exI [of _ "h\<lparr>h_mds := M\<rparr>"]) (auto simp: set_dobj_def same_tree_def)
  qed
  ultimately show ?thesis by (auto simp: t)
qed

text \<open>The object in memory with its attributes and its metadata, each in objects of their own.\<close>

definition object_in :: "'z dheap_scheme \<Rightarrow> ptr \<Rightarrow> ptr \<Rightarrow> ptr list \<Rightarrow> mtree \<Rightarrow> meta \<Rightarrow> dataobject \<times> attribute list \<Rightarrow> bool" where
  "object_in h p al xs t v s \<longleftrightarrow> p \<noteq> NULL \<and> h_dobjs h p = Some (placed al (mt_ptr t) (fst s)) \<and> alist h al xs (snd s)
     \<and> tree_in h t v \<and> set (al # xs) \<inter> set (owned t) = {}"

text \<open>The objects below an address are as before, and the others that are in use are not among them.\<close>

definition untouched :: "nat \<Rightarrow> 'z dheap_scheme \<Rightarrow> 'z dheap_scheme \<Rightarrow> bool" where
  "untouched b h h' \<longleftrightarrow> b \<le> h_brk h' \<and> (\<forall>q < b. h_links h' q = h_links h q \<and> h_attrs h' q = h_attrs h q
     \<and> h_alists h' q = h_alists h q \<and> h_mds h' q = h_mds h q \<and> h_dobjs h' q = h_dobjs h q)"

lemma untouched_trans: "untouched b h h1 \<Longrightarrow> untouched b h1 h2 \<Longrightarrow> untouched b h h2"
  by (auto simp: untouched_def)

lemma untouched_refl: "b \<le> h_brk h \<Longrightarrow> untouched b h h"
  by (simp add: untouched_def)

lemma rewritten_object_in:
  assumes "rewritten p (placed al (mt_ptr t) d) A h h'" "object_in h p al xs t v s"
  shows "object_in h' p al xs t v (d, snd s)"
proof -
  have "alist h' al xs (snd s)"
    by (rule alist_cong [of h]) (use assms in \<open>auto simp: rewritten_def walked_def object_in_def set_dobj_def\<close>)
  then show ?thesis
    using assms rewritten_tree_in [OF assms(1)] rewritten_dobj [OF assms(1)] by (auto simp: object_in_def)
qed

lemma rewritten_untouched:
  assumes "rewritten p d A h h'" "b \<le> p" "\<forall>q \<in> A. b \<le> q" "b \<le> h_brk h"
  shows "untouched b h h'"
proof -
  obtain h1 where h1: "walked A h h1" "h' = set_dobj p d h1" using assms(1) by (auto simp: rewritten_def)
  have "h_mds h1 q = h_mds h q" if "q < b" for q using walked_mds [OF h1(1)] assms(3) that by (meson not_le)
  moreover obtain M where "h1 = h\<lparr>h_mds := M\<rparr>" using h1(1) by (auto simp: walked_def)
  ultimately show ?thesis using assms(2,4) h1(2) by (auto simp: untouched_def set_dobj_def)
qed

lemma more_dobjs: "aheap.more h' = aheap.more h \<Longrightarrow> h_mds h' = h_mds h \<and> h_dobjs h' = h_dobjs (h :: 'z dheap_scheme)"
  by (cases h; cases h') simp

text \<open>
  Nothing outside a set and no data object but one was put into a list or created; objects outside the set may have been taken
  out of their lists.
\<close>

definition kept :: "ptr \<Rightarrow> ptr set \<Rightarrow> 'z dheap_scheme \<Rightarrow> 'z dheap_scheme \<Rightarrow> bool" where
  "kept p A h h' \<longleftrightarrow> (\<forall>q. q \<notin> A \<longrightarrow> h_links h' q = h_links h q \<or> h_links h' q = None) \<and> (\<forall>q. q \<noteq> p \<longrightarrow> h_dobjs h' q = h_dobjs h q)"

lemma outside_kept_trans: "kept p A h h1 \<Longrightarrow> kept p B h1 h2 \<Longrightarrow> A \<subseteq> C \<Longrightarrow> B \<subseteq> C \<Longrightarrow> kept p C h h2"
  unfolding kept_def by (metis subsetD)

lemma rewritten_kept:
  assumes "rewritten p d A h h'"
  shows "kept p A h h'"
proof -
  obtain h1 where h1: "walked A h h1" "h' = set_dobj p d h1" using assms by (auto simp: rewritten_def)
  then obtain M where "h1 = h\<lparr>h_mds := M\<rparr>" by (auto simp: walked_def)
  then show ?thesis using h1(2) walked_mds [OF h1(1)] by (auto simp: kept_def set_dobj_def)
qed

text \<open>A new attribute at the end of the list of the object.\<close>

lemma object_new_attribute:
  assumes "object_in h p al xs t v (d, vs)"
  shows "\<exists>a h1 n h'. haggle_attribute_new_weighted (Some nm) (Some vl) w h = (a, h1) \<and> a \<noteq> NULL \<and> h_brk h \<le> a
    \<and> h_dobjs h1 p = Some (placed al (mt_ptr t) d) \<and> haggle_attributelist_add_attribute al a h1 = Some (n, h')
    \<and> object_in h' p al (xs @ [a]) t v (d, vs @ [\<lparr>attr_name = Some nm, attr_value = Some vl, attr_weight = w\<rparr>])
    \<and> h_mds h' = h_mds h \<and> (\<forall>q \<in> set (owned t). h_links h' q = h_links h q)
    \<and> (b \<le> h_brk h \<longrightarrow> (\<forall>q \<in> set (al # xs). b \<le> q) \<longrightarrow> untouched b h h') \<and> kept p (set (al # xs @ [a])) h h'"
proof -
  have O: "wf_heap h" "h_mem h = []" "alist h al xs vs" "tree_in h t v" "h_dobjs h p = Some (placed al (mt_ptr t) d)"
    "set (al # xs) \<inter> set (owned t) = {}" "p \<noteq> NULL"
    using assms by (auto simp: object_in_def tree_in_def)
  obtain a h1 n h2 where N: "haggle_attribute_new_weighted (Some nm) (Some vl) w h = (a, h1)" "a = h_brk h" "a \<noteq> NULL"
    "haggle_attributelist_add_attribute al a h1 = Some (n, h2)" "wf_heap h2" "h_mem h2 = []" "h_brk h \<le> h_brk h2"
    "alist h2 al (xs @ [a]) (vs @ [\<lparr>attr_name = Some nm, attr_value = Some vl, attr_weight = w\<rparr>])"
    "\<forall>q. q \<notin> set (a # al # xs) \<longrightarrow> h_links h2 q = h_links h q" "\<forall>q. q \<noteq> a \<longrightarrow> h_attrs h2 q = h_attrs h q"
    "\<forall>q. q \<noteq> al \<longrightarrow> h_alists h2 q = h_alists h q" "aheap.more h2 = aheap.more h"
    using new_attr_frame [OF O(1-3), of nm vl w] by blast
  have M: "h_mds h2 = h_mds h" "h_dobjs h2 = h_dobjs h" using more_dobjs [OF N(12)] by simp_all
  have "h_dobjs h1 p = Some (placed al (mt_ptr t) d)"
    using N(1) O(5) O(2) by (auto simp: haggle_attribute_new_weighted_def malloc_def malloc_ok_def Let_def split: if_splits)
  moreover have own: "q \<noteq> a" "q \<notin> set (al # xs)" if "q \<in> set (owned t)" for q
    using that O(4,6) N(2) by (auto simp: tree_in_def)
  then have "agree (set (owned t)) (set (owned t)) h h2" using N(9-11) M by (auto simp: agree_def)
  then have "tree_in h2 t v" by (rule tree_in_agree [OF O(4) _ N(5-7)])
  then have "object_in h2 p al (xs @ [a]) t v (d, vs @ [\<lparr>attr_name = Some nm, attr_value = Some vl, attr_weight = w\<rparr>])"
    using N(8) O(5-7) M own by (auto simp: object_in_def)
  moreover have "\<forall>q \<in> set (owned t). h_links h2 q = h_links h q" using N(9) own by auto
  moreover have "untouched b h h2" if "b \<le> h_brk h" "\<forall>q \<in> set (al # xs). b \<le> q"
  proof -
    have "q \<noteq> a \<and> q \<notin> set (al # xs)" if "q < b" for q using that \<open>b \<le> h_brk h\<close> \<open>\<forall>q \<in> set (al # xs). b \<le> q\<close> N(2) by auto
    then show ?thesis using N(7,9-11) M \<open>b \<le> h_brk h\<close> by (auto simp: untouched_def)
  qed
  moreover have "kept p (set (al # xs @ [a])) h h2" using N(9-11) M by (auto simp: kept_def)
  ultimately show ?thesis using M(1) N(1-4) by blast
qed

lemma read_attr_values:
  assumes "object_in h p al xs t v (d, vs)" "tree_in h tc m"
  shows "\<exists>h' xs'. read_attr p (mt_ptr tc) h = Some h' \<and> object_in h' p al xs' t v (d, vs @ attr_values m)
    \<and> (\<forall>q \<in> set xs'. q \<in> set xs \<or> h_brk h \<le> q) \<and> h_mds h' = h_mds h \<and> (\<forall>q \<in> set (owned t). h_links h' q = h_links h q)
    \<and> (b \<le> h_brk h \<longrightarrow> (\<forall>q \<in> set (al # xs). b \<le> q) \<longrightarrow> untouched b h h') \<and> set xs \<subseteq> set xs' \<and> kept p (set (al # xs')) h h'"
proof (cases "attr_values m = []")
  case True
  then have "map_of (me_params m) ''name'' = None \<or> me_content m = None" by (auto simp: attr_values_def split: option.splits)
  then have "read_attr p (mt_ptr tc) h = Some h"
    using tree_reads(2,3) [OF assms(2)]
    by (auto simp: read_attr_def haggle_attribute_new_def haggle_attribute_new_weighted_def split: option.splits)
  then show ?thesis using True assms(1) untouched_refl [of b h] by (intro exI [of _ h] exI [of _ xs]) (simp add: kept_def)
next
  case False
  then obtain nm vl where nv: "map_of (me_params m) ''name'' = Some nm" "me_content m = Some vl"
    by (auto simp: attr_values_def split: option.splits)
  define w where "w = (case map_of (me_params m) ''weight'' of None \<Rightarrow> 1 | Some w \<Rightarrow> strtoul w)"
  have A: "attr_values m = [\<lparr>attr_name = Some nm, attr_value = Some vl, attr_weight = w\<rparr>]" using nv by (simp add: attr_values_def w_def)
  obtain a h1 n h2 where N: "haggle_attribute_new_weighted (Some nm) (Some vl) w h = (a, h1)" "a \<noteq> NULL" "h_brk h \<le> a"
    "h_dobjs h1 p = Some (placed al (mt_ptr t) d)" "haggle_attributelist_add_attribute al a h1 = Some (n, h2)"
    "object_in h2 p al (xs @ [a]) t v (d, vs @ attr_values m)" "h_mds h2 = h_mds h" "\<forall>q \<in> set (owned t). h_links h2 q = h_links h q"
    "b \<le> h_brk h \<longrightarrow> (\<forall>q \<in> set (al # xs). b \<le> q) \<longrightarrow> untouched b h h2" "kept p (set (al # xs @ [a])) h h2"
    using object_new_attribute [OF assms(1), of nm vl w b] unfolding A by blast
  have "read_attr p (mt_ptr tc) h = Some h2"
    using tree_reads(2,3) [OF assms(2)] nv N(1,2,4,5)
    by (cases "map_of (me_params m) ''weight''") (simp_all add: read_attr_def haggle_attribute_new_def w_def placed_def)
  then show ?thesis using N(3,6-10) by (intro exI [of _ h2] exI [of _ "xs @ [a]"]) auto
qed

definition object_building :: "nat \<Rightarrow> 'z dheap_scheme \<Rightarrow> ptr \<Rightarrow> ptr \<Rightarrow> mtree \<Rightarrow> meta \<Rightarrow> dataobject \<times> attribute list \<Rightarrow> 'z dheap_scheme \<Rightarrow> bool" where
  "object_building b h0 p al t v s h \<longleftrightarrow> (\<exists>xs. object_in h p al xs t v s \<and> untouched b h0 h \<and> (\<forall>q \<in> set (p # al # xs @ owned t). b \<le> q)
       \<and> kept p (set (al # xs @ owned t)) h0 h)
     \<and> h_links h (mt_ptr t) = Some \<lparr>l_prev = mt_ptr t, l_next = mt_ptr t\<rparr>"

lemma untouched_brk: "untouched b h h' \<Longrightarrow> b \<le> h_brk h'"
  by (simp add: untouched_def)

lemma object_building_rewritten:
  assumes "object_building b h0 p al t v (d, vs) h" "rewritten p (placed al (mt_ptr t) d') {q} h h'" "q \<in> set (owned t)"
  shows "object_building b h0 p al t v (d', vs) h'"
proof -
  obtain xs where xs: "object_in h p al xs t v (d, vs)" "untouched b h0 h" "\<forall>q \<in> set (p # al # xs @ owned t). b \<le> q"
    "kept p (set (al # xs @ owned t)) h0 h"
    using assms(1) by (auto simp: object_building_def)
  have "untouched b h h'"
    using untouched_brk [OF xs(2)] xs(3) assms(3) by (intro rewritten_untouched [OF assms(2)]) auto
  moreover have "kept p (set (al # xs @ owned t)) h0 h'"
    by (rule outside_kept_trans [OF xs(4) rewritten_kept [OF assms(2)]]) (use assms(3) in auto)
  moreover have "h_links h' = h_links h" using assms(2) by (auto simp: rewritten_def walked_links)
  ultimately show ?thesis
    using rewritten_object_in [OF assms(2) xs(1)] untouched_trans [OF xs(2)] xs(3) assms(1) unfolding object_building_def snd_conv by metis
qed

lemma read_child_value:
  fixes ts :: "mtree list"
  assumes "object_building b h0 p al (MT m ma ys ts) (Meta nm c ps ms) s h" "i < length ts" "child_value stack (ms ! i) s = Some s'"
  shows "\<exists>h'. read_child stack p (mt_ptr (ts ! i)) h = Some h' \<and> object_building b h0 p al (MT m ma ys ts) (Meta nm c ps ms) s' h'
    \<and> iterator_safe m (map mt_ptr ts) h h'"
proof -
  let ?t = "MT m ma ys ts" and ?v = "Meta nm c ps ms" and ?tc = "ts ! i" and ?mc = "ms ! i"
  obtain d vs where s: "s = (d, vs)" by (cases s)
  obtain xs where xs: "object_in h p al xs ?t ?v (d, vs)" "untouched b h0 h" "\<forall>q \<in> set (p # al # xs @ owned ?t). b \<le> q"
    "kept p (set (al # xs @ owned ?t)) h0 h"
    using assms(1) s by (auto simp: object_building_def)
  have T: "tree_in h ?t ?v" "h_dobjs h p = Some (placed al (mt_ptr ?t) d)" "p \<noteq> NULL" using xs(1) by (simp_all add: object_in_def)
  have tc: "tree_in h ?tc ?mc" by (rule tree_in_child [OF T(1) assms(2)])
  have own: "mt_ptr ?tc \<in> set (owned ?t)" "mt_ptr ?tc \<noteq> m" "children m \<in> set (owned ?t)" "mt_ptr ` set ts \<subseteq> set (owned ?t)"
    using mt_ptrs_owned [of ts] nth_mem [OF assms(2)] T(1) by (auto simp: tree_in_def)
  note nm = tree_reads(4) [OF tc]
  consider "me_name ?mc = ''Data''" | "me_name ?mc = ''Attr''" | "me_name ?mc \<noteq> ''Data''" "me_name ?mc \<noteq> ''Attr''" by blast
  then show ?thesis
  proof cases
    case 1
    then obtain d' where d': "data_value stack ?mc d = Some d'" "s' = (d', vs)" using assms(3) s by (auto simp: child_value_def)
    then have "data_value stack ?mc (placed al (mt_ptr ?t) d) = Some (placed al (mt_ptr ?t) d')" by (simp add: data_value_placed)
    then obtain h' where h': "read_data stack p (mt_ptr ?tc) h = Some h'" "rewritten p (placed al (mt_ptr ?t) d') {mt_ptr ?tc} h h'"
      using read_data_value [OF tc T(2,3)] by blast
    then have "object_building b h0 p al ?t ?v s' h'" using object_building_rewritten [OF _ h'(2) own(1)] assms(1) s d'(2) by simp
    moreover have "iterator_safe m (map mt_ptr ts) h h'" by (rule rewritten_safe [OF h'(2)]) (use own(2) in simp)
    ultimately show ?thesis using 1 h'(1) nm by (simp add: read_child_def)
  next
    case 2
    obtain h' xs' where h': "read_attr p (mt_ptr ?tc) h = Some h'" "object_in h' p al xs' ?t ?v (d, vs @ attr_values ?mc)"
      "\<forall>q \<in> set xs'. q \<in> set xs \<or> h_brk h \<le> q" "h_mds h' = h_mds h" "\<forall>q \<in> set (owned ?t). h_links h' q = h_links h q"
      "b \<le> h_brk h \<longrightarrow> (\<forall>q \<in> set (al # xs). b \<le> q) \<longrightarrow> untouched b h h'" "set xs \<subseteq> set xs'" "kept p (set (al # xs')) h h'"
      using read_attr_values [OF xs(1) tc, of b] by blast
    have b: "b \<le> h_brk h" "\<forall>q \<in> set (al # xs). b \<le> q" using untouched_brk [OF xs(2)] xs(3) by auto
    then have "untouched b h0 h'" using untouched_trans [OF xs(2)] h'(6) by blast
    moreover have "\<forall>q \<in> set (p # al # xs' @ owned ?t). b \<le> q" using h'(3) b xs(3) by (auto intro: le_trans)
    moreover have "kept p (set (al # xs' @ owned ?t)) h0 h'" by (rule outside_kept_trans [OF xs(4) h'(8)]) (use h'(7) in auto)
    moreover have "h_links h' m = h_links h m" using h'(5) by simp
    ultimately have "object_building b h0 p al ?t ?v s' h'"
      using h'(2) assms(1,3) 2 s unfolding object_building_def by (auto simp: child_value_def)
    moreover have "set (children m # map mt_ptr ts) \<subseteq> set (owned ?t)" using own(3,4) by simp
    then have "iterator_safe m (map mt_ptr ts) h h'" unfolding iterator_safe_def h'(4) using h'(5) by blast
    ultimately show ?thesis using 2 h'(1) nm by (simp add: read_child_def)
  next
    case 3
    then have "s' = s" using assms(3) by (simp add: child_value_def)
    then show ?thesis using 3 nm assms(1) by (simp add: read_child_def iterator_safe_def)
  qed
qed

lemma read_object_values:
  fixes h :: "'z dheap_scheme"
  assumes "object_building b h0 p al (MT m ma ys ts) (Meta nm c ps ms) s h" "fold_opt (child_value stack) ms s = Some s'"
  shows "\<exists>h'. do { (md, h) \<leftarrow> metadata_get m None h; read_object_loop stack p m md h } = Some h'
    \<and> object_building b h0 p al (MT m ma ys ts) (Meta nm c ps ms) s' h'"
proof -
  let ?t = "MT m ma ys ts" and ?v = "Meta nm c ps ms"
  have T: "tree_in h ?t ?v" using assms(1) by (auto simp: object_building_def object_in_def)
  then have len: "length ts = length ms" by (auto simp: tree_in_MT dest: list_all2_lengthD)
  let ?I = "\<lambda>i h. \<exists>e. fold_opt (child_value stack) (take i ms) s = Some e \<and> object_building b h0 p al ?t ?v e h"
  have "\<exists>h'. do { (md, h) \<leftarrow> metadata_get m None h; read_object_loop stack p m md h } = Some h' \<and> ?I (length ts) h'"
  proof (rule iterate_children [where body = "read_child stack p" and I = ?I and m = m and ts = ts])
    show "read_object_loop stack p m NULL h = Some h" for h :: "'z dheap_scheme" by (subst read_object_loop.simps) simp
    show "read_object_loop stack p m c h = do { h \<leftarrow> read_child stack p c h; (c, h) \<leftarrow> metadata_get_next m h; read_object_loop stack p m c h }"
      if "c \<noteq> NULL" for c and h :: "'z dheap_scheme" using that by (subst read_object_loop.simps) simp
    show "tree_in h ?t ?v" by (rule T)
    show "?I 0 h" using assms(1) by simp
    show "?I i (set_md m md h')" if I: "?I i h'" and st: "same_tree h' (set_md m md h')" for i h' md
    proof -
      obtain d vs where e: "fold_opt (child_value stack) (take i ms) s = Some (d, vs)" "object_building b h0 p al ?t ?v (d, vs) h'" using I by auto
      then have "h_dobjs h' p = Some (placed al (mt_ptr ?t) d)" by (auto simp: object_building_def object_in_def)
      then have "rewritten p (placed al (mt_ptr ?t) d) {m} h' (set_dobj p (placed al (mt_ptr ?t) d) (set_md m md h'))"
        using st set_md_walked [of "set_md m md h'" h' m] by (auto simp: rewritten_def)
      moreover have "set_dobj p (placed al (mt_ptr ?t) d) (set_md m md h') = set_md m md h'"
        using \<open>h_dobjs h' p = _\<close> by (simp add: set_dobj_def set_md_def fun_upd_idem)
      ultimately show ?thesis using object_building_rewritten [OF e(2)] e(1) by auto
    qed
    fix i h' assume i: "i < length ts" and I: "?I i h'"
    then obtain e where e: "fold_opt (child_value stack) (take i ms) s = Some e" "object_building b h0 p al ?t ?v e h'" by blast
    obtain u where "child_value stack (ms ! i) e = Some u" "fold_opt (child_value stack) (take (Suc i) ms) s = Some u"
      using fold_opt_step [OF assms(2), of i] i len e(1) by (metis option.inject)
    then show "\<exists>h''. read_child stack p (mt_ptr (ts ! i)) h' = Some h'' \<and> ?I (Suc i) h'' \<and> iterator_safe m (map mt_ptr ts) h' h''"
      using read_child_value [OF e(2) i] by blast
  qed
  then show ?thesis using assms(2) len by auto
qed

text \<open>The memory before the text is parsed, and the calls that follow.\<close>

definition raw_start :: "'z dheap_scheme \<Rightarrow> 'z dheap_scheme" where
  "raw_start h = (let p = h_brk h; al = h_brk h + 4 in
     set_dobj p (placed al NULL (zero_dobj\<lparr>d_flags := DATAOBJECT_FLAG_PERSISTENT\<rparr>))
       (h\<lparr>h_brk := 8 + h_brk h, h_links := INIT_LIST al (h_links h), h_alists := (h_alists h)(al \<mapsto> 0)\<rparr>))"

lemma new_from_raw_steps:
  assumes "wf_heap h" "h_mem h = []"
  shows "haggle_dataobject_new_from_raw X stack locals (Some s) h =
    do {
      (m, h1) \<leftarrow> metadata_xml_new_from_xml X s (raw_start h);
      d \<leftarrow> h_dobjs h1 (h_brk h);
      let h2 = set_dobj (h_brk h) (d\<lparr>d_m := m\<rparr>) h1 in
      if m = NULL then do { h3 \<leftarrow> haggle_dataobject_free (h_brk h) h2; Some (NULL, h3) }
      else
        do {
          ok \<leftarrow> metadata_name_is m HAGGLE_TAG h2;
          if ok = 0 then do { h3 \<leftarrow> haggle_dataobject_free (h_brk h) h2; Some (NULL, h3) }
          else
            do {
              persistent \<leftarrow> metadata_get_parameter m (Some ''persistent'') h2;
              h3 \<leftarrow> read_persistent (h_brk h) persistent h2;
              createtime \<leftarrow> metadata_get_parameter m (Some ''create_time'') h3;
              h4 \<leftarrow> read_createtime locals (h_brk h) createtime h3;
              h5 \<leftarrow> do { (md, h') \<leftarrow> metadata_get m None h4; read_object_loop stack (h_brk h) m md h' };
              Some (h_brk h, h5)
            }
        }
    }"
proof -
  have "malloc h = (h_brk h, h\<lparr>h_brk := 4 + h_brk h\<rparr>)" "h_brk h \<noteq> NULL" using assms wf_heap_brk [OF assms(1)] by (simp_all add: malloc_def malloc_ok_def)
  moreover have "haggle_dataobject_set_flags p DATAOBJECT_FLAG_PERSISTENT (set_dobj p zero_dobj h)
      = Some (DATAOBJECT_FLAG_PERSISTENT, set_dobj p (zero_dobj\<lparr>d_flags := DATAOBJECT_FLAG_PERSISTENT\<rparr>) h)" for p and h :: "'a dheap_scheme"
    by (simp add: haggle_dataobject_set_flags_def zero_dobj_def)
  ultimately show ?thesis
    using assms unfolding haggle_dataobject_new_from_raw_def
    by (simp add: haggle_attributelist_new_def malloc_def malloc_ok_def raw_start_def placed_def set_dobj_def Let_def zero_dobj_def split_def cong: if_cong)
qed

lemma raw_start_facts:
  assumes "wf_heap h" "h_mem h = []"
  shows "wf_heap (raw_start h)" "h_mem (raw_start h) = []" "h_brk (raw_start h) = 8 + h_brk h" "alist (raw_start h) (h_brk h + 4) [] []"
    "h_dobjs (raw_start h) = (h_dobjs h)(h_brk h \<mapsto> placed (h_brk h + 4) NULL (zero_dobj\<lparr>d_flags := DATAOBJECT_FLAG_PERSISTENT\<rparr>))"
    "untouched (h_brk h) h (raw_start h)"
  using assms by (auto simp: raw_start_def Let_def wf_heap_def set_dobj_def alist_def ring_def linked_def INIT_LIST_def untouched_def)

lemma set_dobj_mds [simp]: "h_mds (set_dobj p d h) = h_mds h"
  by (simp add: set_dobj_def)

lemma mheap_more_dobjs: "mheap.more h' = mheap.more h \<Longrightarrow> h_dobjs h' = h_dobjs (h :: 'z dheap_scheme)"
  by (cases h; cases h') simp

lemma read_root_value:
  assumes "tree_in h t v" "h_dobjs h p = Some (placed al m (zero_dobj\<lparr>d_flags := DATAOBJECT_FLAG_PERSISTENT\<rparr>))" "p \<noteq> NULL" "root_value locals v = Some d"
  shows "\<exists>h1 h2. metadata_get_parameter (mt_ptr t) (Some ''persistent'') h = Some (map_of (me_params v) ''persistent'')
    \<and> read_persistent p (map_of (me_params v) ''persistent'') h = Some h1
    \<and> metadata_get_parameter (mt_ptr t) (Some ''create_time'') h1 = Some (map_of (me_params v) ''create_time'')
    \<and> read_createtime locals p (map_of (me_params v) ''create_time'') h1 = Some h2
    \<and> h2 = set_dobj p (placed al m d) h"
proof -
  let ?f = "if map_of (me_params v) ''persistent'' \<in> {Some ''no'', Some ''false''} then 0 else DATAOBJECT_FLAG_PERSISTENT"
  let ?d = "placed al m (zero_dobj\<lparr>d_flags := ?f\<rparr>)"
  have 1: "read_persistent p (map_of (me_params v) ''persistent'') h = Some (set_dobj p ?d h)"
  proof -
    have "set_dobj p (placed al m (zero_dobj\<lparr>d_flags := DATAOBJECT_FLAG_PERSISTENT\<rparr>)) h = h" using assms(2) by (simp add: set_dobj_def fun_upd_idem)
    then show ?thesis using assms(2) by (simp add: read_persistent_def haggle_dataobject_set_flags_def haggle_dataobject_unset_flags_def
        DATAOBJECT_FLAG_PERSISTENT_def placed_def zero_dobj_def)
  qed
  have T: "tree_in (set_dobj p ?d h) t v" by (rule tree_in_set_dobj [OF assms(1)])
  have "read_createtime locals p (map_of (me_params v) ''create_time'') (set_dobj p ?d h) = Some (set_dobj p (placed al m d) h)"
    using assms(3,4) by (auto simp: read_createtime_def root_value_def haggle_dataobject_set_createtime_def placed_def zero_dobj_def
        split: option.splits if_splits)
  then show ?thesis using 1 tree_reads(3) [OF assms(1), of "''persistent''"] tree_reads(3) [OF T, of "''create_time''"] by blast
qed

lemma new_from_raw_object:
  fixes h :: "'z dheap_scheme"
  assumes "wf_heap h" "h_mem h = []" "xmlParseMemory X raw = Some doc" "xmlDocGetRootElement doc = Some x" "xml_ok x"
    and "me_name (root_meta x) = HAGGLE_TAG" "object_value stack locals (root_meta x) = Some s"
  shows "\<exists>p al t h'. haggle_dataobject_new_from_raw X stack locals (Some raw) h = Some (p, h')
    \<and> object_building (h_brk h) h p al t (root_meta x) s h'"
proof -
  let ?p = "h_brk h" and ?al = "h_brk h + 4" and ?v = "root_meta x"
  note S = raw_start_facts [OF assms(1,2)]
  obtain t h1 where h1: "metadata_xml_new_from_xml X raw (raw_start h) = Some (mt_ptr t, h1)" "tree_in h1 t ?v"
    "only_new (set (owned t)) (raw_start h) h1" "h_links h1 (mt_ptr t) = Some \<lparr>l_prev = mt_ptr t, l_next = mt_ptr t\<rparr>"
    using xml_tree [OF S(1,2) assms(3-5)] by blast
  have d1: "h_dobjs h1 = h_dobjs (raw_start h)" using h1(3) by (intro mheap_more_dobjs) (simp add: only_new_def)
  let ?z = "zero_dobj\<lparr>d_flags := DATAOBJECT_FLAG_PERSISTENT\<rparr>"
  let ?h2 = "set_dobj ?p (placed ?al (mt_ptr t) ?z) h1"
  have p: "?p \<noteq> NULL" "mt_ptr t \<noteq> NULL" using wf_heap_brk [OF assms(1)] tree_in_ptr [OF h1(2)] by auto
  obtain d where d: "root_value locals ?v = Some d" "fold_opt (child_value stack) (me_subs ?v) (d, []) = Some s"
    using assms(7) by (auto simp: object_value_def bind_eq_Some_conv)
  have T2: "tree_in ?h2 t ?v" by (rule tree_in_set_dobj [OF h1(2)])
  obtain h3 where h3: "metadata_get_parameter (mt_ptr t) (Some ''persistent'') ?h2 = Some (map_of (me_params ?v) ''persistent'')"
    "read_persistent ?p (map_of (me_params ?v) ''persistent'') ?h2 = Some h3"
    "metadata_get_parameter (mt_ptr t) (Some ''create_time'') h3 = Some (map_of (me_params ?v) ''create_time'')"
    "read_createtime locals ?p (map_of (me_params ?v) ''create_time'') h3 = Some (set_dobj ?p (placed ?al (mt_ptr t) d) h1)"
    using read_root_value [OF T2 _ p(1) d(1), of ?al "mt_ptr t"] by auto
  let ?h4 = "set_dobj ?p (placed ?al (mt_ptr t) d) h1"
  have own: "\<forall>q \<in> set (owned t). 8 + h_brk h \<le> q" using h1(3) S(3) by (simp add: only_new_def)
  have "alist ?h4 ?al [] []"
    by (rule alist_cong [OF S(4)]) (use only_new_old [OF h1(3), of ?al] S(3) in auto)
  then have "object_in ?h4 ?p ?al [] t ?v (d, [])"
    using tree_in_set_dobj [OF h1(2)] p(1) own by (fastforce simp: object_in_def)
  moreover have "untouched ?p h ?h4"
    using S(6) h1(3) d1 only_new_old [OF h1(3)] S(3,5) by (auto simp: untouched_def only_new_def)
  moreover have "kept ?p (set (?al # owned t)) h ?h4"
    using h1(3) d1 S(5) by (auto simp: kept_def only_new_def raw_start_def Let_def set_dobj_def INIT_LIST_def)
  ultimately have b: "object_building ?p h ?p ?al t ?v (d, []) ?h4" using own h1(4) by (force simp: object_building_def)
  obtain m ma ys ts nm c ps ms where tv: "t = MT m ma ys ts" "?v = Meta nm c ps ms" by (cases t; cases ?v)
  obtain h5 where h5: "do { (md, h') \<leftarrow> metadata_get m None ?h4; read_object_loop stack ?p m md h' } = Some h5" "object_building ?p h ?p ?al t ?v s h5"
    using read_object_values [of ?p h ?p ?al m ma ys ts nm c ps ms "(d, [])" ?h4 stack s] b d(2) unfolding tv meta.sel by blast
  then obtain md h6 where h6: "metadata_get m None ?h4 = Some (md, h6)" "read_object_loop stack ?p m md h6 = Some h5"
    by (auto simp: bind_eq_Some_conv)
  have "metadata_name_is (mt_ptr t) HAGGLE_TAG ?h2 = Some 1" using tree_reads(4) [OF T2] assms(6) by simp
  moreover have "h_dobjs h1 ?p = Some (placed ?al NULL ?z)" "(placed ?al NULL ?z)\<lparr>d_m := mt_ptr t\<rparr> = placed ?al (mt_ptr t) ?z"
    using d1 S(5) by (simp_all add: placed_def)
  ultimately have "haggle_dataobject_new_from_raw X stack locals (Some raw) h = Some (?p, h5)"
    using p h1(1) h3 h6 unfolding new_from_raw_steps [OF assms(1,2)] by (simp add: Let_def tv)
  then show ?thesis using h5(2) by blast
qed

section \<open>Text that is not a data object\<close>

text \<open>
  The same objects as before.  Attributes, lists of attributes and metadata are linked, so that the equality of the links says
  that none is left behind.
\<close>

definition same_memory :: "'z dheap_scheme \<Rightarrow> 'z dheap_scheme \<Rightarrow> bool" where
  "same_memory h h' \<longleftrightarrow> h_links h' = h_links h \<and> h_dobjs h' = h_dobjs h
     \<and> (\<forall>q < h_brk h. h_attrs h' q = h_attrs h q \<and> h_alists h' q = h_alists h q \<and> h_mds h' q = h_mds h q)"

definition wf_objects :: "'z dheap_scheme \<Rightarrow> bool" where
  "wf_objects h \<longleftrightarrow> wf_heap h \<and> (\<forall>q \<ge> h_brk h. h_dobjs h q = None)"

lemma free_alist_empty: "alist h al [] [] \<Longrightarrow> haggle_attributelist_free al h = Some (free_alist al h)"
  using free_alist_all [of h al "[]" "[]"] by simp

lemma new_from_raw_no_document:
  assumes "wf_objects h" "h_mem h = []" "xmlParseMemory X raw = None"
  shows "\<exists>h'. haggle_dataobject_new_from_raw X stack locals (Some raw) h = Some (NULL, h') \<and> same_memory h h'"
proof -
  have w: "wf_heap h" using assms(1) by (simp add: wf_objects_def)
  note S = raw_start_facts [OF w assms(2)]
  let ?d = "placed (h_brk h + 4) NULL (zero_dobj\<lparr>d_flags := DATAOBJECT_FLAG_PERSISTENT\<rparr>)"
  have p: "?d\<lparr>d_m := NULL\<rparr> = ?d" "h_brk h \<noteq> NULL" "d_fp ?d = None" "d_al ?d = h_brk h + 4" "d_m ?d = NULL"
    using wf_heap_brk [OF w] by (simp_all add: placed_def zero_dobj_def)
  have e: "set_dobj (h_brk h) ?d (raw_start h) = raw_start h" using S(5) by (simp add: set_dobj_def fun_upd_idem)
  have "haggle_dataobject_free (h_brk h) (raw_start h) = Some (free_dobj (h_brk h) (free_alist (h_brk h + 4) (raw_start h)))"
    using S(5) p free_alist_empty [OF S(4)] by (simp add: haggle_dataobject_free_def)
  then have "haggle_dataobject_new_from_raw X stack locals (Some raw) h
      = Some (NULL, free_dobj (h_brk h) (free_alist (h_brk h + 4) (raw_start h)))"
    using new_from_raw_steps [OF w assms(2)] assms(3) S(5) p(1) e by (simp add: metadata_xml_new_from_xml_def Let_def)
  moreover have "same_memory h (free_dobj (h_brk h) (free_alist (h_brk h + 4) (raw_start h)))"
    using assms(1) by (auto simp: same_memory_def wf_objects_def wf_heap_def free_dobj_def free_alist_def raw_start_def Let_def set_dobj_def
        INIT_LIST_def fun_eq_iff)
  ultimately show ?thesis by blast
qed

lemma new_from_raw_other_root:
  fixes h :: "'z dheap_scheme"
  assumes "wf_objects h" "h_mem h = []" "xmlParseMemory X raw = Some doc" "xmlDocGetRootElement doc = Some x" "xml_ok x"
    and "me_name (root_meta x) \<noteq> HAGGLE_TAG"
  shows "\<exists>h'. haggle_dataobject_new_from_raw X stack locals (Some raw) h = Some (NULL, h') \<and> same_memory h h'"
proof -
  let ?p = "h_brk h" and ?al = "h_brk h + 4" and ?v = "root_meta x"
  have w: "wf_heap h" using assms(1) by (simp add: wf_objects_def)
  note S = raw_start_facts [OF w assms(2)]
  obtain t h1 where h1: "metadata_xml_new_from_xml X raw (raw_start h) = Some (mt_ptr t, h1)" "tree_in h1 t ?v"
    "h_links h1 (mt_ptr t) = Some \<lparr>l_prev = mt_ptr t, l_next = mt_ptr t\<rparr>" "only_new (set (owned t)) (raw_start h) h1"
    using xml_tree [OF S(1,2) assms(3-5)] by blast
  let ?d = "placed ?al (mt_ptr t) (zero_dobj\<lparr>d_flags := DATAOBJECT_FLAG_PERSISTENT\<rparr>)"
  let ?h2 = "set_dobj ?p ?d h1"
  have d1: "h_dobjs h1 = h_dobjs (raw_start h)" using h1(4) by (intro mheap_more_dobjs) (simp add: only_new_def)
  have p: "(placed ?al NULL (zero_dobj\<lparr>d_flags := DATAOBJECT_FLAG_PERSISTENT\<rparr>))\<lparr>d_m := mt_ptr t\<rparr> = ?d" "?p \<noteq> NULL"
    "d_fp ?d = None" "d_al ?d = ?al" "d_m ?d = mt_ptr t" "mt_ptr t \<noteq> NULL"
    using wf_heap_brk [OF w] tree_in_ptr [OF h1(2)] by (simp_all add: placed_def zero_dobj_def)
  have own: "\<forall>q \<in> set (owned t). 8 + ?p \<le> q" using h1(4) S(3) by (simp add: only_new_def)
  have al: "alist ?h2 ?al [] []" by (rule alist_cong [OF S(4)]) (use only_new_old [OF h1(4), of ?al] S(3) in auto)
  let ?h3 = "free_alist ?al ?h2"
  have ag: "agree (set (owned t)) (set (owned t)) h1 ?h3" using own by (auto simp: agree_def free_alist_def)
  have "holds ?h3 t ?v" using h1(2) holds_cong [of h1 t ?v ?h3] agree_mono [OF ag] by (auto simp: tree_in_def)
  moreover have "mt_ptr t \<noteq> ?al" using own by (cases t) auto
  ultimately obtain h4 where h4: "metadata_free (mt_ptr t) ?h3 = Some h4" "released {} [t] ?h3 h4"
    using metadata_free_root [of ?h3 t] holds_shaped h1(2,3) by (auto simp: tree_in_def free_alist_def)
  have "haggle_dataobject_free ?p ?h2 = Some (free_dobj ?p h4)"
    using p free_alist_empty [OF al] h4(1) by (simp add: haggle_dataobject_free_def)
  moreover have "metadata_name_is (mt_ptr t) HAGGLE_TAG ?h2 = Some 0"
    using tree_reads(4) [OF tree_in_set_dobj [OF h1(2)]] assms(6) by simp
  ultimately have "haggle_dataobject_new_from_raw X stack locals (Some raw) h = Some (NULL, free_dobj ?p h4)"
    using new_from_raw_steps [OF w assms(2)] h1(1) d1 S(5) p(1,6) by (simp add: Let_def)
  moreover have "same_memory h (free_dobj ?p h4)"
  proof -
    have "h_dobjs h4 = h_dobjs ?h3" using h4(2) by (intro mheap_more_dobjs) (simp add: released_def)
    then have dobjs: "(h_dobjs h4)(?p := None) = h_dobjs h"
      using d1 S(5) assms(1) by (auto simp: free_alist_def wf_objects_def fun_eq_iff)
    have out: "h_links h4 q = h_links h q \<and> h_attrs h4 q = h_attrs h q \<and> h_alists h4 q = h_alists h q \<and> h_mds h4 q = h_mds h q"
      if "q \<notin> set (owned t)" for q
    proof -
      have "h_links h1 q = h_links (raw_start h) q \<and> h_attrs h1 q = h_attrs (raw_start h) q \<and> h_alists h1 q = h_alists (raw_start h) q
          \<and> h_mds h1 q = h_mds (raw_start h) q"
        using h1(4) that by (simp add: only_new_def)
      then show ?thesis
        using released_links(1) [OF h4(2), of q] released_objects [OF h4(2), of q] that w
        by (auto simp: free_alist_def raw_start_def Let_def set_dobj_def INIT_LIST_def wf_heap_def)
    qed
    have "h_links h4 q = h_links h q" if "q \<in> set (owned t)" for q
      using released_links(2) [OF h4(2), of q] own w that by (fastforce simp: wf_heap_def)
    then have "h_links h4 = h_links h" using out by (metis ext)
    moreover have "q \<notin> set (owned t)" if "q < ?p" for q using own that by auto
    ultimately show ?thesis using out dobjs unfolding same_memory_def free_dobj_def by simp
  qed
  ultimately show ?thesis by blast
qed

section \<open>Numbers that were printed\<close>

lemma number_snoc: "number (ds @ [c]) = 10 * number ds + digit_value c"
  by (simp add: number_def)

lemma digit_facts:
  assumes "n < 10"
  shows "digit_value (digit n) = n" "is_digit (digit n)" "\<not> is_space (digit n)" "digit n \<noteq> CHR ''-''" "digit n \<noteq> CHR ''+''"
proof -
  have "n \<in> {0, 1, 2, 3, 4, 5, 6, 7, 8, 9}" using assms by auto
  then show "digit_value (digit n) = n" "is_digit (digit n)" "\<not> is_space (digit n)" "digit n \<noteq> CHR ''-''" "digit n \<noteq> CHR ''+''"
    by (auto simp: digit_def digit_value_def is_digit_def is_space_def)
qed

lemma number_digits [simp]: "number (digits n) = n"
proof (induction n rule: digits.induct)
  case (1 n)
  show ?case
  proof (cases "n < 10")
    case True
    then show ?thesis by (simp add: digits.simps [of n] number_def digit_facts)
  next
    case False
    then show ?thesis using 1 by (simp add: digits.simps [of n] number_snoc digit_facts)
  qed
qed

lemma digits_digit: "c \<in> set (digits n) \<Longrightarrow> is_digit c"
proof (induction n rule: digits.induct)
  case (1 n)
  then show ?case by (cases "n < 10") (auto simp: digits.simps [of n] digit_facts)
qed

lemma digits_not_Nil [simp]: "digits n \<noteq> []"
  by (simp add: digits.simps [of n])

lemma digits_inj: "digits m = digits n \<Longrightarrow> m = n"
  by (metis number_digits)

lemma length_digits: "0 < k \<Longrightarrow> n < 10 ^ k \<Longrightarrow> length (digits n) \<le> k"
proof (induction n arbitrary: k rule: digits.induct)
  case (1 n)
  show ?case
  proof (cases "n < 10")
    case True
    then show ?thesis using 1 by (simp add: digits.simps [of n])
  next
    case False
    then obtain j where j: "k = Suc j" "0 < j" using "1.prems" by (cases k; cases "k - 1") auto
    then have "n div 10 < 10 ^ j" using "1.prems"(2) by (simp add: less_mult_imp_div_less mult.commute)
    then show ?thesis using "1.IH" [OF False j(2)] False j(1) by (simp add: digits.simps [of n])
  qed
qed

lemma is_digit_facts: "is_digit c \<Longrightarrow> \<not> is_space c \<and> c \<noteq> CHR ''-'' \<and> c \<noteq> CHR ''+''"
  by (auto simp: is_digit_def is_space_def)

text \<open>A number, with or without a sign, before something that is not a digit.\<close>

lemma scan_digits:
  assumes "ds \<noteq> []" "\<forall>c \<in> set ds. is_digit c" "rest = [] \<or> \<not> is_digit (hd rest)"
  shows "scan_int (ds @ rest) = Some (int (number ds), rest)" "scan_int (CHR ''-'' # ds @ rest) = Some (- int (number ds), rest)"
proof -
  obtain c cs where ds: "ds = c # cs" using assms(1) by (cases ds) auto
  have t: "takeWhile is_digit (ds @ rest) = ds" "dropWhile is_digit (ds @ rest) = rest"
    using assms(2,3) by (cases rest; simp add: takeWhile_append2 dropWhile_append2)+
  moreover have "dropWhile is_space (ds @ rest) = ds @ rest" "c \<noteq> CHR ''-''" "c \<noteq> CHR ''+''"
    using is_digit_facts [of c] assms(2) by (simp_all add: ds)
  ultimately show "scan_int (ds @ rest) = Some (int (number ds), rest)"
    using assms(1) unfolding scan_int_def ds by (simp add: Let_def)
  have "\<not> is_space CHR ''-''" by (simp add: is_space_def)
  then show "scan_int (CHR ''-'' # ds @ rest) = Some (- int (number ds), rest)"
    using t assms(1) unfolding scan_int_def by (simp add: Let_def)
qed

lemma number_zeros: "number (replicate k CHR ''0'' @ ds) = number ds"
proof -
  have "foldl (\<lambda>n c. 10 * n + digit_value c) 0 (replicate k CHR ''0'') = 0"
    by (induction k) (simp_all add: digit_value_def replicate_append_same [symmetric])
  then show ?thesis by (simp add: number_def)
qed

lemma scan_print:
  assumes "rest = [] \<or> \<not> is_digit (hd rest)"
  shows "scan_int (print_ld i @ rest) = Some (i, rest)" "scan_int (print_06ld i @ rest) = Some (i, rest)"
proof -
  have z: "is_digit CHR ''0''" by (simp add: is_digit_def)
  show "scan_int (print_ld i @ rest) = Some (i, rest)"
    using scan_digits [of "digits (nat \<bar>i\<bar>)", OF _ _ assms] digits_digit by (cases "i < 0") (simp_all add: print_ld_def)
  have d: "\<forall>c \<in> set (replicate k CHR ''0'' @ digits n). is_digit c" for k n using digits_digit z by (auto simp: set_replicate_conv_if)
  have "scan_int (replicate k CHR ''0'' @ digits n @ rest) = Some (int n, rest)"
    "scan_int (CHR ''-'' # replicate k CHR ''0'' @ digits n @ rest) = Some (- int n, rest)" for k n
    using scan_digits [OF _ d assms, of k n] by (simp_all add: number_zeros)
  then show "scan_int (print_06ld i @ rest) = Some (i, rest)" by (cases "i < 0") (simp_all add: print_06ld_def)
qed

lemma sscanf_createtime: "in_long sec \<Longrightarrow> in_long usec \<Longrightarrow> sscanf_time old (createtime_text sec usec) = Some (sec, usec)"
  using scan_print(1) [of "''.'' @ print_06ld usec" sec] scan_print(2) [of "[]" usec]
  by (simp add: sscanf_time_def createtime_text_def is_digit_def)

lemma scan_int_digits: "scan_int (digits n) = Some (int n, [])"
  using scan_print(1) [of "[]" "int n"] by (simp add: print_ld_def)

lemma atoi_digits: "n < 2 ^ 31 \<Longrightarrow> atoi (digits n) = Some (int n)"
  using scan_int_digits [of n] by (simp add: atoi_def)

lemma strtoul_digits: "strtoul (digits (unat w)) = w"
proof -
  have "int (unat w) < 2 ^ 64" using uint_lt2p [of w] by simp
  then show ?thesis using scan_int_digits [of "unat w"] by (simp add: strtoul_def)
qed

section \<open>Data objects from buffers\<close>

lemma buffer_path_inj:
  assumes "length dir \<le> 200" "i < 2 ^ 63" "j < 2 ^ 63" "buffer_path dir i = buffer_path dir j"
  shows "i = j"
proof -
  have l: "length (digits n) \<le> 19" if "n < 2 ^ 63" for n using length_digits [of 19 n] that by simp
  have full: "buffer_path dir n = dir @ ''/mem-dObj-'' @ digits n @ ''.do''" if "n < 2 ^ 63" for n
    using l [OF that] assms(1) by (simp add: buffer_path_def)
  show ?thesis using assms(4) digits_inj unfolding full [OF assms(2)] full [OF assms(3)] by simp
qed

text \<open>The loop finds the first name that is not in use.\<close>

lemma free_path_loop_first:
  assumes "fs (buffer_path dir k) = None" "\<forall>j \<in> {i..<k}. fs (buffer_path dir j) \<noteq> None" "i \<le> k"
  shows "free_path_loop fs dir i = Some (buffer_path dir k)"
  using assms
proof (induction "k - i" arbitrary: i)
  case 0
  then show ?case by (subst free_path_loop.simps) simp
next
  case (Suc n)
  then have "fs (buffer_path dir i) \<noteq> None" "free_path_loop fs dir (Suc i) = Some (buffer_path dir k)" by auto
  then show ?case by (subst free_path_loop.simps) auto
qed

lemma unused_path:
  assumes "length dir \<le> 200" "finite (dom fs)" "card (dom fs) < 2 ^ 63"
  obtains k where "fs (buffer_path dir k) = None" "\<forall>j < k. fs (buffer_path dir j) \<noteq> None"
proof -
  have "inj_on (buffer_path dir) {..card (dom fs)}"
    using buffer_path_inj [OF assms(1)] assms(3) by (intro inj_onI) simp
  then have "card (buffer_path dir ` {..card (dom fs)}) = Suc (card (dom fs))" by (simp add: card_image)
  then have "\<not> buffer_path dir ` {..card (dom fs)} \<subseteq> dom fs" using card_mono [OF assms(2)] by (metis Suc_n_not_le_n)
  then have ex: "\<exists>k. fs (buffer_path dir k) = None" by auto
  show ?thesis
    using that [of "LEAST k. fs (buffer_path dir k) = None"] LeastI_ex [OF ex] not_less_Least by blast
qed

lemma buffer_path_not_Nil [simp]: "buffer_path dir i \<noteq> []"
  by (simp add: buffer_path_def)

lemma new_from_buffer_object:
  assumes "length dir \<le> 200" "finite (dom fs)" "card (dom fs) < 2 ^ 63" "data \<noteq> []"
    and "\<And>path. can_create path" "\<And>path. write path data = (data, True)" "h_mem h = []" "0 < h_brk h"
  shows "\<exists>k p fs' h' d. haggle_dataobject_new_from_buffer (Some dir) can_create write fs data h = Some (p, fs', h') \<and> p \<noteq> NULL
    \<and> fs (buffer_path dir k) = None \<and> (\<forall>j < k. fs (buffer_path dir j) \<noteq> None) \<and> (\<forall>q. q \<noteq> buffer_path dir k \<longrightarrow> fs' q = fs q)
    \<and> h_dobjs h' p = Some d \<and> file_object (buffer_path dir k) \<lparr>f_data = data, f_bad = False, f_seek = True\<rparr> d
    \<and> haggle_dataobject_get_data_all fs' p h' = Some (Some data, h')"
proof -
  obtain k where k: "fs (buffer_path dir k) = None" "\<forall>j < k. fs (buffer_path dir j) \<noteq> None" using unused_path [OF assms(1-3)] .
  let ?f = "\<lparr>f_data = data, f_bad = False, f_seek = True\<rparr>"
  let ?fs = "fs(buffer_path dir k \<mapsto> ?f)"
  obtain p h' d where n: "haggle_dataobject_new_from_file ?fs (Some (buffer_path dir k)) h = Some (p, h')" "p \<noteq> NULL" "h_mem h' = []"
    "h_dobjs h' p = Some d" "file_object (buffer_path dir k) ?f d"
    using new_from_file_object [of h "buffer_path dir k" ?fs ?f] assms(7,8) by auto
  have "free_path_loop fs dir 0 = Some (buffer_path dir k)" using free_path_loop_first [of fs dir k 0] k by auto
  then have "haggle_dataobject_new_from_buffer (Some dir) can_create write fs data h = Some (p, ?fs, h')"
    using assms(4-6) n(1) by (simp add: haggle_dataobject_new_from_buffer_def Let_def)
  moreover have "haggle_dataobject_get_data_all ?fs p h' = Some (Some data, h')"
    using n by (simp add: haggle_dataobject_get_data_all_def file_object_def fopen_stream_def malloc_ok_def fread_stream_def)
  ultimately show ?thesis using k n(2,4,5) by (intro exI [of _ k] exI [of _ p] exI [of _ ?fs] exI [of _ h'] exI [of _ d]) simp
qed

section \<open>The properties\<close>

lemma root_meta_name: "is_element x \<Longrightarrow> me_name (root_meta x) = xn_name x"
  by (cases x) (simp_all add: root_meta_def)

text \<open>
  C3: Parsing a data object: on every XML document with root \<open>Haggle\<close> whose values the code can read, \<open>haggle_dataobject_new_from_raw\<close>
  returns an object with the members and, in their order, the attributes that the document states, and with the whole
  document as its metadata; the memory that was in use before is unchanged.
\<close>

theorem dataobject_from_raw:
  fixes h :: dheap
  assumes "wf_heap h" "h_mem h = []" "xmlParseMemory X raw = Some doc" "xmlDocGetRootElement doc = Some x" "xml_ok x"
    and "xn_name x = HAGGLE_TAG" "object_value stack locals (root_meta x) = Some (d, vs)"
  shows "\<exists>p al xs t h'. haggle_dataobject_new_from_raw X stack locals (Some raw) h = Some (p, h')
    \<and> object_in h' p al xs t (root_meta x) (d, vs) \<and> untouched (h_brk h) h h'"
  using new_from_raw_object [OF assms(1-5) _ assms(7)] root_meta_name [OF xmlDocGetRootElement_element [OF assms(4)]] assms(6)
  unfolding object_building_def by metis

text \<open>
  C13: Text that is not XML, or whose root is not \<open>Haggle\<close>, is refused with \<open>NULL\<close>, and everything that was allocated on the way is
  released.
\<close>

theorem dataobject_raw_refused:
  fixes h :: dheap
  assumes "wf_objects h" "h_mem h = []"
    and "case xmlParseMemory X raw of None \<Rightarrow> True
      | Some doc \<Rightarrow> (case xmlDocGetRootElement doc of None \<Rightarrow> False | Some x \<Rightarrow> xml_ok x \<and> xn_name x \<noteq> HAGGLE_TAG)"
  shows "\<exists>h'. haggle_dataobject_new_from_raw X stack locals (Some raw) h = Some (NULL, h') \<and> same_memory h h'"
proof (cases "xmlParseMemory X raw")
  case None
  then show ?thesis by (rule new_from_raw_no_document [OF assms(1,2)])
next
  case (Some doc)
  then obtain x where x: "xmlDocGetRootElement doc = Some x" "xml_ok x" "xn_name x \<noteq> HAGGLE_TAG" using assms(3) by (auto split: option.splits)
  then show ?thesis
    using new_from_raw_other_root [OF assms(1,2) Some x(1,2)] root_meta_name [OF xmlDocGetRootElement_element [OF x(1)]] by simp
qed

text \<open>
  C39: A data object from a buffer: the loop over the file numbers ends at the first name that is not in use (for a directory
  name of at most 200 characters and fewer than \<open>2 ^ 63\<close> files), no other file is changed, and the object describes the new file, whose contents
  are the buffer and are read back.
\<close>

theorem dataobject_from_buffer:
  fixes h :: dheap
  assumes "length dir \<le> 200" "finite (dom fs)" "card (dom fs) < 2 ^ 63" "data \<noteq> []"
    and "\<And>path. can_create path" "\<And>path. write path data = (data, True)" "h_mem h = []" "0 < h_brk h"
  shows "\<exists>k p fs' h' d. haggle_dataobject_new_from_buffer (Some dir) can_create write fs data h = Some (p, fs', h') \<and> p \<noteq> NULL
    \<and> fs (buffer_path dir k) = None \<and> (\<forall>j < k. fs (buffer_path dir j) \<noteq> None) \<and> (\<forall>q. q \<noteq> buffer_path dir k \<longrightarrow> fs' q = fs q)
    \<and> h_dobjs h' p = Some d \<and> file_object (buffer_path dir k) \<lparr>f_data = data, f_bad = False, f_seek = True\<rparr> d
    \<and> haggle_dataobject_get_data_all fs' p h' = Some (Some data, h')"
  using new_from_buffer_object [OF assms(1-4), of can_create "write" h] assms(5-8) by blast

section \<open>Examples\<close>

text \<open>A document with a creation time, data and an attribute, and one with another root.\<close>

definition sample_object_doc :: xml_node where
  "sample_object_doc = XML_ELEMENT_NODE ''Haggle'' [(''persistent'', [Some ''no'']), (''create_time'', [Some ''5.000007''])]
     [XML_ELEMENT_NODE ''Data'' [(''data_len'', [Some ''3''])] [XML_ELEMENT_NODE ''FileName'' [] [XML_TEXT_NODE ''f'']],
      XML_ELEMENT_NODE ''Attr'' [(''name'', [Some ''a'']), (''weight'', [Some ''2''])] [XML_TEXT_NODE ''1'']]"

definition sample_object_libxml :: libxml where
  "sample_object_libxml = sample_libxml\<lparr>xmlParseMemory := (\<lambda>s. if s = ''H'' then Some [sample_object_doc]
     else if s = ''N'' then Some [XML_ELEMENT_NODE ''News'' [] []] else None)\<rparr>"

lemma sample_objects_wf: "wf_heap sample_objects" "wf_objects sample_objects"
  by (auto simp: wf_heap_def wf_objects_def sample_objects_def)

lemma sample_object_facts:
  "xmlParseMemory sample_object_libxml ''H'' = Some [sample_object_doc]" "xmlDocGetRootElement [sample_object_doc] = Some sample_object_doc"
  "xml_ok sample_object_doc" "xn_name sample_object_doc = HAGGLE_TAG"
  by (simp_all add: sample_object_libxml_def xmlDocGetRootElement_def sample_object_doc_def HAGGLE_TAG_def)

theorem dataobject_from_raw_witness:
  "\<exists>p h' d. haggle_dataobject_new_from_raw sample_object_libxml \<lparr>ctx_i = 0, ctx_buf = ''????''\<rparr> (0, 0) (Some ''H'') sample_objects = Some (p, h')
    \<and> h_dobjs h' p = Some d \<and> d_flags d = 0 \<and> d_sec d = 5 \<and> d_usec d = 7 \<and> d_filename d = Some ''f'' \<and> d_datalen d = 3"
proof -
  have "object_value \<lparr>ctx_i = 0, ctx_buf = ''????''\<rparr> (0, 0) (root_meta sample_object_doc)
      = Some (zero_dobj\<lparr>d_flags := 0, d_sec := 5, d_usec := 7, d_datalen := 3, d_filename := Some ''f''\<rparr>,
          [\<lparr>attr_name = Some ''a'', attr_value = Some ''1'', attr_weight = 2\<rparr>])"
    by code_simp
  from dataobject_from_raw [OF sample_objects_wf(1) sample_objects_facts(2) sample_object_facts this]
  show ?thesis by (auto simp: object_in_def placed_def)
qed

theorem dataobject_raw_refused_witness:
  "\<exists>h'. haggle_dataobject_new_from_raw sample_object_libxml \<lparr>ctx_i = 0, ctx_buf = ''????''\<rparr> (0, 0) (Some ''N'') sample_objects = Some (NULL, h')
    \<and> same_memory sample_objects h'"
  using dataobject_raw_refused [OF sample_objects_wf(2) sample_objects_facts(2), of sample_object_libxml "''N''"]
  by (simp add: sample_object_libxml_def xmlDocGetRootElement_def HAGGLE_TAG_def)

theorem dataobject_from_buffer_witness:
  "\<exists>p fs' h'. haggle_dataobject_new_from_buffer (Some ''/d'') (\<lambda>_. True) (\<lambda>_ s. (s, True)) sample_files ''xyz'' sample_objects = Some (p, fs', h')
    \<and> p \<noteq> NULL \<and> haggle_dataobject_get_data_all fs' p h' = Some (Some ''xyz'', h')"
  using dataobject_from_buffer [of "''/d''" sample_files "''xyz''" "\<lambda>_. True" "\<lambda>_ s. (s, True)" sample_objects] sample_objects_facts
  by (auto simp: sample_files_def)

end
