(* ===== verification/Metadata_Edit.thy ===== *)
theory Metadata_Edit
  imports Metadata_Tree
begin

text \<open>
  Changes of a metadata tree by its clients: a child that is looked up by its name and created when there is none, and the
  removal of all children with a name during an iteration over them.
\<close>

section \<open>A tree that changes\<close>

text \<open>As \<open>becomes\<close>, but objects of the tree may have been released; those are in no list any more.\<close>

definition changed :: "mtree \<Rightarrow> 'z mheap_scheme \<Rightarrow> mtree \<Rightarrow> meta \<Rightarrow> 'z mheap_scheme \<Rightarrow> bool" where
  "changed t h t' v' h' \<longleftrightarrow> tree_in h' t' v' \<and> mt_ptr t' = mt_ptr t \<and> h_brk h \<le> h_brk h' \<and> mheap.more h' = mheap.more h
     \<and> (\<forall>q \<in> set (owned t'). q \<in> set (owned t) \<or> h_brk h \<le> q)
     \<and> (\<forall>q < h_brk h. q \<notin> set (owned t) \<longrightarrow> h_links h' q = h_links h q \<and> h_attrs h' q = h_attrs h q
          \<and> h_alists h' q = h_alists h q \<and> h_mds h' q = h_mds h q)
     \<and> (\<forall>q. q \<notin> set (owned t') \<longrightarrow> h_links h' q = None \<or> q \<notin> set (owned t) \<and> h_links h' q = h_links h q)
     \<and> h_links h' (mt_ptr t) = h_links h (mt_ptr t)"

lemma changed_trans [trans]:
  assumes "changed t h t1 v1 h1" "changed t1 h1 t2 v2 h2"
  shows "changed t h t2 v2 h2"
proof -
  have "q \<in> set (owned t) \<or> h_brk h \<le> q" if "q \<in> set (owned t2)" for q
    using assms that unfolding changed_def by (meson le_trans)
  moreover have "q < h_brk h1 \<and> q \<notin> set (owned t1)" if "q < h_brk h" "q \<notin> set (owned t)" for q
    using assms(1) that unfolding changed_def by (meson less_le_trans not_le)
  moreover have "h_links h2 q = None \<or> q \<notin> set (owned t) \<and> h_links h2 q = h_links h q" if "q \<notin> set (owned t2)" for q
    using assms that unfolding changed_def by metis
  ultimately show ?thesis using assms unfolding changed_def by (auto intro: order_trans)
qed

lemma becomes_changed: "becomes t h t' v' h' \<Longrightarrow> changed t h t' v' h'"
proof -
  assume a: "becomes t h t' v' h'"
  have "q \<notin> set (owned t')" if "q < h_brk h" "q \<notin> set (owned t)" for q
    using a that unfolding becomes_def grows_def by (meson not_le)
  then show ?thesis using a unfolding becomes_def grows_def changed_def by blast
qed

lemma walked_becomes:
  assumes "walked A h h'" "A \<subseteq> set (owned t)" "tree_in h t v"
  shows "becomes t h t v h'"
proof -
  obtain M where M: "h' = h\<lparr>h_mds := M\<rparr>" "\<forall>q. q \<notin> A \<longrightarrow> M q = h_mds h q" using assms(1) by (auto simp: walked_def)
  then have "h_mds h' q = h_mds h q" if "q \<notin> set (owned t)" for q using assms(2) that by auto
  then show ?thesis using walked_tree_in [OF assms(1,3)] M(1) by (simp add: becomes_def grows_def)
qed

section \<open>A child with a name\<close>

primrec with_child :: "string \<Rightarrow> (meta \<Rightarrow> meta) \<Rightarrow> meta list \<Rightarrow> meta list" where
  "with_child n f [] = [f (Meta n None [] [])]"
| "with_child n f (m # ms) = (if me_name m = n then f m # ms else m # with_child n f ms)"

lemma with_child_new: "n \<notin> me_name ` set ms \<Longrightarrow> with_child n f ms = ms @ [f (Meta n None [] [])]"
  by (induction ms) auto

lemma with_child_old: "n \<notin> me_name ` set ms1 \<Longrightarrow> me_name w = n \<Longrightarrow> with_child n f (ms1 @ w # ms2) = ms1 @ f w # ms2"
  by (induction ms1) auto

text \<open>The result of the search for the first child with a name.\<close>

lemma dropWhile_zip:
  "list_all2 (\<lambda>x y. P x \<longleftrightarrow> Q y) xs ys \<Longrightarrow> dropWhile (\<lambda>x. \<not> P x) xs = drop (length (takeWhile (\<lambda>y. \<not> Q y) ys)) xs"
  by (induction xs ys rule: list_all2_induct) auto

lemma find_child:
  assumes T: "tree_in h (MT p al xs ts) (Meta nm c ps ms)" and "n \<noteq> []"
  shows "\<exists>k h'. metadata_get p (Some n) h = Some (if k = length ts then NULL else mt_ptr (ts ! k), h')
    \<and> becomes (MT p al xs ts) h (MT p al xs ts) (Meta nm c ps ms) h'
    \<and> k \<le> length ts \<and> n \<notin> me_name ` set (take k ms) \<and> (k < length ts \<longrightarrow> me_name (ms ! k) = n)
    \<and> iterating p (Some n) (map mt_ptr (take k ts)) (map mt_ptr (drop k ts)) h' \<and> walked {p} h h'"
proof -
  note T' = T [unfolded tree_in_MT]
  have len: "length ts = length ms" using T' by (auto dest: list_all2_lengthD)
  let ?k = "length (takeWhile (\<lambda>m. me_name m \<noteq> n) ms)"
  let ?cs = "map mt_ptr ts"
  have "list_all2 (\<lambda>t m. name_matches (Some n) h (mt_ptr t) \<longleftrightarrow> me_name m = n) ts ms"
    using tree_named(2) [OF T, of "Some n"] assms(2) by (auto elim!: list.rel_mono_strong)
  then have "dropWhile (\<lambda>t. \<not> name_matches (Some n) h (mt_ptr t)) ts = drop ?k ts" by (rule dropWhile_zip)
  then have ws: "dropWhile (\<lambda>c. \<not> name_matches (Some n) h c) ?cs = map mt_ptr (drop ?k ts)"
    by (simp add: dropWhile_map comp_def)
  obtain md where md: "h_mds h p = Some md" using T' by auto
  obtain us h' where h': "metadata_get p (Some n) h = Some (if drop ?k ts = [] then NULL else hd (map mt_ptr (drop ?k ts)), h')"
    "us @ map mt_ptr (drop ?k ts) = ?cs" "iterating p (Some n) us (map mt_ptr (drop ?k ts)) h'" "same_tree h h'"
    using metadata_get_starts [of h p ?cs md "Some n"] T' md tree_named(1) [OF T] unfolding ws by auto
  have k: "?k \<le> length ts" "?k < length ts \<Longrightarrow> me_name (ms ! ?k) = n"
    using len length_takeWhile_le [of _ ms] nth_length_takeWhile [of "\<lambda>m. me_name m \<noteq> n" ms] by auto
  have "us @ map mt_ptr (drop ?k ts) = map mt_ptr (take ?k ts) @ map mt_ptr (drop ?k ts)"
    using h'(2) by (simp flip: map_append)
  then have us: "us = map mt_ptr (take ?k ts)" by (simp only: append_same_eq)
  have "take ?k ms = takeWhile (\<lambda>m. me_name m \<noteq> n) ms" by (simp add: takeWhile_eq_take [symmetric])
  then have "n \<notin> me_name ` set (take ?k ms)" by (auto dest: set_takeWhileD)
  moreover have wk: "walked {p} h h'" using get_set_md [OF h'(1)] T' h'(4) by (intro set_md_walked) blast+
  then have "becomes (MT p al xs ts) h (MT p al xs ts) (Meta nm c ps ms) h'" by (rule walked_becomes [OF _ _ T]) simp
  moreover have "(if drop ?k ts = [] then NULL else hd (map mt_ptr (drop ?k ts))) = (if ?k = length ts then NULL else mt_ptr (ts ! ?k))"
    using k(1) by (auto simp: hd_map hd_drop_conv_nth)
  ultimately show ?thesis using h'(1,3) k us wk by (intro exI [of _ ?k] exI [of _ h']) simp
qed

text \<open>A change of that child.\<close>

lemma child_becomes:
  assumes T: "tree_in h (MT p al xs ts) (Meta nm c ps ms)" "k < length ts" "becomes (ts ! k) h u w h'"
  shows "becomes (MT p al xs ts) h (MT p al xs (take k ts @ u # drop (Suc k) ts)) (Meta nm c ps (take k ms @ w # drop (Suc k) ms)) h'"
proof -
  have len: "length ts = length ms" using T(1) by (auto simp: tree_in_MT dest: list_all2_lengthD)
  have e: "take k ts @ ts ! k # drop (Suc k) ts = ts" "take k ms @ ms ! k # drop (Suc k) ms = ms"
    using T(2) len by (simp_all add: id_take_nth_drop [symmetric])
  show ?thesis using tree_in_sub [of h p al xs "take k ts" "ts ! k" "drop (Suc k) ts" nm c ps "take k ms" "ms ! k" "drop (Suc k) ms" u w h'] T len
    unfolding e by simp
qed

lemma with_child_found:
  assumes "n \<notin> me_name ` set (take k ms)" "k < length ms" "me_name (ms ! k) = n"
  shows "with_child n f ms = take k ms @ f (ms ! k) # drop (Suc k) ms"
  using with_child_old [OF assms(1,3), of f "drop (Suc k) ms"] assms(2) by (simp add: id_take_nth_drop [symmetric])

text \<open>The first child with the name is found or made, and then changed.\<close>

lemma with_child_tree:
  fixes h :: "'z mheap_scheme"
  assumes T: "tree_in h (MT p al xs ts) (Meta nm c ps ms)" and "n \<noteq> []"
    and op: "\<And>u w h. tree_in h u w \<Longrightarrow> me_name w = n \<Longrightarrow> mheap.more h = e \<Longrightarrow> \<exists>h' u'. op (mt_ptr u) h = Some (h' :: 'z mheap_scheme) \<and> becomes u h u' (f w) h'"
    and e: "mheap.more h = e"
  shows "\<exists>m h1 h' ts'. do { (m, h) \<leftarrow> metadata_get p (Some n) h; if m \<noteq> NULL then Some (m, h) else metadata_new (Some n) None p h } = Some (m, h1)
    \<and> m \<noteq> NULL \<and> op m h1 = Some h' \<and> becomes (MT p al xs ts) h (MT p al xs ts') (Meta nm c ps (with_child n f ms)) h'"
proof -
  obtain k h1 where g: "metadata_get p (Some n) h = Some (if k = length ts then NULL else mt_ptr (ts ! k), h1)"
    "becomes (MT p al xs ts) h (MT p al xs ts) (Meta nm c ps ms) h1" "k \<le> length ts" "n \<notin> me_name ` set (take k ms)"
    "k < length ts \<longrightarrow> me_name (ms ! k) = n"
    using find_child [OF T assms(2)] by blast
  have T1: "tree_in h1 (MT p al xs ts) (Meta nm c ps ms)" "mheap.more h1 = e" using g(2) e by (simp_all add: becomes_def grows_def)
  have len: "length ts = length ms" using T by (auto simp: tree_in_MT dest: list_all2_lengthD)
  show ?thesis
  proof (cases "k = length ts")
    case True
    let ?u = "MT (h_brk h1) (h_brk h1 + 4) [] []"
    obtain h2 where h2: "metadata_new (Some n) None p h1 = Some (h_brk h1, h2)" "h_brk h1 \<noteq> NULL"
      "becomes (MT p al xs ts) h1 (MT p al xs (ts @ [?u])) (Meta nm c ps (ms @ [Meta n None [] []])) h2"
      using metadata_new_child [OF T1(1)] by blast
    have T2: "tree_in h2 (MT p al xs (ts @ [?u])) (Meta nm c ps (ms @ [Meta n None [] []]))" "mheap.more h2 = e"
      using h2(3) T1(2) by (simp_all add: becomes_def grows_def)
    have "tree_in h2 ?u (Meta n None [] [])" using tree_in_child [OF T2(1), of "length ts"] len by (simp add: nth_append)
    then obtain h' u' where h': "op (h_brk h1) h2 = Some h'" "becomes ?u h2 u' (f (Meta n None [] [])) h'"
      using op [of h2 ?u "Meta n None [] []"] T2(2) by auto
    then have "becomes (MT p al xs (ts @ [?u])) h2 (MT p al xs (ts @ [u'])) (Meta nm c ps (ms @ [f (Meta n None [] [])])) h'"
      using child_becomes [OF T2(1), of "length ts" u'] len by (simp add: nth_append)
    then have "becomes (MT p al xs ts) h (MT p al xs (ts @ [u'])) (Meta nm c ps (with_child n f ms)) h'"
      using becomes_trans [OF becomes_trans [OF g(2) h2(3)]] with_child_new [of n ms f] g(4) True len by simp
    then show ?thesis using g(1) True h2(1,2) h'(1) by (intro exI [of _ "h_brk h1"] exI [of _ h2] exI [of _ h'] exI [of _ "ts @ [u']"]) simp
  next
    case False
    then have k: "k < length ts" using g(3) by simp
    have tk: "tree_in h1 (ts ! k) (ms ! k)" by (rule tree_in_child [OF T1(1) k])
    obtain h' u' where h': "op (mt_ptr (ts ! k)) h1 = Some h'" "becomes (ts ! k) h1 u' (f (ms ! k)) h'"
      using op [OF tk _ T1(2)] g(5) k by auto
    have "becomes (MT p al xs ts) h (MT p al xs (take k ts @ u' # drop (Suc k) ts)) (Meta nm c ps (with_child n f ms)) h'"
      using becomes_trans [OF g(2) child_becomes [OF T1(1) k h'(2)]] with_child_found [OF g(4)] g(5) k len by simp
    then show ?thesis using g(1) False h'(1) tree_in_ptr [OF tk]
      by (intro exI [of _ "mt_ptr (ts ! k)"] exI [of _ h1] exI [of _ h'] exI [of _ "take k ts @ u' # drop (Suc k) ts"]) simp
  qed
qed

section \<open>Removing children during the iteration\<close>

lemma free_child_tree:
  assumes T: "tree_in h (MT p al xs (as @ b # bs)) (Meta nm c ps (ams @ m # bms))" "length ams = length as"
  shows "\<exists>h'. metadata_free (mt_ptr b) h = Some h' \<and> changed (MT p al xs (as @ b # bs)) h (MT p al xs (as @ bs)) (Meta nm c ps (ams @ bms)) h'
    \<and> h_mds h' p = h_mds h p"
proof -
  note T' = T(1) [unfolded tree_in_MT]
  let ?A = "set (children p # map mt_ptr as @ map mt_ptr bs)"
  have "list_all2 (holds h) (as @ b # bs) (ams @ m # bms)" "distinct (owned (MT p al xs (as @ b # bs)))" using T' by blast+
  then have H: "list_all2 (holds h) as ams" "holds h b m" "list_all2 (holds h) bs bms"
    and d: "distinct (p # children p # al # xs @ concat (map owned (as @ bs)) @ owned b)"
    using T(2) by (simp_all add: list_all2_append) blast
  have sub: "?A \<subseteq> insert (children p) (set (concat (map owned (as @ bs))))" using mt_ptrs_owned [of "as @ bs"] by auto
  have D: "distinct (owned b)" "?A \<inter> set (owned b) = {}" "p \<notin> ?A \<union> set (owned b)" "set (al # xs) \<inter> (?A \<union> set (owned b)) = {}"
  proof -
    let ?O = "set (concat (map owned (as @ bs)))"
    have dd: "?O \<inter> set (owned b) = {}" "children p \<notin> ?O \<union> set (owned b)" "p \<notin> insert (children p) ?O \<union> set (owned b)"
      "set (al # xs) \<inter> (insert (children p) ?O \<union> set (owned b)) = {}" "distinct (owned b)"
      using d by (auto simp del: concat_append map_append)
    show "?A \<inter> set (owned b) = {}" "p \<notin> ?A \<union> set (owned b)" "set (al # xs) \<inter> (?A \<union> set (owned b)) = {}" "distinct (owned b)"
      using sub dd by blast+
  qed
  obtain h' where h': "metadata_free (mt_ptr b) h = Some h'" "ring (h_links h') (children p) (map mt_ptr as @ map mt_ptr bs)" "released ?A [b] h h'"
    using metadata_free_child [OF holds_shaped [OF H(2)] D(1), of p "map mt_ptr as" "map mt_ptr bs"] T' D(2) by auto
  have out: "h_links h' q = h_links h q" if "q \<notin> ?A \<union> set (owned b)" for q using released_links(1) [OF h'(3), of q] that by auto
  have obj: "h_attrs h' q = h_attrs h q \<and> h_alists h' q = h_alists h q \<and> h_mds h' q = h_mds h q" if "q \<notin> set (owned b)" for q
    using released_objects [OF h'(3), of q] that by auto
  have big: "insert (children p) (set (concat (map owned (as @ bs)))) \<union> set (owned b) \<subseteq> set (owned (MT p al xs (as @ b # bs)))" by auto
  then have inside: "?A \<union> set (owned b) \<subseteq> set (owned (MT p al xs (as @ b # bs)))" using sub by blast
  then have below: "q < h_brk h" if "q \<in> ?A \<union> set (owned b)" for q using that T' by blast
  have null: "NULL \<notin> ?A" using h'(2) by (auto simp: ring_def)
  have frame: "h_brk h' = h_brk h" "h_mem h' = []" "mheap.more h' = mheap.more h" using h'(3) T' by (simp_all add: released_def)
  have "wf_heap h'"
  proof -
    have l: "h_links h' q = None" if "h_links h q = None" "q \<notin> ?A" for q
      using out [of q] released_links(2) [OF h'(3), of q] that by auto
    moreover have "h_attrs h' q = None" if "h_attrs h q = None" for q using h'(3) that by (auto simp: released_def restrict_map_def)
    moreover have "h_alists h' q = None" if "h_alists h q = None" for q using h'(3) that by (auto simp: released_def restrict_map_def)
    moreover have "q \<notin> ?A" if "h_brk h \<le> q" for q using below [of q] that by auto
    ultimately show ?thesis using T' null unfolding wf_heap_def frame(1) by blast
  qed
  moreover have "alist h' al xs (map plain_attr ps)"
  proof (rule alist_cong [of h])
    show "h_links h' q = h_links h q" if "q \<in> set (al # xs)" for q using out [of q] D(4) that by blast
    show "h_attrs h' q = h_attrs h q" if "q \<in> set xs" for q using obj [of q] D(4) that by auto
    show "h_alists h' al = h_alists h al" using obj [of al] D(4) by auto
  qed (use T' in blast)
  moreover have "holds h' u w" if u: "u \<in> set (as @ bs)" "holds h u w" for u w
  proof (rule holds_cong [OF u(2)])
    have du: "distinct (concat (map owned (as @ bs)))" using d by (simp only: distinct.simps distinct_append)
    show "distinct (owned u)" using distinct_owned [OF du u(1)] .
    have "q \<notin> ?A \<union> set (owned b)" if q: "q \<in> set (owned u) - {mt_ptr u}" for q
    proof -
      have "mt_ptr r \<noteq> q" if "r \<in> set (as @ bs)" for r using same_tree_owner [of "as @ bs" r u q] du q u(1) that by auto
      moreover have "q \<in> set (concat (map owned (as @ bs)))" using q u(1) by auto
      ultimately show ?thesis using d by auto
    qed
    moreover have "q \<notin> set (owned b)" if "q \<in> set (owned u)" for q
      using d u(1) that by auto
    ultimately show "agree (set (owned u) - {mt_ptr u}) (set (owned u)) h h'" unfolding agree_def using out obj by simp
  qed
  then have "list_all2 (holds h') (as @ bs) (ams @ bms)"
    using H(1,3) by (auto intro!: list_all2_appendI elim!: list.rel_mono_strong)
  moreover have p: "h_mds h' p = h_mds h p" using obj [of p] D(3) by blast
  moreover have ob: "set (owned (MT p al xs (as @ bs))) \<subseteq> set (owned (MT p al xs (as @ b # bs)))" by auto
  then have "\<forall>q \<in> set (owned (MT p al xs (as @ bs))). q < h_brk h" using T' by blast
  moreover have "distinct (owned (MT p al xs (as @ bs)))" using d by auto
  ultimately have "tree_in h' (MT p al xs (as @ bs)) (Meta nm c ps (ams @ bms))"
    using T' frame h'(2) unfolding tree_in_MT by (simp del: owned.simps)
  moreover have "q \<notin> ?A \<union> set (owned b)" if "q \<notin> set (owned (MT p al xs (as @ b # bs)))" for q using inside that by blast
  moreover have "h_links h' p = h_links h p" using out D(3) by blast
  moreover have "h_links h' q = None \<or> q \<notin> set (owned (MT p al xs (as @ b # bs))) \<and> h_links h' q = h_links h q"
    if "q \<notin> set (owned (MT p al xs (as @ bs)))" for q
  proof (cases "q \<in> set (owned b)")
    case True
    then show ?thesis using released_links(2) [OF h'(3), of q] by simp
  next
    case False
    moreover have "q \<notin> ?A" using sub that by auto
    moreover have "q \<notin> set (owned (MT p al xs (as @ b # bs)))" using that False by auto
    ultimately show ?thesis using out [of q] by blast
  qed
  ultimately have "changed (MT p al xs (as @ b # bs)) h (MT p al xs (as @ bs)) (Meta nm c ps (ams @ bms)) h'"
    unfolding changed_def mtree.sel using frame out obj ob by (simp del: owned.simps) blast
  then show ?thesis using h'(1) p by blast
qed

text \<open>The loop over the children with a name, whose body releases the child it has come to.\<close>

lemma iterating_md:
  assumes "iterating m name us (c # rest) h"
  obtains md where "h_mds h m = Some md" "it_head md = children m" "it_name md = search_name name" "it_pos md = c"
    "it_tmp md = hd (rest @ [children m])" "c \<noteq> children m"
proof -
  have r: "ring (h_links h) (children m) (us @ c # rest)" using assms by (simp add: iterating_def)
  then have "c \<noteq> children m" using ring_hd_neq [of _ _ us "c # rest"] by simp
  then show ?thesis using assms ring_next [OF r] that by (auto simp: iterating_def)
qed

lemma remove_loop:
  fixes h :: "'z mheap_scheme"
  assumes nil: "\<And>h. L NULL h = Some (h :: 'z mheap_scheme)"
    and cons: "\<And>c h. c \<noteq> NULL \<Longrightarrow> L c h = do { h \<leftarrow> metadata_free c h; (c, h) \<leftarrow> metadata_get_next p h; L c h }"
    and "n \<noteq> []"
  shows "tree_in h (MT p al xs (as @ bs)) (Meta nm c ps (ams @ bms)) \<Longrightarrow> length ams = length as
    \<Longrightarrow> iterating p (Some n) (map mt_ptr as) (map mt_ptr bs) h \<Longrightarrow> (bs = [] \<or> me_name (hd bms) = n)
    \<Longrightarrow> \<exists>h' ts'. L (if bs = [] then NULL else mt_ptr (hd bs)) h = Some h'
      \<and> changed (MT p al xs (as @ bs)) h (MT p al xs ts') (Meta nm c ps (ams @ filter (\<lambda>m. me_name m \<noteq> n) bms)) h'"
proof (induction "length bs" arbitrary: as ams bs bms h rule: less_induct)
  case less
  have "list_all2 (holds h) (as @ bs) (ams @ bms)" using less.prems(1) by (simp add: tree_in_MT)
  then have len: "length bs = length bms" using less.prems(2) by (auto dest: list_all2_lengthD)
  show ?case
  proof (cases bs)
    case Nil
    then show ?thesis using less.prems(1) nil len becomes_changed [OF becomes_refl [OF less.prems(1)]] by auto
  next
    case (Cons b rest)
    then obtain m rms where bms: "bms = m # rms" using len by (cases bms) auto
    have m: "me_name m = n" using less.prems(4) Cons bms by simp
    have p: "p \<noteq> NULL" using less.prems(1) by (simp add: tree_in_MT)
    have T: "tree_in h (MT p al xs (as @ b # rest)) (Meta nm c ps (ams @ m # rms))" using less.prems(1) Cons bms by simp
    have b: "mt_ptr b \<noteq> NULL"
      using tree_in_ptr [OF tree_in_child [OF T, of "length as"]] by (simp add: nth_append)
    obtain h1 where h1: "metadata_free (mt_ptr b) h = Some h1" "h_mds h1 p = h_mds h p"
      "changed (MT p al xs (as @ b # rest)) h (MT p al xs (as @ rest)) (Meta nm c ps (ams @ rms)) h1"
      using free_child_tree [OF T less.prems(2)] by blast
    have T1: "tree_in h1 (MT p al xs (as @ rest)) (Meta nm c ps (ams @ rms))" using h1(3) by (simp add: changed_def)
    obtain md where md: "h_mds h p = Some md" "it_head md = children p" "it_name md = search_name (Some n)" "it_pos md = mt_ptr b"
      "it_tmp md = hd (map mt_ptr rest @ [children p])" "mt_ptr b \<noteq> children p"
      using iterating_md [of p "Some n" "map mt_ptr as" "mt_ptr b" "map mt_ptr rest" h] less.prems(3) Cons by auto
    let ?k = "length (takeWhile (\<lambda>m. me_name m \<noteq> n) rms)"
    have lr: "length rest = length rms" using len Cons bms by simp
    have "list_all2 (\<lambda>t m. name_matches (Some n) h1 (mt_ptr t) \<longleftrightarrow> me_name m = n) (as @ rest) (ams @ rms)"
      using tree_named(2) [OF T1, of "Some n"] assms(3) by (auto elim!: list.rel_mono_strong)
    then have "list_all2 (\<lambda>t m. name_matches (Some n) h1 (mt_ptr t) \<longleftrightarrow> me_name m = n) rest rms"
      using less.prems(2) by (simp add: list_all2_append)
    then have "dropWhile (\<lambda>t. \<not> name_matches (Some n) h1 (mt_ptr t)) rest = drop ?k rest" by (rule dropWhile_zip)
    then have ws: "dropWhile (\<lambda>c. \<not> name_matches (Some n) h1 c) (map mt_ptr rest) = map mt_ptr (drop ?k rest)"
      by (simp add: dropWhile_map comp_def)
    obtain us h2 where h2: "metadata_get_next p h1 = Some (if drop ?k rest = [] then NULL else mt_ptr (hd (drop ?k rest)), h2)"
      "us @ map mt_ptr (drop ?k rest) = map mt_ptr as @ map mt_ptr rest" "iterating p (Some n) us (map mt_ptr (drop ?k rest)) h2" "same_tree h1 h2"
      using metadata_get_next_pending [of h1 p "map mt_ptr as" "map mt_ptr rest" "mt_ptr b" md "Some n"] md h1(2) T1 p tree_named(1) [OF T1]
      unfolding ws by (auto simp: tree_in_MT hd_map)
    have "us @ map mt_ptr (drop ?k rest) = map mt_ptr (as @ take ?k rest) @ map mt_ptr (drop ?k rest)"
      using h2(2) by (simp flip: map_append)
    then have us: "us = map mt_ptr (as @ take ?k rest)" by (simp only: append_same_eq)
    have "walked {p} h1 h2" by (rule set_md_walked [OF get_next_set_md [OF h2(1)] h2(4)])
    then have B: "becomes (MT p al xs (as @ rest)) h1 (MT p al xs (as @ rest)) (Meta nm c ps (ams @ rms)) h2"
      by (rule walked_becomes [OF _ _ T1]) simp
    then have T2: "tree_in h2 (MT p al xs ((as @ take ?k rest) @ drop ?k rest)) (Meta nm c ps ((ams @ take ?k rms) @ drop ?k rms))"
      by (simp add: becomes_def)
    have k: "drop ?k rest = [] \<or> me_name (hd (drop ?k rms)) = n"
      using nth_length_takeWhile [of "\<lambda>m. me_name m \<noteq> n" rms] lr by (cases "?k < length rms") (auto simp: hd_drop_conv_nth)
    have "length (drop ?k rest) < length bs" using Cons by simp
    then obtain h' ts' where h': "L (if drop ?k rest = [] then NULL else mt_ptr (hd (drop ?k rest))) h2 = Some h'"
      "changed (MT p al xs ((as @ take ?k rest) @ drop ?k rest)) h2 (MT p al xs ts')
        (Meta nm c ps ((ams @ take ?k rms) @ filter (\<lambda>m. me_name m \<noteq> n) (drop ?k rms))) h'"
      using less.hyps [OF _ T2 _ _ k] less.prems(2) h2(3) us lr by auto
    have "take ?k rms @ filter (\<lambda>m. me_name m \<noteq> n) (drop ?k rms) = filter (\<lambda>m. me_name m \<noteq> n) rms"
    proof -
      have "filter (\<lambda>m. me_name m \<noteq> n) (take ?k rms) = take ?k rms"
        by (metis filter_True takeWhile_eq_take set_takeWhileD)
      then show ?thesis by (metis append_take_drop_id filter_append)
    qed
    then have "changed (MT p al xs (as @ b # rest)) h (MT p al xs ts') (Meta nm c ps (ams @ filter (\<lambda>m. me_name m \<noteq> n) bms)) h'"
      using changed_trans [OF changed_trans [OF h1(3) becomes_changed [OF B]]] h'(2) bms m by simp
    then show ?thesis using cons [OF b] h1(1) h2(1) h'(1) Cons by auto
  qed
qed

text \<open>\<open>metadata_get\<close> and the loop remove every child with the name.\<close>

lemma remove_children:
  fixes h :: "'z mheap_scheme"
  assumes nil: "\<And>h. L NULL h = Some (h :: 'z mheap_scheme)"
    and cons: "\<And>c h. c \<noteq> NULL \<Longrightarrow> L c h = do { h \<leftarrow> metadata_free c h; (c, h) \<leftarrow> metadata_get_next p h; L c h }"
    and "n \<noteq> []" and T: "tree_in h (MT p al xs ts) (Meta nm c ps ms)"
  shows "\<exists>h' ts'. do { (c, h) \<leftarrow> metadata_get p (Some n) h; L c h } = Some h'
    \<and> changed (MT p al xs ts) h (MT p al xs ts') (Meta nm c ps (filter (\<lambda>m. me_name m \<noteq> n) ms)) h'"
proof -
  have len: "length ts = length ms" using T by (auto simp: tree_in_MT dest: list_all2_lengthD)
  obtain k h1 where g: "metadata_get p (Some n) h = Some (if k = length ts then NULL else mt_ptr (ts ! k), h1)"
    "becomes (MT p al xs ts) h (MT p al xs ts) (Meta nm c ps ms) h1" "k \<le> length ts" "n \<notin> me_name ` set (take k ms)"
    "k < length ts \<longrightarrow> me_name (ms ! k) = n" "iterating p (Some n) (map mt_ptr (take k ts)) (map mt_ptr (drop k ts)) h1"
    using find_child [OF T assms(3)] by blast
  have T1: "tree_in h1 (MT p al xs (take k ts @ drop k ts)) (Meta nm c ps (take k ms @ drop k ms))" using g(2) by (simp add: becomes_def)
  have "drop k ts = [] \<or> me_name (hd (drop k ms)) = n" using g(3,5) len by (cases "k < length ts") (auto simp: hd_drop_conv_nth)
  then obtain h' ts' where h': "L (if drop k ts = [] then NULL else mt_ptr (hd (drop k ts))) h1 = Some h'"
    "changed (MT p al xs (take k ts @ drop k ts)) h1 (MT p al xs ts') (Meta nm c ps (take k ms @ filter (\<lambda>m. me_name m \<noteq> n) (drop k ms))) h'"
    using remove_loop [OF nil cons assms(3) T1 _ g(6)] len by auto
  have "filter (\<lambda>m. me_name m \<noteq> n) (take k ms) = take k ms" using g(4) by (auto intro: filter_True)
  then have "take k ms @ filter (\<lambda>m. me_name m \<noteq> n) (drop k ms) = filter (\<lambda>m. me_name m \<noteq> n) ms" by (metis append_take_drop_id filter_append)
  then have "changed (MT p al xs ts) h (MT p al xs ts') (Meta nm c ps (filter (\<lambda>m. me_name m \<noteq> n) ms)) h'"
    using changed_trans [OF becomes_changed [OF g(2)]] h'(2) by simp
  moreover have "(if k = length ts then NULL else mt_ptr (ts ! k)) = (if drop k ts = [] then NULL else mt_ptr (hd (drop k ts)))"
    using g(3) by (auto simp: hd_drop_conv_nth)
  ultimately show ?thesis using g(1) h'(1) by (intro exI [of _ h'] exI [of _ ts']) simp
qed

end
