(* ===== verification/Dataobject_Roundtrip.thy ===== *)
theory Dataobject_Roundtrip
  imports Dataobject_Raw Metadata_Edit
begin

text \<open>
  The way of a data object through its text form: \<open>haggle_dataobject_to_metadata\<close> refines an operation on trees of values, writing is
  repeatable, and what is written with \<open>haggle_dataobject_get_raw\<close> and parsed with \<open>haggle_dataobject_new_from_raw\<close> is the same object with the
  same identifier.
\<close>

section \<open>The metadata of a data object\<close>

definition set_content :: "string \<Rightarrow> meta \<Rightarrow> meta" where
  "set_content s m = Meta (me_name m) (Some s) (me_params m) (me_subs m)"

definition opt_child :: "string \<Rightarrow> string option \<Rightarrow> meta list \<Rightarrow> meta list" where
  "opt_child n c ms = (case c of None \<Rightarrow> ms | Some s \<Rightarrow> with_child n (set_content s) ms)"

definition hash_text :: "dataobject \<Rightarrow> string option" where
  "hash_text d = (if d_hash_str d = None then None else Some (c_string (base64_encode (map char_of_byte (d_hash d)) 29)))"

definition data_subs :: "dataobject \<Rightarrow> meta list \<Rightarrow> meta list" where
  "data_subs d ms = opt_child ''FilePath'' (d_filepath d) (opt_child ''Thumbnail'' (d_thumbnail_str d)
     (opt_child ''FileHash'' (hash_text d) (opt_child ''FileName'' (d_filename d) ms)))"

definition data_meta :: "dataobject \<Rightarrow> meta \<Rightarrow> meta" where
  "data_meta d m = Meta (me_name m) (me_content m) (put_param (me_params m) ''data_len'' (take 19 (digits (unat (d_datalen d)))))
     (data_subs d (me_subs m))"

definition attr_meta :: "attribute \<Rightarrow> meta" where
  "attr_meta a = Meta ''Attr'' (attr_value a)
     ((''name'', the (attr_name a)) # (if attr_weight a = 0 then [] else [(''weight'', digits (unat (attr_weight a)))])) []"

definition root_params :: "dataobject \<Rightarrow> (string \<times> string) list \<Rightarrow> (string \<times> string) list" where
  "root_params d ps =
     (let ps = put_param ps ''persistent'' (if d_flags d AND DATAOBJECT_FLAG_PERSISTENT \<noteq> 0 then ''yes'' else ''no'') in
      if d_sec d = 0 then ps else put_param ps ''create_time'' (createtime_text (d_sec d) (d_usec d)))"

definition to_meta :: "dataobject \<times> attribute list \<Rightarrow> meta \<Rightarrow> meta" where
  "to_meta s v =
     (let (d, vs) = s;
          ms = (if d_filepath d \<noteq> None \<or> d_datalen d > 0 then with_child ''Data'' (data_meta d) (me_subs v) else me_subs v) in
      Meta (me_name v) (me_content v) (root_params d (me_params v)) (filter (\<lambda>m. me_name m \<noteq> ''Attr'') ms @ map attr_meta vs))"

section \<open>The conversion in memory\<close>

lemma set_child_tree:
  fixes h :: "'z dheap_scheme"
  assumes T: "tree_in h (MT p al xs ts) (Meta nm c ps ms)" and "n \<noteq> []"
  shows "\<exists>h' ts'. set_child p n s h = Some h' \<and> becomes (MT p al xs ts) h (MT p al xs ts') (Meta nm c ps (with_child n (set_content s) ms)) h'"
proof -
  obtain k h1 where g: "metadata_get p (Some n) h = Some (if k = length ts then NULL else mt_ptr (ts ! k), h1)"
    "becomes (MT p al xs ts) h (MT p al xs ts) (Meta nm c ps ms) h1" "k \<le> length ts" "n \<notin> me_name ` set (take k ms)"
    "k < length ts \<longrightarrow> me_name (ms ! k) = n"
    using find_child [OF T assms(2)] by blast
  have T1: "tree_in h1 (MT p al xs ts) (Meta nm c ps ms)" using g(2) by (simp add: becomes_def)
  have len: "length ts = length ms" using T by (auto simp: tree_in_MT dest: list_all2_lengthD)
  show ?thesis
  proof (cases "k = length ts")
    case True
    obtain h2 where h2: "metadata_new (Some n) (Some s) p h1 = Some (h_brk h1, h2)"
      "becomes (MT p al xs ts) h1 (MT p al xs (ts @ [MT (h_brk h1) (h_brk h1 + 4) [] []])) (Meta nm c ps (ms @ [Meta n (Some s) [] []])) h2"
      using metadata_new_child [OF T1] by blast
    have "with_child n (set_content s) ms = ms @ [Meta n (Some s) [] []]" using with_child_new [of n ms] g(4) True len by (simp add: set_content_def)
    then show ?thesis using g(1) True h2(1) becomes_trans [OF g(2) h2(2)] by (auto simp: set_child_def)
  next
    case False
    then have k: "k < length ts" using g(3) by simp
    have tk: "tree_in h1 (ts ! k) (ms ! k)" by (rule tree_in_child [OF T1 k])
    obtain q qa qs qts qn qc qps qms where e: "ts ! k = MT q qa qs qts" "ms ! k = Meta qn qc qps qms" by (cases "ts ! k"; cases "ms ! k")
    obtain h2 where h2: "metadata_set_content q (Some s) h1 = Some (Some s, h2)" "becomes (ts ! k) h1 (ts ! k) (set_content s (ms ! k)) h2"
      using set_content_tree [of h1 q qa qs qts qn qc qps qms s] tk unfolding e set_content_def meta.sel by blast
    have "with_child n (set_content s) ms = take k ms @ set_content s (ms ! k) # drop (Suc k) ms"
      using with_child_found [OF g(4)] g(5) k len by simp
    then show ?thesis
      using g(1) False h2(1) becomes_trans [OF g(2) child_becomes [OF T1 k h2(2)]] tree_in_ptr [OF tk]
      by (intro exI [of _ h2] exI [of _ "take k ts @ ts ! k # drop (Suc k) ts"]) (simp add: set_child_def e)
  qed
qed

lemma set_child_opt_tree:
  fixes h :: "'z dheap_scheme"
  assumes "tree_in h (MT p al xs ts) (Meta nm c ps ms)" "n \<noteq> []"
  shows "\<exists>h' ts'. set_child_opt p n s h = Some h' \<and> becomes (MT p al xs ts) h (MT p al xs ts') (Meta nm c ps (opt_child n s ms)) h'"
  using set_child_tree [OF assms] becomes_refl [OF assms(1)] by (cases s) (auto simp: set_child_opt_def opt_child_def)

text \<open>The element \<open>Data\<close>.\<close>

definition data_fields :: "dataobject \<Rightarrow> ptr \<Rightarrow> 'z dheap_scheme \<Rightarrow> 'z dheap_scheme option" where
  "data_fields d md h =
     do {
       (_, h) \<leftarrow> metadata_set_parameter md (Some ''data_len'') (Some (take 19 (digits (unat (d_datalen d))))) h;
       h \<leftarrow> set_child_opt md ''FileName'' (d_filename d) h;
       h \<leftarrow> set_child_opt md ''FileHash'' (hash_text d) h;
       h \<leftarrow> set_child_opt md ''Thumbnail'' (d_thumbnail_str d) h;
       set_child_opt md ''FilePath'' (d_filepath d) h
     }"

lemma data_fields_tree:
  fixes h :: "'z dheap_scheme"
  assumes "tree_in h u w"
  shows "\<exists>h' u'. data_fields d (mt_ptr u) h = Some h' \<and> becomes u h u' (data_meta d w) h'"
proof -
  obtain p al xs ts nm c ps ms where e: "u = MT p al xs ts" "w = Meta nm c ps ms" by (cases u; cases w)
  let ?ps = "put_param ps ''data_len'' (take 19 (digits (unat (d_datalen d))))"
  obtain r h1 xs1 where 1: "metadata_set_parameter p (Some ''data_len'') (Some (take 19 (digits (unat (d_datalen d))))) h = Some (r, h1)"
    "becomes u h (MT p al xs1 ts) (Meta nm c ?ps ms) h1"
    using set_parameter_tree [of h p al xs ts nm c ps ms] assms unfolding e by blast
  have step: "\<exists>h'' ts''. set_child_opt p n s h' = Some h'' \<and> becomes u h (MT p al xs1 ts'') (Meta nm c ?ps (opt_child n s ms')) h''"
    if "becomes u h (MT p al xs1 ts') (Meta nm c ?ps ms') h'" "n \<noteq> []" for h' ts' ms' n s
  proof -
    have "tree_in h' (MT p al xs1 ts') (Meta nm c ?ps ms')" using that(1) by (simp add: becomes_def)
    then show ?thesis using set_child_opt_tree [OF _ that(2), of h' p al xs1 ts' nm c ?ps ms' s] becomes_trans [OF that(1)] by blast
  qed
  obtain h2 ts2 where 2: "set_child_opt p ''FileName'' (d_filename d) h1 = Some h2"
    "becomes u h (MT p al xs1 ts2) (Meta nm c ?ps (opt_child ''FileName'' (d_filename d) ms)) h2" using step [OF 1(2)] by blast
  obtain h3 ts3 where 3: "set_child_opt p ''FileHash'' (hash_text d) h2 = Some h3"
    "becomes u h (MT p al xs1 ts3) (Meta nm c ?ps (opt_child ''FileHash'' (hash_text d) (opt_child ''FileName'' (d_filename d) ms))) h3"
    using step [OF 2(2)] by blast
  obtain h4 ts4 where 4: "set_child_opt p ''Thumbnail'' (d_thumbnail_str d) h3 = Some h4"
    "becomes u h (MT p al xs1 ts4) (Meta nm c ?ps (opt_child ''Thumbnail'' (d_thumbnail_str d)
       (opt_child ''FileHash'' (hash_text d) (opt_child ''FileName'' (d_filename d) ms)))) h4"
    using step [OF 3(2)] by blast
  obtain h5 ts5 where 5: "set_child_opt p ''FilePath'' (d_filepath d) h4 = Some h5"
    "becomes u h (MT p al xs1 ts5) (Meta nm c ?ps (data_subs d ms)) h5"
    using step [OF 4(2)] unfolding data_subs_def by blast
  have "data_fields d p h = Some h5" using 1(1) 2(1) 3(1) 4(1) 5(1) by (simp add: data_fields_def)
  moreover have "data_meta d w = Meta nm c ?ps (data_subs d ms)" by (simp add: data_meta_def e)
  ultimately show ?thesis using 5(2) e by auto
qed

lemma data_child_tree:
  fixes h :: "'z dheap_scheme"
  assumes T: "tree_in h (MT m al xs ts) (Meta nm c ps ms)" and "h_dobjs h p = Some d" "d_m d = m"
  shows "\<exists>h' ts'. data_child p h = Some (True, h')
    \<and> becomes (MT m al xs ts) h (MT m al xs ts') (Meta nm c ps (with_child ''Data'' (data_meta d) ms)) h'"
proof -
  obtain md h1 h' ts' where h': "do { (md, h) \<leftarrow> metadata_get m (Some ''Data'') h; if md \<noteq> NULL then Some (md, h) else metadata_new (Some ''Data'') None m h }
      = Some (md, h1)" "md \<noteq> NULL" "data_fields d md h1 = Some h'"
    "becomes (MT m al xs ts) h (MT m al xs ts') (Meta nm c ps (with_child ''Data'' (data_meta d) ms)) h'"
    using with_child_tree [OF T, of "''Data''" "mheap.more h" "data_fields d" "data_meta d"] data_fields_tree by blast
  have hash: "set_child_opt q ''FileHash'' (hash_text d) h
    = (if d_hash_str d = None then Some h else set_child q ''FileHash'' (c_string (base64_encode (map char_of_byte (d_hash d)) 29)) h)"
    for q and h :: "'z dheap_scheme"
    by (simp add: set_child_opt_def hash_text_def)
  have "data_child p h = do { (md, h) \<leftarrow> do { (md, h) \<leftarrow> metadata_get m (Some ''Data'') h; if md \<noteq> NULL then Some (md, h) else metadata_new (Some ''Data'') None m h };
      if md = NULL then Some (False, h) else do { h \<leftarrow> data_fields d md h; Some (True, h) } }"
    using assms(2,3) by (simp add: data_child_def data_fields_def hash split_def cong: if_cong)
  then show ?thesis using h' by (simp only: Option.bind.bind_lunit prod.case if_False) blast
qed

text \<open>The elements of the attributes.\<close>

definition writable :: "attribute \<Rightarrow> bool" where
  "writable a \<longleftrightarrow> unat (attr_weight a) < 10 ^ 7"

lemma changed_outside:
  assumes "changed t h t' v' h'" "q < h_brk h" "q \<notin> set (owned t)"
  shows "h_links h' q = h_links h q" "h_attrs h' q = h_attrs h q" "h_alists h' q = h_alists h q" "q \<notin> set (owned t')" "q < h_brk h'"
  using assms unfolding changed_def by (auto dest: leD)

lemma attr_child_tree:
  fixes h :: "'z dheap_scheme"
  assumes T: "tree_in h (MT m al xs ts) (Meta nm c ps ms)"
    and a: "h_attrs h a = Some v" "attr_name v = Some n" "attr_value v = Some vl" "a \<noteq> NULL" "a < h_brk h" "a \<notin> set (owned (MT m al xs ts))"
    and "writable v"
  shows "\<exists>h' ts'. attr_child m a h = Some (Inr h') \<and> becomes (MT m al xs ts) h (MT m al xs ts') (Meta nm c ps (ms @ [attr_meta v])) h'"
proof -
  let ?u = "MT (h_brk h) (h_brk h + 4) [] []" and ?t = "MT m al xs ts"
  obtain h1 where h1: "metadata_new (Some ''Attr'') (Some vl) m h = Some (h_brk h, h1)" "h_brk h \<noteq> NULL"
    "becomes ?t h (MT m al xs (ts @ [?u])) (Meta nm c ps (ms @ [Meta ''Attr'' (Some vl) [] []])) h1"
    using metadata_new_child [OF T] by blast
  have len: "length ts = length ms" using T by (auto simp: tree_in_MT dest: list_all2_lengthD)
  have step: "\<exists>r h'' us' ts''. metadata_set_parameter (h_brk h) (Some k) (Some s) h' = Some (r, h'')
      \<and> becomes ?t h (MT m al xs (ts @ [MT (h_brk h) (h_brk h + 4) us' []])) (Meta nm c ps (ms @ [Meta ''Attr'' (Some vl) (put_param qs k s) []])) h''"
    if b: "becomes ?t h (MT m al xs (ts @ [MT (h_brk h) (h_brk h + 4) us []])) (Meta nm c ps (ms @ [Meta ''Attr'' (Some vl) qs []])) h'" for h' us qs k s
  proof -
    let ?t' = "MT m al xs (ts @ [MT (h_brk h) (h_brk h + 4) us []])"
    have T': "tree_in h' ?t' (Meta nm c ps (ms @ [Meta ''Attr'' (Some vl) qs []]))" using b by (simp add: becomes_def)
    have "tree_in h' (MT (h_brk h) (h_brk h + 4) us []) (Meta ''Attr'' (Some vl) qs [])"
      using tree_in_child [OF T', of "length ts"] len by (simp add: nth_append)
    then obtain r h'' us' where "metadata_set_parameter (h_brk h) (Some k) (Some s) h' = Some (r, h'')"
      "becomes (MT (h_brk h) (h_brk h + 4) us []) h' (MT (h_brk h) (h_brk h + 4) us' []) (Meta ''Attr'' (Some vl) (put_param qs k s) []) h''"
      using set_parameter_tree by blast
    moreover from this(2) have "becomes ?t' h' (MT m al xs (ts @ [MT (h_brk h) (h_brk h + 4) us' []])) (Meta nm c ps (ms @ [Meta ''Attr'' (Some vl) (put_param qs k s) []])) h''"
      using child_becomes [OF T', of "length ts"] len by (simp add: nth_append)
    ultimately show ?thesis using becomes_trans [OF b] by blast
  qed
  have rd: "h_attrs h' a = Some v" if "becomes ?t h t' v' h'" for t' v' h'
    using changed_outside(2) [OF becomes_changed [OF that] a(5,6)] a(1) by simp
  obtain r h2 us2 where 2: "metadata_set_parameter (h_brk h) (Some ''name'') (Some n) h1 = Some (r, h2)"
    "becomes ?t h (MT m al xs (ts @ [MT (h_brk h) (h_brk h + 4) us2 []])) (Meta nm c ps (ms @ [Meta ''Attr'' (Some vl) [(''name'', n)] []])) h2"
    using step [OF h1(3), of "''name''" n] by auto
  show ?thesis
  proof (cases "attr_weight v = 0")
    case True
    then have "attr_child m a h = Some (Inr h2)"
      using h1(1,2) 2(1) rd [OF h1(3)] rd [OF 2(2)] a(1-4)
      by (simp add: attr_child_def haggle_attribute_get_value_def haggle_attribute_get_name_def haggle_attribute_get_weight_def)
    moreover have "attr_meta v = Meta ''Attr'' (Some vl) [(''name'', n)] []" using True a(2,3) by (simp add: attr_meta_def)
    ultimately show ?thesis using 2(2) by auto
  next
    case False
    obtain r3 h3 us3 where 3: "metadata_set_parameter (h_brk h) (Some ''weight'') (Some (digits (unat (attr_weight v)))) h2 = Some (r3, h3)"
      "becomes ?t h (MT m al xs (ts @ [MT (h_brk h) (h_brk h + 4) us3 []]))
        (Meta nm c ps (ms @ [Meta ''Attr'' (Some vl) [(''name'', n), (''weight'', digits (unat (attr_weight v)))] []])) h3"
      using step [OF 2(2), of "''weight''" "digits (unat (attr_weight v))"] by auto
    have "length (digits (unat (attr_weight v))) < 8" using length_digits [of 7 "unat (attr_weight v)"] assms(8) by (simp add: writable_def)
    then have "attr_child m a h = Some (Inr h3)"
      using False h1(1,2) 2(1) 3(1) rd [OF h1(3)] rd [OF 2(2)] a(1-4)
      by (simp add: attr_child_def haggle_attribute_get_value_def haggle_attribute_get_name_def haggle_attribute_get_weight_def)
    moreover have "attr_meta v = Meta ''Attr'' (Some vl) [(''name'', n), (''weight'', digits (unat (attr_weight v)))] []"
      using False a(2,3) by (simp add: attr_meta_def)
    ultimately show ?thesis using 3(2) by auto
  qed
qed

text \<open>The objects of a list of attributes beside a tree.\<close>

definition beside :: "'z dheap_scheme \<Rightarrow> ptr \<Rightarrow> ptr list \<Rightarrow> attribute list \<Rightarrow> mtree \<Rightarrow> bool" where
  "beside h al xs vs t \<longleftrightarrow> alist h al xs vs \<and> set (al # xs) \<inter> set (owned t) = {} \<and> (\<forall>q \<in> set (al # xs). q < h_brk h)"

lemma changed_beside:
  assumes "changed t h t' v' h'" "beside h al xs vs t"
  shows "beside h' al xs vs t'"
proof -
  have q: "q < h_brk h" "q \<notin> set (owned t)" if "q \<in> set (al # xs)" for q using assms(2) that unfolding beside_def by blast+
  have "alist h' al xs vs"
    by (rule alist_cong [of h]) (use assms(2) changed_outside [OF assms(1) q] in \<open>auto simp: beside_def\<close>)
  then show ?thesis using changed_outside(4,5) [OF assms(1) q] by (auto simp: beside_def)
qed

lemma attr_loop_tree:
  fixes h :: "'z dheap_scheme"
  assumes "tree_in h (MT m ma ys ts) (Meta nm c ps ms)" "beside h al xs vs (MT m ma ys ts)" "\<forall>v \<in> set vs. writable v"
    and "zip xs vs = done @ todo"
  shows "\<exists>h' ts'. loop_over (attr_child m) (map fst todo) h = Some (Inr h' :: unit + _)
    \<and> becomes (MT m ma ys ts) h (MT m ma ys ts') (Meta nm c ps (ms @ map (\<lambda>x. attr_meta (snd x)) todo)) h'"
  using assms
proof (induction todo arbitrary: h ts ms "done")
  case Nil
  then show ?case using becomes_refl [OF Nil.prems(1)] by auto
next
  case (Cons av todo)
  obtain a v where av: "av = (a, v)" by (cases av)
  have in_zip: "(a, v) \<in> set (zip xs vs)" using Cons.prems(4) av by simp
  have al: "alist h al xs vs" using Cons.prems(2) by (simp add: beside_def)
  have a: "a \<in> set xs" "v \<in> set vs" using in_zip by (auto dest: set_zip_leftD set_zip_rightD)
  obtain n vl where nv: "h_attrs h a = Some v" "attr_name v = Some n" "attr_value v = Some vl" using alist_attrs [OF al] in_zip by fast
  have "a \<noteq> NULL" "a < h_brk h" "a \<notin> set (owned (MT m ma ys ts))"
    using a(1) alist_not_NULL [OF al] Cons.prems(2) unfolding beside_def by (auto simp del: owned.simps)
  then obtain h1 ts1 where h1: "attr_child m a h = Some (Inr h1)"
    "becomes (MT m ma ys ts) h (MT m ma ys ts1) (Meta nm c ps (ms @ [attr_meta v])) h1"
    using attr_child_tree [OF Cons.prems(1) nv] Cons.prems(3) a(2) by blast
  have "tree_in h1 (MT m ma ys ts1) (Meta nm c ps (ms @ [attr_meta v]))" using h1(2) by (simp add: becomes_def)
  moreover have "beside h1 al xs vs (MT m ma ys ts1)" by (rule changed_beside [OF becomes_changed [OF h1(2)] Cons.prems(2)])
  ultimately obtain h' ts' where h': "loop_over (attr_child m) (map fst todo) h1 = Some (Inr h' :: unit + _)"
    "becomes (MT m ma ys ts1) h1 (MT m ma ys ts') (Meta nm c ps ((ms @ [attr_meta v]) @ map (\<lambda>x. attr_meta (snd x)) todo)) h'"
    using Cons.IH [of h1 ts1 "ms @ [attr_meta v]" "done @ [av]"] Cons.prems(3,4) by (simp only: append_assoc append_Cons append_Nil) blast
  then show ?case using h1(1) becomes_trans [OF h1(2)] av by auto
qed

lemma attr_children_tree:
  fixes h :: "'z dheap_scheme"
  assumes T: "tree_in h (MT m ma ys ts) (Meta nm c ps ms)" and B: "beside h al xs vs (MT m ma ys ts)" and "\<forall>v \<in> set vs. writable v"
  shows "\<exists>h' ts'. list_for_each h_links (attr_child m) al h = Some (Inr h')
    \<and> becomes (MT m ma ys ts) h (MT m ma ys ts') (Meta nm c ps (ms @ map attr_meta vs)) h'"
proof -
  let ?I = "\<lambda>s. \<exists>ts ms. tree_in s (MT m ma ys ts) (Meta nm c ps ms) \<and> beside s al xs vs (MT m ma ys ts)"
  have len: "length vs = length xs" using B by (auto simp: beside_def dest: alist_length)
  have "map (attr_meta \<circ> snd) (zip xs vs) = map attr_meta vs" using len by (simp flip: map_map)
  then have z: "map fst (zip xs vs) = xs" "map (\<lambda>x. attr_meta (snd x)) (zip xs vs) = map attr_meta vs" using len by (simp_all add: comp_def)
  have "list_for_each h_links (attr_child m) al h = loop_over (attr_child m) xs h"
  proof (rule list_for_each_loop [where I = ?I])
    show "ring (h_links s) al xs" if "?I s" for s using that by (auto simp: beside_def alist_def)
    show "?I h" using T B by blast
    fix x s s' assume x: "x \<in> set xs" and I: "?I s" and s': "attr_child m x s = Some (Inr s')"
    obtain ts ms where I': "tree_in s (MT m ma ys ts) (Meta nm c ps ms)" "beside s al xs vs (MT m ma ys ts)" using I by blast
    obtain v where v: "(x, v) \<in> set (zip xs vs)" using x len by (metis in_set_impl_in_set_zip1)
    have al: "alist s al xs vs" using I'(2) by (simp add: beside_def)
    obtain n vl where nv: "h_attrs s x = Some v" "attr_name v = Some n" "attr_value v = Some vl" using alist_attrs [OF al] v by fast
    have "x \<noteq> NULL" "x < h_brk s" "x \<notin> set (owned (MT m ma ys ts))" "v \<in> set vs"
      using x v alist_not_NULL [OF al] I'(2) unfolding beside_def by (auto simp del: owned.simps dest: set_zip_rightD)
    then obtain ts' where b: "becomes (MT m ma ys ts) s (MT m ma ys ts') (Meta nm c ps (ms @ [attr_meta v])) s'"
      using attr_child_tree [OF I'(1) nv] assms(3) s' by fastforce
    then show "?I s'" using changed_beside [OF becomes_changed [OF b] I'(2)] by (auto simp: becomes_def)
  qed
  then show ?thesis using attr_loop_tree [OF T B assms(3), of "[]" "zip xs vs"] z by simp
qed

text \<open>The whole conversion.\<close>

lemma changed_object_in:
  assumes "object_in h p al xs t v s" "changed t h t' v' h'"
  shows "object_in h' p al xs t' v' s"
proof -
  have "wf_heap h" "alist h al xs (snd s)" using assms(1) by (auto simp: object_in_def tree_in_def)
  then have "beside h al xs (snd s) t" using assms(1) alist_below by (fastforce simp: beside_def object_in_def)
  then have "beside h' al xs (snd s) t'" by (rule changed_beside [OF assms(2)])
  moreover have "h_dobjs h' = h_dobjs h" using assms(2) by (intro mheap_more_dobjs) (simp add: changed_def)
  ultimately show ?thesis using assms by (auto simp: object_in_def beside_def changed_def)
qed

lemma remove_attrs_nil: "remove_attrs_loop m NULL h = Some h"
  by (simp add: remove_attrs_loop.simps)

lemma remove_attrs_cons:
  "c \<noteq> NULL \<Longrightarrow> remove_attrs_loop m c h = do { h \<leftarrow> metadata_free c h; (c, h) \<leftarrow> metadata_get_next m h; remove_attrs_loop m c h }"
  by (subst remove_attrs_loop.simps) simp

lemma to_metadata_tree:
  fixes h :: "'z dheap_scheme"
  assumes O: "object_in h p al xs t v (d, vs)" and "\<forall>a \<in> set vs. writable a" "length (createtime_text (d_sec d) (d_usec d)) < 32"
  shows "\<exists>h' t'. haggle_dataobject_to_metadata p h = Some (mt_ptr t, h') \<and> changed t h t' (to_meta (d, vs) v) h'"
proof -
  obtain m ma ys ts nm c ps ms where e: "t = MT m ma ys ts" "v = Meta nm c ps ms" by (cases t; cases v)
  let ?d = "placed al m d"
  have D: "h_dobjs h p = Some ?d" "p \<noteq> NULL" "tree_in h (MT m ma ys ts) (Meta nm c ps ms)" "m \<noteq> NULL"
    using O tree_in_ptr by (auto simp: object_in_def e tree_in_MT)
  have dd: "d_flags ?d = d_flags d" "d_sec ?d = d_sec d" "d_usec ?d = d_usec d" "d_filepath ?d = d_filepath d" "d_datalen ?d = d_datalen d"
    "d_m ?d = m" "d_al ?d = al" "data_meta ?d = data_meta d"
    by (simp_all add: placed_def data_meta_def data_subs_def hash_text_def fun_eq_iff)
  let ?yn = "if d_flags d AND DATAOBJECT_FLAG_PERSISTENT \<noteq> 0 then ''yes'' else ''no''"
  obtain r h1 ys1 where 1: "metadata_set_parameter m (Some ''persistent'') (Some ?yn) h = Some (r, h1)"
    "becomes t h (MT m ma ys1 ts) (Meta nm c (put_param ps ''persistent'' ?yn) ms) h1"
    using set_parameter_tree [OF D(3)] e by blast
  then have T1: "tree_in h1 (MT m ma ys1 ts) (Meta nm c (put_param ps ''persistent'' ?yn) ms)" by (simp add: becomes_def)
  have "\<exists>h2 ys2. (if d_sec d = 0 then Some h1 else if 32 \<le> length (createtime_text (d_sec d) (d_usec d)) then None
        else map_option snd (metadata_set_parameter m (Some ''create_time'') (Some (createtime_text (d_sec d) (d_usec d))) h1)) = Some h2
      \<and> becomes (MT m ma ys1 ts) h1 (MT m ma ys2 ts) (Meta nm c (root_params d ps) ms) h2"
    using set_parameter_tree [OF T1, of "''create_time''" "createtime_text (d_sec d) (d_usec d)"] becomes_refl [OF T1] assms(3)
    by (cases "d_sec d = 0") (auto simp: root_params_def Let_def)
  then obtain h2 ys2 where 2: "(if d_sec d = 0 then Some h1 else if 32 \<le> length (createtime_text (d_sec d) (d_usec d)) then None
        else map_option snd (metadata_set_parameter m (Some ''create_time'') (Some (createtime_text (d_sec d) (d_usec d))) h1)) = Some h2"
    "becomes (MT m ma ys1 ts) h1 (MT m ma ys2 ts) (Meta nm c (root_params d ps) ms) h2" by blast
  have b2: "becomes t h (MT m ma ys2 ts) (Meta nm c (root_params d ps) ms) h2" by (rule becomes_trans [OF 1(2) 2(2)])
  then have T2: "tree_in h2 (MT m ma ys2 ts) (Meta nm c (root_params d ps) ms)" by (simp only: becomes_def)
  have D2: "h_dobjs h2 p = Some ?d" using b2 D(1) mheap_more_dobjs [of h2 h] by (simp add: becomes_def grows_def)
  let ?has = "d_filepath d \<noteq> None \<or> d_datalen d > 0"
  let ?ms = "if ?has then with_child ''Data'' (data_meta d) ms else ms"
  have "\<exists>h3 ts3. (if ?has then data_child p h2 else Some (True, h2)) = Some (True, h3) \<and> becomes t h (MT m ma ys2 ts3) (Meta nm c (root_params d ps) ?ms) h3"
    using data_child_tree [OF T2 D2 dd(6)] becomes_trans [OF b2] b2 unfolding dd(8) by (simp only: split: if_split) blast
  then obtain h3 ts3 where 3: "(if ?has then data_child p h2 else Some (True, h2)) = Some (True, h3)"
    "becomes t h (MT m ma ys2 ts3) (Meta nm c (root_params d ps) ?ms) h3" by blast
  then have T3: "tree_in h3 (MT m ma ys2 ts3) (Meta nm c (root_params d ps) ?ms)" by (simp add: becomes_def)
  obtain h4 ts4 where 4: "do { (md, h) \<leftarrow> metadata_get m (Some ''Attr'') h3; remove_attrs_loop m md h } = Some h4"
    "changed (MT m ma ys2 ts3) h3 (MT m ma ys2 ts4) (Meta nm c (root_params d ps) (filter (\<lambda>m. me_name m \<noteq> ''Attr'') ?ms)) h4"
    using remove_children [OF remove_attrs_nil remove_attrs_cons _ T3, of "''Attr''"] by blast
  have c4: "changed t h (MT m ma ys2 ts4) (Meta nm c (root_params d ps) (filter (\<lambda>m. me_name m \<noteq> ''Attr'') ?ms)) h4"
    by (rule changed_trans [OF becomes_changed [OF 3(2)] 4(2)])
  have O4: "object_in h4 p al xs (MT m ma ys2 ts4) (Meta nm c (root_params d ps) (filter (\<lambda>m. me_name m \<noteq> ''Attr'') ?ms)) (d, vs)"
    by (rule changed_object_in [OF O c4])
  then have "tree_in h4 (MT m ma ys2 ts4) (Meta nm c (root_params d ps) (filter (\<lambda>m. me_name m \<noteq> ''Attr'') ?ms))"
    "beside h4 al xs vs (MT m ma ys2 ts4)"
    using alist_below [of h4 al xs vs] by (auto simp: object_in_def beside_def tree_in_def)
  moreover have tm: "to_meta (d, vs) v = Meta nm c (root_params d ps) (filter (\<lambda>m. me_name m \<noteq> ''Attr'') ?ms @ map attr_meta vs)"
    by (simp add: to_meta_def e)
  ultimately obtain h5 ts5 where 5: "list_for_each h_links (attr_child m) al h4 = Some (Inr h5 :: unit + _)"
    "becomes (MT m ma ys2 ts4) h4 (MT m ma ys2 ts5) (to_meta (d, vs) v) h5"
    using attr_children_tree [OF _ _ assms(2)] unfolding tm by blast
  obtain md h3' where g: "metadata_get m (Some ''Attr'') h3 = Some (md, h3')" "remove_attrs_loop m md h3' = Some h4"
    using 4(1) by (auto simp: bind_eq_Some_conv)
  have "haggle_dataobject_to_metadata p h = Some (m, h5)"
    unfolding haggle_dataobject_to_metadata_def
    by (simp only: D(1,2,4) dd 1(1) 2(1) 3(1) g 5(1) if_False bind.bind_lunit prod.case sum.case simp_thms)
  then show ?thesis using changed_trans [OF c4 becomes_changed [OF 5(2)]] e by auto
qed

section \<open>What is sent is received\<close>

definition visible :: "string option \<Rightarrow> bool" where
  "visible c \<longleftrightarrow> (case c of None \<Rightarrow> True | Some s \<Rightarrow> \<not> list_all is_blank_ch s)"

text \<open>
  What the text form can represent: a data length below \<open>2 ^ 31\<close>, names and values that are not blank, weights from 1 to 9999999, a time
  that fits in the buffer for it, and a hash only together with data.
\<close>

definition has_data :: "dataobject \<Rightarrow> bool" where
  "has_data d \<longleftrightarrow> d_filepath d \<noteq> None \<or> d_datalen d > 0"

definition sendable :: "dataobject \<Rightarrow> bool" where
  "sendable d \<longleftrightarrow> in_long (d_sec d) \<and> in_long (d_usec d) \<and> length (createtime_text (d_sec d) (d_usec d)) < 32
     \<and> unat (d_datalen d) < 2 ^ 31 \<and> visible (d_filename d) \<and> visible (d_filepath d) \<and> length (d_hash d) = HASH_LENGTH
     \<and> (d_hash_str d = None \<or> has_data d \<and> d_hash_str d = Some (concat (map HEX2 (d_hash d))))"

definition sendable_attr :: "attribute \<Rightarrow> bool" where
  "sendable_attr a \<longleftrightarrow> writable a \<and> attr_weight a \<noteq> 0 \<and> attr_name a \<noteq> None \<and> attr_value a \<noteq> None \<and> visible (attr_value a)"

text \<open>
  The metadata say nothing that the object has no longer: elements for a member are there at most once, and not at all when
  the object does not have the member.  This is so for new metadata, and for metadata that were written from the object before.
\<close>

definition at_most_once :: "string \<Rightarrow> string option \<Rightarrow> meta list \<Rightarrow> bool" where
  "at_most_once n c ms \<longleftrightarrow> length (filter (\<lambda>m. me_name m = n) ms) \<le> (if c = None then 0 else 1)"

definition up_to_date :: "dataobject \<Rightarrow> meta \<Rightarrow> bool" where
  "up_to_date d v \<longleftrightarrow> me_name v = HAGGLE_TAG \<and> (d_sec d = 0 \<longrightarrow> ''create_time'' \<notin> fst ` set (me_params v))
     \<and> length (filter (\<lambda>m. me_name m = ''Data'') (me_subs v)) \<le> (if has_data d then 1 else 0)
     \<and> (\<forall>m \<in> set (me_subs v). me_name m = ''Data'' \<longrightarrow> at_most_once ''FileName'' (d_filename d) (me_subs m)
          \<and> at_most_once ''FilePath'' (d_filepath d) (me_subs m) \<and> at_most_once ''FileHash'' (d_hash_str d) (me_subs m))"

lemma up_to_date_new:
  assumes "me_name v = HAGGLE_TAG" "''create_time'' \<notin> fst ` set (me_params v)" "''Data'' \<notin> me_name ` set (me_subs v)"
  shows "up_to_date d v"
proof -
  have "filter (\<lambda>m. me_name m = ''Data'') (me_subs v) = []" using assms(3) by (force simp: filter_empty_conv)
  then show ?thesis using assms by (force simp: up_to_date_def)
qed

text \<open>The members of an object that are sent.\<close>

definition sent_root :: "dataobject \<Rightarrow> dataobject" where
  "sent_root d = zero_dobj\<lparr>d_flags := (if d_flags d AND DATAOBJECT_FLAG_PERSISTENT \<noteq> 0 then DATAOBJECT_FLAG_PERSISTENT else 0),
     d_sec := d_sec d, d_usec := (if d_sec d = 0 then 0 else d_usec d)\<rparr>"

definition sent :: "dataobject \<Rightarrow> dataobject" where
  "sent d =
     (if \<not> has_data d then sent_root d
      else (sent_root d)\<lparr>d_datalen := d_datalen d, d_filename := d_filename d, d_filepath := d_filepath d,
        d_hash := (if d_hash_str d = None then replicate HASH_LENGTH 0 else d_hash d), d_hash_str := d_hash_str d\<rparr>)"

lemma no_blank_sel [simp]: "me_name (no_blank m) = me_name m" "me_params (no_blank m) = me_params m"
  "me_subs (no_blank m) = map no_blank (me_subs m)"
  by (cases m; simp)+

lemma no_blank_content: "visible (me_content m) \<Longrightarrow> me_content (no_blank m) = me_content m"
  by (cases m) (auto simp: visible_def split: option.splits)

lemma root_value_sent:
  assumes "sendable d" "d_sec d = 0 \<longrightarrow> ''create_time'' \<notin> fst ` set ps" "me_params v = root_params d ps"
  shows "root_value locals v = Some (sent_root d)"
proof -
  have "d_sec d = 0 \<longrightarrow> map_of ps ''create_time'' = None" using assms(2) by (metis map_of_eq_None_iff)
  then show ?thesis
    using assms(1) sscanf_createtime [of "d_sec d" "d_usec d" locals] unfolding root_value_def assms(3)
    by (auto simp: root_params_def Let_def map_of_put_param sendable_def sent_root_def zero_dobj_def split: option.splits)
qed

text \<open>The hash.\<close>

lemma hash_text_encode: "length (d_hash d) = HASH_LENGTH \<Longrightarrow> d_hash_str d \<noteq> None \<Longrightarrow> hash_text d = Some (encode_text (map char_of_byte (d_hash d)))"
  by (simp add: hash_text_def base64_encode_def base64_encode_loop_eq length_encode_text HASH_LENGTH_def)

lemma hash_value_sent:
  assumes "length (d_hash d) = HASH_LENGTH" "length (d_hash e) = HASH_LENGTH" "length (ctx_buf stack) = 4"
  shows "hash_value stack (encode_text (map char_of_byte (d_hash d))) e
    = Some (e\<lparr>d_hash := d_hash d, d_hash_str := Some (concat (map HEX2 (d_hash d)))\<rparr>)"
proof -
  obtain ctx where "base64_decode (base64_decode_ctx_init stack) (encode_text (map char_of_byte (d_hash d))) HASH_LENGTH
      = Some (ctx, map char_of_byte (d_hash d), True)"
    using base64_decode_fresh [OF assms(3), of "encode_text (map char_of_byte (d_hash d))" HASH_LENGTH] assms(1)
    by (auto simp: decode_encode_text)
  then show ?thesis using assms(1,2) by (simp add: hash_value_def comp_def)
qed

lemma encode_text_visible: "xs \<noteq> [] \<Longrightarrow> \<not> list_all is_blank_ch (encode_text xs)"
proof -
  assume "xs \<noteq> []"
  then obtain a r where h: "encode_text xs = b64str ! (nat (of_char a) div 4) # r" by (cases xs rule: encode_text.cases) (auto simp: Let_def)
  have "length b64str = 64" by (simp add: b64str_def)
  then have "nat (of_char a) div 4 < length b64str" using nat_of_char_less_256 [of a] by (simp add: nat_of_char_int less_mult_imp_div_less)
  moreover have "\<forall>c \<in> set b64str. \<not> is_blank_ch c" by (simp add: b64str_def is_blank_ch_def)
  ultimately show ?thesis using h nth_mem by fastforce
qed

text \<open>The contents of the elements with a name, and how an element for a member changes them.\<close>

definition contents :: "string \<Rightarrow> meta list \<Rightarrow> string option list" where
  "contents n ms = map me_content (filter (\<lambda>m. me_name m = n) ms)"

definition field :: "string option \<Rightarrow> string option list" where
  "field c = (case c of None \<Rightarrow> [] | Some s \<Rightarrow> [Some s])"

lemma field_simps [simp]: "field None = []" "field (Some s) = [Some s]"
  by (simp_all add: field_def)

lemma set_content_sel [simp]: "me_name (set_content s m) = me_name m" "me_content (set_content s m) = Some s"
  by (simp_all add: set_content_def)

lemma contents_simps [simp]:
  "contents n [] = []" "contents n (m # ms) = (if me_name m = n then [me_content m] else []) @ contents n ms"
  by (simp_all add: contents_def)

lemma contents_Nil: "contents n ms = [] \<longleftrightarrow> n \<notin> me_name ` set ms"
  by (auto simp: contents_def filter_empty_conv)

lemma contents_other: "k \<noteq> n \<Longrightarrow> contents k (opt_child n c ms) = contents k ms"
proof -
  assume "k \<noteq> n"
  then have "contents k (with_child n (set_content s) ms) = contents k ms" for s by (induction ms) auto
  then show ?thesis by (simp add: opt_child_def split: option.split)
qed

lemma contents_own: "length (contents n ms) \<le> (if c = None then 0 else 1) \<Longrightarrow> contents n (opt_child n c ms) = field c"
proof (cases c)
  case (Some s)
  assume "length (contents n ms) \<le> (if c = None then 0 else 1)"
  then have "length (contents n ms) \<le> 1" by (simp split: if_splits)
  then have "contents n (with_child n (set_content s) ms) = [Some s]"
    by (induction ms) (auto simp: contents_Nil)
  then show ?thesis by (simp add: opt_child_def Some)
qed (simp add: opt_child_def)

lemma contents_no_blank: "contents n ms = field c \<Longrightarrow> visible c \<Longrightarrow> contents n (map no_blank ms) = field c"
proof -
  assume a: "contents n ms = field c" "visible c"
  have "contents n (map no_blank ms) = map (\<lambda>c. me_content (no_blank (Meta n c [] []))) (contents n ms)"
  proof (induction ms)
    case (Cons m ms)
    then show ?case by (cases m) simp
  qed simp
  then show ?thesis using a by (cases c) (simp_all add: visible_def)
qed

lemma field_Cons: "c # cs = field x \<Longrightarrow> \<exists>s. x = Some s \<and> c = Some s \<and> cs = field None"
  by (cases x) simp_all

text \<open>The members that the elements below \<open>Data\<close> give.\<close>

lemma fields_value:
  assumes "contents ''FileName'' ms = field fn" "contents ''FilePath'' ms = field fp"
    and "contents ''FileHash'' ms = field (map_option (\<lambda>b. encode_text (map char_of_byte b)) hs)" "\<forall>b. hs = Some b \<longrightarrow> length b = HASH_LENGTH"
    and "length (d_hash e) = HASH_LENGTH" "length (ctx_buf stack) = 4"
  shows "fold_opt (field_value stack) ms e
    = Some (e\<lparr>d_filename := (if fn = None then d_filename e else fn), d_filepath := (if fp = None then d_filepath e else fp),
        d_hash := (case hs of None \<Rightarrow> d_hash e | Some b \<Rightarrow> b),
        d_hash_str := (case hs of None \<Rightarrow> d_hash_str e | Some b \<Rightarrow> Some (concat (map HEX2 b)))\<rparr>)"
  using assms
proof (induction ms arbitrary: fn fp hs e)
  case Nil
  then have "fn = None" "fp = None" "hs = None" by (auto simp: field_def split: option.splits)
  then show ?case by simp
next
  case (Cons m ms)
  consider (path) "me_name m = ''FilePath''" | (name) "me_name m = ''FileName''" | (hash) "me_name m = ''FileHash''"
    | (other) "me_name m \<notin> {''FilePath'', ''FileName'', ''FileHash''}" by blast
  then show ?case
  proof cases
    case path
    then obtain s where s: "fp = Some s" "me_content m = Some s" "contents ''FilePath'' ms = field None"
      using field_Cons [of "me_content m" "contents ''FilePath'' ms" fp] Cons.prems(2) by auto
    then have "field_value stack m e = Some (e\<lparr>d_filepath := fp\<rparr>)" using path by (simp add: field_value_def)
    then show ?thesis using Cons.IH [of fn None hs "e\<lparr>d_filepath := fp\<rparr>"] Cons.prems path s by (simp cong: if_cong option.case_cong)
  next
    case name
    then obtain s where s: "fn = Some s" "me_content m = Some s" "contents ''FileName'' ms = field None"
      using field_Cons [of "me_content m" "contents ''FileName'' ms" fn] Cons.prems(1) by auto
    then have "field_value stack m e = Some (e\<lparr>d_filename := fn\<rparr>)" using name by (simp add: field_value_def)
    then show ?thesis using Cons.IH [of None fp hs "e\<lparr>d_filename := fn\<rparr>"] Cons.prems name s by (simp cong: if_cong option.case_cong)
  next
    case hash
    then obtain b where s: "hs = Some b" "me_content m = Some (encode_text (map char_of_byte b))" "contents ''FileHash'' ms = field None"
      using field_Cons [of "me_content m" "contents ''FileHash'' ms"] Cons.prems(3) by fastforce
    then have b: "length b = HASH_LENGTH" using Cons.prems(4) by simp
    then have "field_value stack m e = Some (e\<lparr>d_hash := b, d_hash_str := Some (concat (map HEX2 b))\<rparr>)"
      using hash s hash_value_sent [of "e\<lparr>d_hash := b\<rparr>" e stack] Cons.prems(5,6) by (simp add: field_value_def)
    then show ?thesis using Cons.IH [of fn fp None "e\<lparr>d_hash := b, d_hash_str := Some (concat (map HEX2 b))\<rparr>"] Cons.prems hash s b by (simp cong: if_cong option.case_cong)
  next
    case other
    then show ?thesis using Cons by (simp add: field_value_def)
  qed
qed

lemma data_subs_contents:
  assumes "at_most_once ''FileName'' (d_filename d) ms" "at_most_once ''FilePath'' (d_filepath d) ms" "at_most_once ''FileHash'' (d_hash_str d) ms"
  shows "contents ''FileName'' (data_subs d ms) = field (d_filename d)" "contents ''FilePath'' (data_subs d ms) = field (d_filepath d)"
    "contents ''FileHash'' (data_subs d ms) = field (hash_text d)"
proof -
  have h: "hash_text d = None \<longleftrightarrow> d_hash_str d = None" by (simp add: hash_text_def)
  have "length (filter (\<lambda>m. me_name m = n) ms) = length (contents n ms)" for n by (simp add: contents_def)
  then show "contents ''FileName'' (data_subs d ms) = field (d_filename d)" "contents ''FilePath'' (data_subs d ms) = field (d_filepath d)"
    "contents ''FileHash'' (data_subs d ms) = field (hash_text d)"
    using assms h by (simp_all add: data_subs_def contents_other contents_own at_most_once_def)
qed

lemma data_value_sent:
  assumes "sendable d" "length (ctx_buf stack) = 4" "d_filename e = None" "d_filepath e = None" "d_hash e = replicate HASH_LENGTH 0" "d_hash_str e = None"
    and "at_most_once ''FileName'' (d_filename d) (me_subs m)" "at_most_once ''FilePath'' (d_filepath d) (me_subs m)"
      "at_most_once ''FileHash'' (d_hash_str d) (me_subs m)"
  shows "data_value stack (no_blank (data_meta d m)) e
    = Some (e\<lparr>d_datalen := d_datalen d, d_filename := d_filename d, d_filepath := d_filepath d,
        d_hash := (if d_hash_str d = None then replicate HASH_LENGTH 0 else d_hash d), d_hash_str := d_hash_str d\<rparr>)"
proof -
  let ?e1 = "e\<lparr>d_datalen := d_datalen d\<rparr>" and ?ms = "map no_blank (data_subs d (me_subs m))"
  have len: "take 19 (digits (unat (d_datalen d))) = digits (unat (d_datalen d))"
    using length_digits [of 19 "unat (d_datalen d)"] assms(1) by (simp add: sendable_def)
  have "atoi (digits (unat (d_datalen d))) = Some (uint (d_datalen d))" using atoi_digits [of "unat (d_datalen d)"] assms(1) by (simp add: sendable_def)
  then have 1: "data_value stack (no_blank (data_meta d m)) e = fold_opt (field_value stack) ?ms ?e1"
    by (simp add: data_value_def data_meta_def len map_of_put_param)
  define hs where "hs = (if d_hash_str d = None then None else Some (d_hash d))"
  have l: "length (d_hash d) = HASH_LENGTH" "d_hash_str d \<noteq> None \<longrightarrow> d_hash_str d = Some (concat (map HEX2 (d_hash d)))"
    using assms(1) by (auto simp: sendable_def)
  have h: "hash_text d = map_option (\<lambda>b. encode_text (map char_of_byte b)) hs"
    using hash_text_encode [OF l(1)] by (cases "d_hash_str d = None") (simp_all add: hs_def, simp add: hash_text_def)
  have "d_hash d \<noteq> []" using l(1) by (auto simp: HASH_LENGTH_def)
  then have v: "visible (d_filename d)" "visible (d_filepath d)" "visible (hash_text d)"
    using assms(1) encode_text_visible [of "map char_of_byte (d_hash d)"] by (auto simp: sendable_def visible_def h hs_def)
  note C = data_subs_contents [OF assms(7-9)]
  have "fold_opt (field_value stack) ?ms ?e1 = Some (?e1\<lparr>d_filename := (if d_filename d = None then d_filename ?e1 else d_filename d),
      d_filepath := (if d_filepath d = None then d_filepath ?e1 else d_filepath d), d_hash := (case hs of None \<Rightarrow> d_hash ?e1 | Some b \<Rightarrow> b),
      d_hash_str := (case hs of None \<Rightarrow> d_hash_str ?e1 | Some b \<Rightarrow> Some (concat (map HEX2 b)))\<rparr>)"
    using contents_no_blank [OF C(1) v(1)] contents_no_blank [OF C(2) v(2)] contents_no_blank [OF C(3) v(3)] l(1) assms(2,5)
    by (intro fields_value) (auto simp: h hs_def)
  then show ?thesis unfolding 1 using assms(3-6) l(2) by (auto simp: hs_def)
qed

text \<open>The attributes.\<close>

lemma attr_values_sent: "sendable_attr a \<Longrightarrow> attr_values (no_blank (attr_meta a)) = [a]"
proof -
  assume a: "sendable_attr a"
  then obtain n s where "attr_name a = Some n" "attr_value a = Some s" "\<not> list_all is_blank_ch s" "attr_weight a \<noteq> 0"
    by (auto simp: sendable_attr_def visible_def)
  then show ?thesis using strtoul_digits [of "attr_weight a"] by (cases a) (simp add: attr_meta_def attr_values_def)
qed

lemma fold_attrs_sent:
  "\<forall>a \<in> set vs. sendable_attr a \<Longrightarrow> fold_opt (child_value stack) (map no_blank (map attr_meta vs)) (d, us) = Some (d, us @ vs)"
proof (induction vs arbitrary: us)
  case (Cons a vs)
  have "me_name (attr_meta a) = ''Attr''" by (simp add: attr_meta_def)
  then show ?case using Cons attr_values_sent [of a] by (simp add: child_value_def)
qed simp

lemma fold_others:
  "\<forall>m \<in> set ms. me_name m \<notin> {''Data'', ''Attr''} \<Longrightarrow> fold_opt (child_value stack) (map no_blank ms) s = Some s"
  by (induction ms) (auto simp: child_value_def)

lemma fold_children_sent:
  assumes "sendable d" "up_to_date d v" "length (ctx_buf stack) = 4"
  shows "fold_opt (child_value stack) (map no_blank (filter (\<lambda>m. me_name m \<noteq> ''Attr'')
      (if has_data d then with_child ''Data'' (data_meta d) (me_subs v) else me_subs v))) (sent_root d, []) = Some (sent d, [])"
proof (cases "has_data d")
  case False
  then have "\<forall>m \<in> set (me_subs v). me_name m \<noteq> ''Data''" using assms(2) by (simp add: up_to_date_def filter_empty_conv)
  then show ?thesis using False fold_others [of "filter (\<lambda>m. me_name m \<noteq> ''Attr'') (me_subs v)"] by (auto simp: sent_def)
next
  case True
  have one: "length (filter (\<lambda>m. me_name m = ''Data'') (me_subs v)) \<le> 1" using True assms(2) by (simp add: up_to_date_def)
  obtain ms1 m ms2 where S: "with_child ''Data'' (data_meta d) (me_subs v) = ms1 @ data_meta d m # ms2" "me_name m = ''Data''"
    "''Data'' \<notin> me_name ` set (ms1 @ ms2)" "at_most_once ''FileName'' (d_filename d) (me_subs m)"
    "at_most_once ''FilePath'' (d_filepath d) (me_subs m)" "at_most_once ''FileHash'' (d_hash_str d) (me_subs m)"
  proof (cases "''Data'' \<in> me_name ` set (me_subs v)")
    case False
    then show ?thesis using with_child_new [OF False, of "data_meta d"] that [of "me_subs v" "Meta ''Data'' None [] []" "[]"]
      by (simp add: at_most_once_def)
  next
    case True
    then have "\<exists>m \<in> set (me_subs v). me_name m = ''Data''" by force
    then obtain ms1 m ms2 where e: "me_subs v = ms1 @ m # ms2" "me_name m = ''Data''" "\<forall>w \<in> set ms1. me_name w \<noteq> ''Data''"
      by (rule split_list_first_propE)
    then have n: "''Data'' \<notin> me_name ` set ms1" by force
    have "filter (\<lambda>m. me_name m = ''Data'') ms2 = []" using one e(1,2) by simp
    then have "''Data'' \<notin> me_name ` set ms2" by (force simp: filter_empty_conv)
    then show ?thesis using e n with_child_old [OF n e(2)] assms(2) that [of ms1 m ms2] by (auto simp: up_to_date_def)
  qed
  have "data_value stack (no_blank (data_meta d m)) (sent_root d) = Some (sent d)"
    using data_value_sent [OF assms(1,3), of "sent_root d" m] S(4-6) True by (simp add: sent_root_def zero_dobj_def sent_def)
  then have "child_value stack (no_blank (data_meta d m)) (sent_root d, []) = Some (sent d, [])"
    using S(2) by (simp add: child_value_def data_meta_def)
  moreover have "fold_opt (child_value stack) (map no_blank (filter (\<lambda>m. me_name m \<noteq> ''Attr'') ms)) s = Some s" if "ms = ms1 \<or> ms = ms2" for ms s
    by (rule fold_others) (use S(3) that in force)
  moreover have "me_name (data_meta d m) = ''Data''" using S(2) by (simp add: data_meta_def)
  ultimately show ?thesis using True by (simp add: S(1) fold_opt_append del: no_blank.simps)
qed

lemma object_value_sent:
  assumes "sendable d" "\<forall>a \<in> set vs. sendable_attr a" "up_to_date d v" "length (ctx_buf stack) = 4"
    and "me_params w = me_params (to_meta (d, vs) v)" "me_subs w = map no_blank (me_subs (to_meta (d, vs) v))"
  shows "object_value stack locals w = Some (sent d, vs)"
proof -
  have "root_value locals w = Some (sent_root d)"
    using root_value_sent [OF assms(1), of "me_params v" w] assms(3,5) by (simp add: up_to_date_def to_meta_def)
  moreover have "fold_opt (child_value stack) (map no_blank (map attr_meta vs)) (sent d, []) = Some (sent d, vs)"
    using fold_attrs_sent [OF assms(2)] by simp
  ultimately show ?thesis
    using fold_children_sent [OF assms(1,3,4)] unfolding object_value_def assms(6)
    by (simp add: to_meta_def fold_opt_append has_data_def)
qed

text \<open>Metadata that were written, and those that are read from the text, are up to date again.\<close>

lemma contents_length: "length (contents n ms) = length (filter (\<lambda>m. me_name m = n) ms)"
  by (simp add: contents_def)

lemma data_count: "length (filter (\<lambda>m. me_name m = ''Data'') (with_child ''Data'' (data_meta d) ms))
    = max 1 (length (filter (\<lambda>m. me_name m = ''Data'') ms))"
  by (induction ms) (auto simp: data_meta_def)

lemma with_child_members: "m \<in> set (with_child n f ms) \<Longrightarrow> m \<in> set ms \<or> (\<exists>w. m = f w \<and> me_name w = n \<and> (w \<in> set ms \<or> w = Meta n None [] []))"
  by (induction ms) (auto split: if_splits)

lemma data_meta_once:
  assumes "at_most_once ''FileName'' (d_filename d) (me_subs m)" "at_most_once ''FilePath'' (d_filepath d) (me_subs m)"
    "at_most_once ''FileHash'' (d_hash_str d) (me_subs m)"
  shows "at_most_once ''FileName'' (d_filename d) (me_subs (data_meta d m))" "at_most_once ''FilePath'' (d_filepath d) (me_subs (data_meta d m))"
    "at_most_once ''FileHash'' (d_hash_str d) (me_subs (data_meta d m))"
  using data_subs_contents [OF assms] by (auto simp: at_most_once_def data_meta_def field_def hash_text_def split: option.splits
      simp flip: contents_length)

lemma up_to_date_written:
  assumes "up_to_date d v"
  shows "up_to_date d (to_meta (d, vs) v)"
proof -
  define ms where "ms = (if has_data d then with_child ''Data'' (data_meta d) (me_subs v) else me_subs v)"
  have e: "me_subs (to_meta (d, vs) v) = filter (\<lambda>m. me_name m \<noteq> ''Attr'') ms @ map attr_meta vs" by (simp add: ms_def to_meta_def has_data_def)
  have a: "me_name m = ''Attr''" if "m \<in> set (map attr_meta vs)" for m using that by (auto simp: attr_meta_def)
  have f: "filter (\<lambda>m. me_name m = ''Data'') (me_subs (to_meta (d, vs) v)) = filter (\<lambda>m. me_name m = ''Data'') ms"
    using a by (force simp: e filter_empty_conv conj_commute intro!: filter_cong)
  have "length (filter (\<lambda>m. me_name m = ''Data'') ms) \<le> (if has_data d then 1 else 0)"
    using assms by (simp add: ms_def data_count up_to_date_def split: if_splits)
  moreover have "at_most_once ''FileName'' (d_filename d) (me_subs m) \<and> at_most_once ''FilePath'' (d_filepath d) (me_subs m)
      \<and> at_most_once ''FileHash'' (d_hash_str d) (me_subs m)" if "m \<in> set ms" "me_name m = ''Data''" for m
  proof -
    have o: "at_most_once ''FileName'' (d_filename d) (me_subs w) \<and> at_most_once ''FilePath'' (d_filepath d) (me_subs w)
        \<and> at_most_once ''FileHash'' (d_hash_str d) (me_subs w)" if "w \<in> set (me_subs v) \<or> w = Meta ''Data'' None [] []" "me_name w = ''Data''" for w
      using assms that by (auto simp: up_to_date_def at_most_once_def)
    show ?thesis using that with_child_members [of m "''Data''" "data_meta d" "me_subs v"] o data_meta_once [of d] by (auto simp: ms_def split: if_splits)
  qed
  moreover have "m \<in> set ms" if "m \<in> set (me_subs (to_meta (d, vs) v))" "me_name m = ''Data''" for m using that a by (force simp: e)
  moreover have "d_sec d = 0 \<longrightarrow> ''create_time'' \<notin> fst ` set (me_params (to_meta (d, vs) v))"
    using assms by (auto simp: up_to_date_def to_meta_def root_params_def put_param_names simp del: image_iff)
  moreover have "me_name (to_meta (d, vs) v) = HAGGLE_TAG" using assms by (simp add: to_meta_def up_to_date_def)
  ultimately show ?thesis unfolding up_to_date_def f by blast
qed

lemma up_to_date_received:
  assumes "up_to_date d u" "me_name w = me_name u" "me_params w = me_params u" "me_subs w = map no_blank (me_subs u)"
  shows "up_to_date (sent d) w"
proof -
  have n: "length (filter (\<lambda>m. me_name m = n) (map no_blank ms)) = length (filter (\<lambda>m. me_name m = n) ms)" for n ms
    by (simp add: filter_map comp_def)
  have s: "has_data (sent d) = has_data d" "d_sec (sent d) = d_sec d"
    "has_data d \<Longrightarrow> d_filename (sent d) = d_filename d \<and> d_filepath (sent d) = d_filepath d \<and> d_hash_str (sent d) = d_hash_str d"
    by (auto simp: sent_def sent_root_def zero_dobj_def has_data_def)
  have "has_data d" if "m \<in> set (me_subs u)" "me_name m = ''Data''" for m
    using assms(1) that by (auto simp: up_to_date_def filter_empty_conv split: if_splits)
  then show ?thesis using assms s n by (auto simp: up_to_date_def at_most_once_def)
qed

lemma sendable_sent: "sendable d \<Longrightarrow> sendable (sent d)"
proof -
  assume a: "sendable d"
  have "length (createtime_text 0 0) < 32" by code_simp
  then show ?thesis using a
    by (auto simp: sendable_def sent_def sent_root_def zero_dobj_def has_data_def in_long_def visible_def HASH_LENGTH_def split: option.splits)
qed

lemma id_message_sent: "sendable d \<Longrightarrow> id_message vs (sent d) = id_message vs d"
  by (auto simp: id_message_def id_tail_def sent_def sent_root_def zero_dobj_def sendable_def has_data_def split: option.splits)

section \<open>Writing twice\<close>

lemma put_param_same: "map_of ps n = Some v \<Longrightarrow> put_param ps n v = ps"
  by (induction ps) (auto split: if_splits)

lemma root_params_again: "root_params d (root_params d ps) = root_params d ps"
  by (simp add: root_params_def Let_def put_param_same map_of_put_param)

lemma with_child_find: "find (\<lambda>m. me_name m = n) ms = Some w \<Longrightarrow> f w = w \<Longrightarrow> with_child n f ms = ms"
  by (induction ms) (auto split: if_splits)

lemma find_with_child:
  "(\<And>m. me_name (f m) = me_name m) \<Longrightarrow> find (\<lambda>m. me_name m = k) (with_child n f ms)
    = (if k = n then Some (case find (\<lambda>m. me_name m = n) ms of None \<Rightarrow> f (Meta n None [] []) | Some w \<Rightarrow> f w)
       else find (\<lambda>m. me_name m = k) ms)"
  by (induction ms) auto

lemma find_opt_child:
  "find (\<lambda>m. me_name m = k) (opt_child n c ms)
    = (if k = n \<and> c \<noteq> None then Some (case find (\<lambda>m. me_name m = n) ms of None \<Rightarrow> set_content (the c) (Meta n None [] []) | Some w \<Rightarrow> set_content (the c) w)
       else find (\<lambda>m. me_name m = k) ms)"
  using find_with_child [of "set_content (the c)" k n ms] by (cases c) (auto simp: opt_child_def set_content_def)

text \<open>The first child with a name has the content, if there is one.\<close>

definition keeps :: "string \<Rightarrow> string option \<Rightarrow> meta list \<Rightarrow> bool" where
  "keeps n c ms \<longleftrightarrow> c = None \<or> map_option me_content (find (\<lambda>m. me_name m = n) ms) = Some c"

lemma keeps_opt_child: "keeps n c (opt_child n c ms)" "k \<noteq> n \<Longrightarrow> keeps k c ms \<Longrightarrow> keeps k c (opt_child n c' ms)"
  by (auto simp: keeps_def find_opt_child set_content_def split: option.splits)

lemma keeps_fixed: "keeps n c ms \<Longrightarrow> opt_child n c ms = ms"
proof (cases c)
  case (Some s)
  assume "keeps n c ms"
  then obtain w where w: "find (\<lambda>m. me_name m = n) ms = Some w" "me_content w = Some s" using Some by (auto simp: keeps_def)
  then have "set_content s w = w" by (cases w) (simp add: set_content_def)
  then show ?thesis using Some with_child_find [OF w(1)] by (simp add: opt_child_def)
qed (simp add: opt_child_def)

lemma data_subs_again: "data_subs d (data_subs d ms) = data_subs d ms"
proof -
  have "keeps ''FilePath'' (d_filepath d) (data_subs d ms)" "keeps ''Thumbnail'' (d_thumbnail_str d) (data_subs d ms)"
    "keeps ''FileHash'' (hash_text d) (data_subs d ms)" "keeps ''FileName'' (d_filename d) (data_subs d ms)"
    unfolding data_subs_def by (simp_all add: keeps_opt_child)
  then show ?thesis unfolding data_subs_def [of d "data_subs d ms"] by (simp add: keeps_fixed)
qed

lemma data_meta_again: "data_meta d (data_meta d m) = data_meta d m"
  by (simp add: data_meta_def data_subs_again put_param_same map_of_put_param)

lemma find_filter_other: "n \<noteq> k \<Longrightarrow> find (\<lambda>m. me_name m = n) (filter (\<lambda>m. me_name m \<noteq> k) ms @ ys)
    = (case find (\<lambda>m. me_name m = n) ms of None \<Rightarrow> find (\<lambda>m. me_name m = n) ys | Some w \<Rightarrow> Some w)"
  by (induction ms) auto

lemma to_meta_again: "to_meta s (to_meta s v) = to_meta s v"
proof -
  obtain d vs where s: "s = (d, vs)" by (cases s)
  let ?ms = "if d_filepath d \<noteq> None \<or> d_datalen d > 0 then with_child ''Data'' (data_meta d) (me_subs v) else me_subs v"
  let ?w = "filter (\<lambda>m. me_name m \<noteq> ''Attr'') ?ms @ map attr_meta vs"
  have "with_child ''Data'' (data_meta d) ?w = ?w" if has: "d_filepath d \<noteq> None \<or> d_datalen d > 0"
  proof -
    have nm: "me_name (data_meta d m) = me_name m" for m by (simp add: data_meta_def)
    have "find (\<lambda>m. me_name m = ''Data'') ?w = Some (case find (\<lambda>m. me_name m = ''Data'') (me_subs v) of
        None \<Rightarrow> data_meta d (Meta ''Data'' None [] []) | Some w \<Rightarrow> data_meta d w)"
      using has by (simp add: find_filter_other find_with_child [of "data_meta d", OF nm])
    then obtain w where w: "find (\<lambda>m. me_name m = ''Data'') ?w = Some (data_meta d w)"
      by (cases "find (\<lambda>m. me_name m = ''Data'') (me_subs v)") simp_all
    then show ?thesis by (rule with_child_find) (rule data_meta_again)
  qed
  moreover have "filter (\<lambda>m. me_name m \<noteq> ''Attr'') (map attr_meta vs) = []" by (auto simp: filter_empty_conv attr_meta_def)
  ultimately show ?thesis by (simp add: s to_meta_def root_params_again del: filter.simps)
qed

section \<open>Sending a data object\<close>

definition written :: "meta \<Rightarrow> meta" where
  "written w = Meta (me_name w) None (me_params w) (me_subs w)"

lemma placed_sel: "d_raw (placed al m d) = d_raw d" "d_raw_len (placed al m d) = d_raw_len d" "d_al (placed al m d) = al" "d_m (placed al m d) = m"
  by (simp_all add: placed_def)

lemma get_raw_text:
  fixes h :: "'z dheap_scheme"
  assumes O: "object_in h p al xs t v (d, vs)" and "\<forall>a \<in> set vs. writable a" "length (createtime_text (d_sec d) (d_usec d)) < 32"
    and X: "xmlDocDumpFormatMemory X [encode X (written (to_meta (d, vs) v))] = (raw, int (length raw))" "raw \<noteq> []" "length raw < 2 ^ 31"
  shows "\<exists>h' t'. haggle_dataobject_get_raw X p h = Some (Some raw, h')
    \<and> object_in h' p al xs t' (to_meta (d, vs) v) (d\<lparr>d_raw := Some raw, d_raw_len := of_nat (length raw)\<rparr>, vs)"
proof -
  let ?w = "to_meta (d, vs) v" and ?d = "d\<lparr>d_raw := Some raw, d_raw_len := of_nat (length raw)\<rparr>"
  obtain h1 t1 where h1: "haggle_dataobject_to_metadata p h = Some (mt_ptr t, h1)" "changed t h t1 ?w h1"
    using to_metadata_tree [OF O assms(2,3)] by blast
  have O1: "object_in h1 p al xs t1 ?w (d, vs)" by (rule changed_object_in [OF O h1(2)])
  then have T1: "tree_in h1 t1 ?w" "p \<noteq> NULL" "h_dobjs h1 p = Some (placed al (mt_ptr t1) d)" by (simp_all add: object_in_def)
  obtain h2 where h2: "metadata_xml_create_doc X (mt_ptr t1) h1 = Some (Some [encode X (written ?w)], h2)" "walked (set (tree_nodes t1)) h1 h2"
    using document_tree [OF T1(1), of X] unfolding written_def by blast
  have d2: "h_dobjs h2 p = Some (placed al (mt_ptr t1) d)" using T1(3) h2(2) by (auto simp: walked_def)
  have t: "mt_ptr t = mt_ptr t1" "mt_ptr t1 \<noteq> NULL" using h1(2) tree_in_ptr [OF T1(1)] by (simp_all add: changed_def)
  have r: "rewritten p (placed al (mt_ptr t1) ?d) (set (tree_nodes t1)) h1 (set_dobj p (placed al (mt_ptr t1) ?d) h2)"
    using h2(2) unfolding rewritten_def by blast
  have "(placed al (mt_ptr t1) d)\<lparr>d_raw := Some raw, d_raw_len := of_nat (length raw)\<rparr> = placed al (mt_ptr t1) ?d" by (simp add: placed_def)
  moreover have "unat (of_nat (length raw) :: u64) = length raw" using X(3) by (simp add: unat_of_nat)
  then have "(of_nat (length raw) :: u64) \<noteq> 0" using X(2) by (metis length_0_conv unat_0)
  ultimately have "haggle_dataobject_get_raw X p h = Some (Some raw, set_dobj p (placed al (mt_ptr t1) ?d) h2)"
    using h1(1) T1(2) t h2(1) d2 X(1,2)
    by (simp add: haggle_dataobject_get_raw_def metadata_xml_get_raw_alloc_def Let_def placed_sel)
  then show ?thesis using rewritten_object_in [OF r O1] by auto
qed

lemma written_simps [simp]: "me_name (written w) = me_name w" "me_content (written w) = None" "me_params (written w) = me_params w"
  "me_subs (written w) = me_subs w"
  by (simp_all add: written_def)

lemma raw_roundtrip:
  fixes h :: "'z dheap_scheme"
  assumes O: "object_in h p al xs t v (d, vs)" and "up_to_date d v" "sendable d" "\<forall>a \<in> set vs. sendable_attr a" "length (ctx_buf stack) = 4"
    and X: "as_given X (written (to_meta (d, vs) v))" "rereads X (encode X (written (to_meta (d, vs) v)))"
  shows "\<exists>raw h1 p' al' xs' t' v' h2. haggle_dataobject_get_raw X p h = Some (Some raw, h1)
    \<and> haggle_dataobject_new_from_raw X stack locals (Some raw) h1 = Some (p', h2) \<and> object_in h2 p' al' xs' t' v' (sent d, vs)
    \<and> up_to_date (sent d) v' \<and> sendable (sent d)"
proof -
  let ?w = "to_meta (d, vs) v"
  obtain raw x where raw: "xmlDocDumpFormatMemory X [encode X (written ?w)] = (raw, int (length raw))" "raw \<noteq> []" "length raw < 2 ^ 31"
    "xmlParseMemory X raw = Some [x]" "xmlDocGetRootElement [x] = Some x" "xml_ok x"
    "root_meta x = Meta (me_name ?w) (Some (xmlNodeBufGetContent x)) (me_params ?w) (map no_blank (me_subs ?w))"
    using reread_root [OF X] by (metis written_simps)
  have w: "\<forall>a \<in> set vs. writable a" "length (createtime_text (d_sec d) (d_usec d)) < 32"
    using assms(3,4) by (simp_all add: sendable_def sendable_attr_def)
  obtain h1 t1 where h1: "haggle_dataobject_get_raw X p h = Some (Some raw, h1)"
    "object_in h1 p al xs t1 ?w (d\<lparr>d_raw := Some raw, d_raw_len := of_nat (length raw)\<rparr>, vs)"
    using get_raw_text [OF O w raw(1-3)] by blast
  have "wf_heap h1" "h_mem h1 = []" using h1(2) by (simp_all add: object_in_def tree_in_def)
  moreover have "me_name (root_meta x) = HAGGLE_TAG" using raw(7) assms(2) by (simp add: to_meta_def up_to_date_def)
  moreover have "object_value stack locals (root_meta x) = Some (sent d, vs)"
    by (rule object_value_sent [OF assms(3,4,2,5)]) (simp_all add: raw(7))
  ultimately obtain p' al' t' h2 where "haggle_dataobject_new_from_raw X stack locals (Some raw) h1 = Some (p', h2)"
    "object_building (h_brk h1) h1 p' al' t' (root_meta x) (sent d, vs) h2"
    using new_from_raw_object [OF _ _ raw(4-6)] by blast
  moreover have "up_to_date (sent d) (root_meta x)"
    by (rule up_to_date_received [OF up_to_date_written [OF assms(2), of vs]]) (simp_all add: raw(7))
  ultimately show ?thesis using h1(1) sendable_sent [OF assms(3)] unfolding object_building_def by blast
qed

lemma object_id:
  assumes "object_in h p al xs t v (d, vs)" "length (Message_Block ctx) = 64" "length (id_message vs d) < 2 ^ 61"
  shows "haggle_dataobject_calculate_id ctx p idbuf h = Some (0, sha1 (id_message vs d))"
proof -
  have "id_message vs (placed al (mt_ptr t) d) = id_message vs d" by (simp add: id_message_def id_tail_def placed_def split: option.split)
  then show ?thesis
    using calculate_id_message [of h p "placed al (mt_ptr t) d" xs vs ctx idbuf] assms by (simp add: object_in_def placed_sel)
qed

section \<open>The properties\<close>

text \<open>
  \<open>haggle_dataobject_to_metadata\<close> turns the metadata of an object into the tree of values that describes it (flag, time, the element \<open>Data\<close>
  updated in place or added, the elements \<open>Attr\<close> replaced by those of the attributes, other elements kept), and leaves the
  object and its attributes as they are.
\<close>

theorem dataobject_to_metadata_refines:
  fixes h :: dheap
  assumes "object_in h p al xs t v (d, vs)" "\<forall>a \<in> set vs. writable a" "length (createtime_text (d_sec d) (d_usec d)) < 32"
  shows "\<exists>h' t'. haggle_dataobject_to_metadata p h = Some (mt_ptr t', h') \<and> object_in h' p al xs t' (to_meta (d, vs) v) (d, vs)"
proof -
  obtain h' t' where "haggle_dataobject_to_metadata p h = Some (mt_ptr t, h')" "changed t h t' (to_meta (d, vs) v) h'"
    using to_metadata_tree [OF assms] by blast
  then show ?thesis using changed_object_in [OF assms(1)] by (metis changed_def)
qed

text \<open>
  C1: A data object that is written as text and parsed again, as when it is sent to another node, has the same persistence flag, the
  same creation time (the microseconds only when the seconds are not zero), the same attributes with their weights in their order and, if it has data
  (a path or a length above zero), the same data length, file name, path and hash.  This is all that survives: the thumbnail is written but not
  read, and without data no file name is written.  It needs names and values that are not blank, weights from 1 to 9999999, a data length
  below \<open>2 ^ 31\<close> and a hash only together with data.  The metadata of the object may be new or have been written or parsed before, as long as they
  have no element for a member that the object does not have; those of the received object are so again, so it can be sent on.
\<close>

theorem dataobject_raw_roundtrip:
  fixes h :: dheap
  assumes "object_in h p al xs t v (d, vs)" "up_to_date d v" "sendable d" "\<forall>a \<in> set vs. sendable_attr a" "length (ctx_buf stack) = 4"
    and "as_given X (written (to_meta (d, vs) v))" "rereads X (encode X (written (to_meta (d, vs) v)))"
  shows "\<exists>raw h1 p' al' xs' t' v' h2. haggle_dataobject_get_raw X p h = Some (Some raw, h1)
    \<and> haggle_dataobject_new_from_raw X stack locals (Some raw) h1 = Some (p', h2) \<and> object_in h2 p' al' xs' t' v' (sent d, vs)
    \<and> up_to_date (sent d) v' \<and> sendable (sent d)"
  by (rule raw_roundtrip [OF assms])

text \<open>
  C2: The identifier of a data object survives the text form: the object parsed from the text of another has the same
  identifier, under the same conditions on the object and its metadata.
\<close>

theorem dataobject_id_survives:
  fixes h :: dheap
  assumes "object_in h p al xs t v (d, vs)" "up_to_date d v" "sendable d" "\<forall>a \<in> set vs. sendable_attr a" "length (ctx_buf stack) = 4"
    and "as_given X (written (to_meta (d, vs) v))" "rereads X (encode X (written (to_meta (d, vs) v)))"
    and "length (Message_Block ctx) = 64" "length (id_message vs d) < 2 ^ 61"
  shows "\<exists>raw h1 p' h2 n. haggle_dataobject_get_raw X p h = Some (Some raw, h1)
    \<and> haggle_dataobject_new_from_raw X stack locals (Some raw) h1 = Some (p', h2)
    \<and> haggle_dataobject_calculate_id ctx p idbuf h = Some (0, n) \<and> haggle_dataobject_calculate_id ctx p' idbuf h2 = Some (0, n)"
proof -
  obtain raw h1 p' al' xs' t' v' h2 where r: "haggle_dataobject_get_raw X p h = Some (Some raw, h1)"
    "haggle_dataobject_new_from_raw X stack locals (Some raw) h1 = Some (p', h2)" "object_in h2 p' al' xs' t' v' (sent d, vs)"
    using raw_roundtrip [OF assms(1-7)] by blast
  moreover have "haggle_dataobject_calculate_id ctx p' idbuf h2 = Some (0, sha1 (id_message vs d))"
    using object_id [OF r(3) assms(8)] assms(9) id_message_sent [OF assms(3), of vs] by simp
  ultimately show ?thesis using object_id [OF assms(1,8,9)] by blast
qed

text \<open>
  Writing an object is repeatable: a second call of \<open>haggle_dataobject_get_raw\<close>, which works on the metadata that the first has changed,
  gives the same text.
\<close>

theorem dataobject_raw_repeatable:
  fixes h :: dheap
  assumes "object_in h p al xs t v (d, vs)" "\<forall>a \<in> set vs. writable a" "length (createtime_text (d_sec d) (d_usec d)) < 32"
    and "xmlDocDumpFormatMemory X [encode X (written (to_meta (d, vs) v))] = (raw, int (length raw))" "raw \<noteq> []" "length raw < 2 ^ 31"
  shows "\<exists>h1 h2. haggle_dataobject_get_raw X p h = Some (Some raw, h1) \<and> haggle_dataobject_get_raw X p h1 = Some (Some raw, h2)"
proof -
  let ?d = "d\<lparr>d_raw := Some raw, d_raw_len := of_nat (length raw)\<rparr>"
  obtain h1 t1 where h1: "haggle_dataobject_get_raw X p h = Some (Some raw, h1)" "object_in h1 p al xs t1 (to_meta (d, vs) v) (?d, vs)"
    using get_raw_text [OF assms] by blast
  have "to_meta (?d, vs) w = to_meta (d, vs) w" for w
  proof -
    have "data_meta ?d = data_meta d" by (simp add: data_meta_def data_subs_def hash_text_def fun_eq_iff)
    then show ?thesis by (simp add: to_meta_def root_params_def Let_def)
  qed
  then have "to_meta (?d, vs) (to_meta (d, vs) v) = to_meta (d, vs) v" by (simp add: to_meta_again)
  then show ?thesis using h1(1) get_raw_text [OF h1(2) assms(2), of X raw] assms(3-6) by fastforce
qed

section \<open>Examples\<close>

text \<open>An object with one attribute and empty metadata, and the document that is made of it.\<close>

definition sample_sent_dobj :: dataobject where
  "sample_sent_dobj = zero_dobj\<lparr>d_flags := 1, d_sec := 5, d_usec := 7, d_filename := Some ''f'', d_datalen := 3\<rparr>"

definition sample_sent :: dheap where
  "sample_sent =
     \<lparr>h_links = [5 \<mapsto> \<lparr>l_prev = 9, l_next = 9\<rparr>, 9 \<mapsto> \<lparr>l_prev = 5, l_next = 5\<rparr>, 13 \<mapsto> \<lparr>l_prev = 13, l_next = 13\<rparr>,
        14 \<mapsto> \<lparr>l_prev = 14, l_next = 14\<rparr>, 17 \<mapsto> \<lparr>l_prev = 17, l_next = 17\<rparr>], h_brk = 21, h_mem = [],
      h_attrs = [9 \<mapsto> plain_attr (''a'', ''1'')], h_alists = [5 \<mapsto> 1, 17 \<mapsto> 0],
      h_mds = [13 \<mapsto> \<lparr>it_name = None, it_head = NULL, it_tmp = NULL, it_pos = NULL, md_parent = 13, md_name = Some ''Haggle'',
        md_content = None, md_parameters = 17\<rparr>], h_ifaces = Map.empty,
      h_nodes = Map.empty, h_nodelists = Map.empty, h_dobjs = [1 \<mapsto> placed 5 13 sample_sent_dobj]\<rparr>"

definition sample_sent_doc :: xml_node where
  "sample_sent_doc = XML_ELEMENT_NODE ''Haggle'' [(''persistent'', [Some ''yes'']), (''create_time'', [Some ''5.000007''])]
     [XML_ELEMENT_NODE ''Data'' [(''data_len'', [Some ''3''])] [XML_ELEMENT_NODE ''FileName'' [] [XML_TEXT_NODE ''f'']],
      XML_ELEMENT_NODE ''Attr'' [(''name'', [Some ''a'']), (''weight'', [Some ''1''])] [XML_TEXT_NODE ''1'']]"

definition sample_sent_libxml :: libxml where
  "sample_sent_libxml = \<lparr>xmlParseMemory = (\<lambda>s. if s = ''H'' then Some [sample_sent_doc] else None),
     xmlDocDumpFormatMemory = (\<lambda>d. (''H'', 1)), xmlStringGetNodeList = (\<lambda>s. [XML_TEXT_NODE s]), xmlPropNodes = (\<lambda>s. [Some s])\<rparr>"

lemma sample_sent_in:
  "object_in sample_sent 1 5 [9] (MT 13 17 [] []) (Meta ''Haggle'' None [] []) (sample_sent_dobj, [plain_attr (''a'', ''1'')])"
  by (auto simp: object_in_def sample_sent_def tree_in_MT wf_heap_def alist_def ring_def linked_def core_def plain_attr_def)

lemma sample_sent_meta:
  "to_meta (sample_sent_dobj, [plain_attr (''a'', ''1'')]) (Meta ''Haggle'' None [] [])
    = Meta ''Haggle'' None [(''persistent'', ''yes''), (''create_time'', ''5.000007'')]
        [Meta ''Data'' None [(''data_len'', ''3'')] [Meta ''FileName'' (Some ''f'') [] []],
         Meta ''Attr'' (Some ''1'') [(''name'', ''a''), (''weight'', ''1'')] []]"
  by code_simp

lemma sample_sent_facts:
  "up_to_date sample_sent_dobj (Meta ''Haggle'' None [] [])" "sendable sample_sent_dobj" "\<forall>a \<in> set [plain_attr (''a'', ''1'')]. sendable_attr a"
  "as_given sample_sent_libxml (written (to_meta (sample_sent_dobj, [plain_attr (''a'', ''1'')]) (Meta ''Haggle'' None [] [])))"
  "rereads sample_sent_libxml (encode sample_sent_libxml (written (to_meta (sample_sent_dobj, [plain_attr (''a'', ''1'')]) (Meta ''Haggle'' None [] []))))"
  "length (id_message [plain_attr (''a'', ''1'')] sample_sent_dobj) < 2 ^ 61"
proof -
  have ct: "createtime_text 5 7 = ''5.000007''" by code_simp
  show "up_to_date sample_sent_dobj (Meta ''Haggle'' None [] [])" "\<forall>a \<in> set [plain_attr (''a'', ''1'')]. sendable_attr a"
    by (simp_all add: up_to_date_def HAGGLE_TAG_def sendable_attr_def writable_def visible_def plain_attr_def is_blank_ch_def)
  show "sendable sample_sent_dobj" "length (id_message [plain_attr (''a'', ''1'')] sample_sent_dobj) < 2 ^ 61"
    using ct by (simp_all add: sendable_def sample_sent_dobj_def zero_dobj_def in_long_def visible_def is_blank_ch_def id_message_def
        id_tail_def attr_bytes_def plain_attr_def)
  show "as_given sample_sent_libxml (written (to_meta (sample_sent_dobj, [plain_attr (''a'', ''1'')]) (Meta ''Haggle'' None [] [])))"
    unfolding sample_sent_meta by (simp add: written_def sample_sent_libxml_def text_as_given_def value_as_given_def)
  have "strip sample_sent_doc = strip (encode sample_sent_libxml (written (to_meta (sample_sent_dobj, [plain_attr (''a'', ''1'')]) (Meta ''Haggle'' None [] []))))"
    unfolding sample_sent_meta by (simp add: written_def sample_sent_doc_def sample_sent_libxml_def content_nodes_def props_of_def)
  then show "rereads sample_sent_libxml (encode sample_sent_libxml (written (to_meta (sample_sent_dobj, [plain_attr (''a'', ''1'')]) (Meta ''Haggle'' None [] []))))"
    unfolding rereads_def
    by (intro exI [of _ "''H''"] exI [of _ sample_sent_doc]) (simp add: sample_sent_libxml_def, simp add: sample_sent_doc_def)
qed

lemma sample_sent_writable:
  "\<forall>a \<in> set [plain_attr (''a'', ''1'')]. writable a" "length (createtime_text (d_sec sample_sent_dobj) (d_usec sample_sent_dobj)) < 32"
  using sample_sent_facts(2,3) by (auto simp: sendable_attr_def sendable_def)

theorem dataobject_to_metadata_refines_witness: "\<exists>h' t'. haggle_dataobject_to_metadata 1 sample_sent = Some (mt_ptr t', h')"
  using dataobject_to_metadata_refines [OF sample_sent_in sample_sent_writable] by blast

theorem dataobject_raw_roundtrip_witness:
  "\<exists>raw h1 p' h2 d. haggle_dataobject_get_raw sample_sent_libxml 1 sample_sent = Some (Some raw, h1)
    \<and> haggle_dataobject_new_from_raw sample_sent_libxml \<lparr>ctx_i = 0, ctx_buf = ''????''\<rparr> (0, 0) (Some raw) h1 = Some (p', h2)
    \<and> h_dobjs h2 p' = Some d \<and> d_filename d = Some ''f'' \<and> d_sec d = 5"
proof -
  have "d_filename (sent sample_sent_dobj) = Some ''f''" "d_sec (sent sample_sent_dobj) = 5" by code_simp+
  then show ?thesis
    using dataobject_raw_roundtrip [OF sample_sent_in sample_sent_facts(1-3) _ sample_sent_facts(4,5), of "\<lparr>ctx_i = 0, ctx_buf = ''????''\<rparr>" "(0, 0)"]
    by (fastforce simp: object_in_def placed_def)
qed

theorem dataobject_id_survives_witness:
  "\<exists>raw h1 p' h2 n. haggle_dataobject_get_raw sample_sent_libxml 1 sample_sent = Some (Some raw, h1)
    \<and> haggle_dataobject_new_from_raw sample_sent_libxml \<lparr>ctx_i = 0, ctx_buf = ''????''\<rparr> (0, 0) (Some raw) h1 = Some (p', h2)
    \<and> haggle_dataobject_calculate_id any_context 1 [] sample_sent = Some (0, n) \<and> haggle_dataobject_calculate_id any_context p' [] h2 = Some (0, n)"
  using dataobject_id_survives [OF sample_sent_in sample_sent_facts(1-3) _ sample_sent_facts(4,5) sample_objects_facts(5) sample_sent_facts(6),
      of "\<lparr>ctx_i = 0, ctx_buf = ''????''\<rparr>" "(0, 0)" "[]"] by simp

theorem dataobject_raw_repeatable_witness:
  "\<exists>h1 h2. haggle_dataobject_get_raw sample_sent_libxml 1 sample_sent = Some (Some ''H'', h1)
    \<and> haggle_dataobject_get_raw sample_sent_libxml 1 h1 = Some (Some ''H'', h2)"
  using dataobject_raw_repeatable [OF sample_sent_in sample_sent_writable, of sample_sent_libxml "''H''"] by (simp add: sample_sent_libxml_def)

end
