(* ===== verification/Ipc.thy ===== *)
theory Ipc
  imports Dataobject_Roundtrip
begin

text \<open>
  The connection of an application with the daemon, \<open>src/src/libhaggle/ipc.c\<close> (the branches for Unix without Unix domain sockets):
  handles, control data objects, sending and receiving, registration, interests, and the requests to the daemon.

  The state holds the memory of the library, the handles, the global variables of the file and what the code sees of the
  operating system: the open descriptors, the bytes in the pipes, the datagrams that were sent, the commands that were run, and the answers that the calls
  to come will get.  The text of a data object that is sent is a value, so releasing it after \<open>sendto\<close> has no counterpart.
\<close>

section \<open>State\<close>

definition HAGGLE_REGISTRATION_ERROR :: int where "HAGGLE_REGISTRATION_ERROR = -97"
definition HAGGLE_BUSY_ERROR :: int where "HAGGLE_BUSY_ERROR = -96"
definition HAGGLE_EVENT_HANDLER_ERROR :: int where "HAGGLE_EVENT_HANDLER_ERROR = -92"
definition HAGGLE_HANDLE_ERROR :: int where "HAGGLE_HANDLE_ERROR = -88"
definition HAGGLE_TIMEOUT_ERROR :: int where "HAGGLE_TIMEOUT_ERROR = -86"
definition LIBHAGGLE_ERR_BAD_HANDLE :: int where "LIBHAGGLE_ERR_BAD_HANDLE = 1"
definition IO_NO_REPLY :: int where "IO_NO_REPLY = -2"
definition IO_REPLY_BLOCK :: int where "IO_REPLY_BLOCK = -1"
definition IO_REPLY_NON_BLOCK :: int where "IO_REPLY_NON_BLOCK = 0"
definition DATA_BUFLEN :: nat where "DATA_BUFLEN = 10000"
definition ID_BASE64_LEN :: nat where "ID_BASE64_LEN = 29"
definition LIBHAGGLE_NUM_EVENTS :: nat where "LIBHAGGLE_NUM_EVENTS = 4"

text \<open>Functions of the application are addresses, \<open>NULL\<close> where there is none.\<close>

record handler_data =
  hd_arg :: ptr
  hd_handler :: ptr

record haggle_handle =
  hh_sock :: int
  hh_signal :: "int \<times> int"
  hh_session_id :: int
  hh_num_handlers :: int
  hh_event_loop_running :: int
  hh_handle_free_final :: int
  hh_th :: nat
  hh_name :: "string option"
  hh_id :: "byte list"
  hh_id_base64 :: string
  hh_start :: ptr
  hh_stop :: ptr
  hh_arg :: ptr
  hh_handlers :: "handler_data list"

text \<open>The structure after \<open>memset\<close>.\<close>

definition zero_handle :: haggle_handle where
  "zero_handle = \<lparr>hh_sock = 0, hh_signal = (0, 0), hh_session_id = 0, hh_num_handlers = 0, hh_event_loop_running = 0,
     hh_handle_free_final = 0, hh_th = 0, hh_name = None, hh_id = replicate 20 0, hh_id_base64 = [], hh_start = NULL,
     hh_stop = NULL, hh_arg = NULL, hh_handlers = replicate LIBHAGGLE_NUM_EVENTS \<lparr>hd_arg = NULL, hd_handler = NULL\<rparr>\<rparr>"

text \<open>The answer of the operating system to a call: an error number, a number, two descriptors, or a datagram.\<close>

datatype answer = Failed int | Returned int | Pipe int int | Received string

type_synonym address = "string \<times> nat"

record ipc =
  i_mem :: dheap
  i_handles :: "ptr \<rightharpoonup> haggle_handle"
  haggle_addr :: address
  haggle_directory :: "string option"
  libhaggle_errno :: int
  num_handles :: int
  os_answers :: "answer list"
  os_errno :: int
  os_fds :: "int list"
  os_pipes :: "int \<times> int \<Rightarrow> nat"
  os_sent :: "(int \<times> address \<times> string) list"
  os_commands :: "string list"

text \<open>An event as the application gets it; the members of the union are addresses or a number.\<close>

record haggle_event =
  ev_type :: int
  ev_data :: nat

text \<open>
  The surroundings: the XML library, local variables before they are initialised, the time, the file with the process number of the daemon
  and the files (those of \<open>/proc\<close> among them), the calling thread, the functions of the application, and what a thread that is joined
  does until it ends.
\<close>

record env =
  e_xml :: libxml
  e_ctx :: base64_decode_context
  e_locals :: "int \<times> int"
  e_sha :: SHA1Context
  e_idbuf :: "byte list"
  e_now :: "int \<times> int"
  e_pid_file :: string
  e_files :: files
  e_self :: nat
  e_handler :: "ptr \<Rightarrow> haggle_event \<Rightarrow> ptr \<Rightarrow> ipc \<Rightarrow> (int \<times> haggle_event \<times> ipc) option"
  e_callback :: "ptr \<Rightarrow> ptr \<Rightarrow> ipc \<Rightarrow> ipc option"
  e_join :: "nat \<Rightarrow> ipc \<Rightarrow> ipc option"

text \<open>The head of the static list of handles.\<close>

definition haggle_handles :: ptr where "haggle_handles = 1"

definition with_mem :: "(dheap \<Rightarrow> dheap option) \<Rightarrow> ipc \<Rightarrow> ipc option" where
  "with_mem f s = map_option (\<lambda>m. s\<lparr>i_mem := m\<rparr>) (f (i_mem s))"

definition with_mem_val :: "(dheap \<Rightarrow> ('a \<times> dheap) option) \<Rightarrow> ipc \<Rightarrow> ('a \<times> ipc) option" where
  "with_mem_val f s = map_option (\<lambda>(x, m). (x, s\<lparr>i_mem := m\<rparr>)) (f (i_mem s))"

definition set_handle :: "ptr \<Rightarrow> haggle_handle \<Rightarrow> ipc \<Rightarrow> ipc" where
  "set_handle hh g s = s\<lparr>i_handles := (i_handles s)(hh \<mapsto> g)\<rparr>"

text \<open>\<open>free\<close> of the structure, with the list element in it.\<close>

definition free_handle :: "ptr \<Rightarrow> ipc \<Rightarrow> ipc" where
  "free_handle hh s = s\<lparr>i_handles := (i_handles s)(hh := None),
     i_mem := (i_mem s)\<lparr>h_links := (h_links (i_mem s))(hh := None)\<rparr>\<rparr>"

section \<open>The operating system\<close>

definition os_answer :: "ipc \<Rightarrow> answer \<times> ipc" where
  "os_answer s = (case os_answers s of [] \<Rightarrow> (Failed 0, s) | a # as \<Rightarrow> (a, s\<lparr>os_answers := as\<rparr>))"

text \<open>A call that returns a number, \<open>-1\<close> with the error number set.\<close>

definition os_int :: "ipc \<Rightarrow> int \<times> ipc" where
  "os_int s = (case os_answer s of
     (Failed e, s) \<Rightarrow> (-1, s\<lparr>os_errno := e\<rparr>)
   | (Returned n, s) \<Rightarrow> (n, s)
   | (_, s) \<Rightarrow> (-1, s))"

definition os_socket :: "ipc \<Rightarrow> int \<times> ipc" where
  "os_socket s = (let (fd, s) = os_int s in if fd = -1 then (-1, s) else (fd, s\<lparr>os_fds := fd # os_fds s\<rparr>))"

definition os_close :: "int \<Rightarrow> ipc \<Rightarrow> ipc" where
  "os_close fd s = s\<lparr>os_fds := remove1 fd (os_fds s)\<rparr>"

definition os_pipe :: "ipc \<Rightarrow> (int \<times> int) option \<times> ipc" where
  "os_pipe s = (case os_answer s of
     (Pipe r w, s) \<Rightarrow> (Some (r, w), s\<lparr>os_fds := r # w # os_fds s, os_pipes := (os_pipes s)((r, w) := 0)\<rparr>)
   | (Failed e, s) \<Rightarrow> (None, s\<lparr>os_errno := e\<rparr>)
   | (_, s) \<Rightarrow> (None, s))"

definition os_sendto :: "int \<Rightarrow> string \<Rightarrow> ipc \<Rightarrow> int \<times> ipc" where
  "os_sendto fd data s =
     (let (n, s) = os_int s in
      if n < 0 then (n, s) else (n, s\<lparr>os_sent := os_sent s @ [(fd, haggle_addr s, data)]\<rparr>))"

definition os_recv :: "nat \<Rightarrow> ipc \<Rightarrow> string option \<times> ipc" where
  "os_recv len s = (case os_answer s of
     (Received d, s) \<Rightarrow> (Some (take len d), s)
   | (Failed e, s) \<Rightarrow> (None, s\<lparr>os_errno := e\<rparr>)
   | (_, s) \<Rightarrow> (None, s))"

definition haggle_get_error :: "ipc \<Rightarrow> int" where
  "haggle_get_error s = libhaggle_errno s"

definition haggle_set_socket_error :: "ipc \<Rightarrow> ipc" where
  "haggle_set_socket_error s = s\<lparr>libhaggle_errno := os_errno s\<rparr>"

text \<open>\<open>intTostr\<close> prints into a static buffer of five bytes.\<close>

definition intTostr :: "int \<Rightarrow> string option" where
  "intTostr n = (if length (print_ld n) < 5 then Some (print_ld n) else None)"

section \<open>Control types\<close>

datatype control_type =
    CTRL_TYPE_INVALID
  | CTRL_TYPE_REGISTRATION_REQUEST
  | CTRL_TYPE_REGISTRATION_REPLY
  | CTRL_TYPE_DEREGISTRATION_NOTICE
  | CTRL_TYPE_REGISTER_INTEREST
  | CTRL_TYPE_REMOVE_INTEREST
  | CTRL_TYPE_GET_INTERESTS
  | CTRL_TYPE_REGISTER_EVENT_INTEREST
  | CTRL_TYPE_MATCHING_DATAOBJECT
  | CTRL_TYPE_DELETE_DATAOBJECT
  | CTRL_TYPE_GET_DATAOBJECTS
  | CTRL_TYPE_SEND_NODE_DESCRIPTION
  | CTRL_TYPE_SHUTDOWN
  | CTRL_TYPE_EVENT

text \<open>The enumeration constants from 0 on; \<open>CTRL_TYPE_INVALID\<close> is \<open>-1\<close>.\<close>

definition control_types :: "control_type list" where
  "control_types =
     [CTRL_TYPE_REGISTRATION_REQUEST, CTRL_TYPE_REGISTRATION_REPLY, CTRL_TYPE_DEREGISTRATION_NOTICE,
      CTRL_TYPE_REGISTER_INTEREST, CTRL_TYPE_REMOVE_INTEREST, CTRL_TYPE_GET_INTERESTS, CTRL_TYPE_REGISTER_EVENT_INTEREST,
      CTRL_TYPE_MATCHING_DATAOBJECT, CTRL_TYPE_DELETE_DATAOBJECT, CTRL_TYPE_GET_DATAOBJECTS, CTRL_TYPE_SEND_NODE_DESCRIPTION,
      CTRL_TYPE_SHUTDOWN, CTRL_TYPE_EVENT]"

definition ctrl_type_names :: "string list" where
  "ctrl_type_names =
     [''registration_request'', ''registration_reply'', ''deregistration'', ''register_interest'', ''remove_interest'',
      ''get_interests'', ''register_event_interest'', ''matching_dataobject'', ''delete_dataobject'', ''get_dataobjects'',
      ''send_node_description'', ''shutdown'', ''event'']"

text \<open>\<open>ctrl_type_names[type]\<close>; the index of \<open>CTRL_TYPE_INVALID\<close> is outside the array.\<close>

definition ctrl_type_name :: "control_type \<Rightarrow> string option" where
  "ctrl_type_name type = map_of (zip control_types ctrl_type_names) type"

fun ctrl_name_loop :: "string list \<Rightarrow> string \<Rightarrow> nat \<Rightarrow> control_type" where
  "ctrl_name_loop [] name i = CTRL_TYPE_INVALID"
| "ctrl_name_loop (n # ns) name i = (if n = name then control_types ! i else ctrl_name_loop ns name (Suc i))"

definition ctrl_name_to_type :: "string option \<Rightarrow> control_type" where
  "ctrl_name_to_type name = (case name of None \<Rightarrow> CTRL_TYPE_INVALID | Some n \<Rightarrow> ctrl_name_loop ctrl_type_names n 0)"

section \<open>Control data objects\<close>

text \<open>
  \<open>create_control_dataobject\<close> returns the object and the metadata with the control type.  The result of adding the attribute is
  not checked.
\<close>

definition create_control_dataobject :: "env \<Rightarrow> ptr \<Rightarrow> control_type \<Rightarrow> ipc \<Rightarrow> ((ptr \<times> ptr) \<times> ipc) option" where
  "create_control_dataobject E hh type s =
     (if hh = NULL then Some ((NULL, NULL), s)
      else
        with_mem_val (\<lambda>h.
          do {
            (dobj, h) \<leftarrow> haggle_dataobject_new h;
            if dobj = NULL then Some ((NULL, NULL), h)
            else
              do {
                (_, h) \<leftarrow> haggle_dataobject_set_createtime (e_now E) dobj None h;
                (_, h) \<leftarrow> haggle_dataobject_unset_flags dobj DATAOBJECT_FLAG_PERSISTENT h;
                g \<leftarrow> i_handles s hh;
                (_, h) \<leftarrow> haggle_dataobject_add_attribute dobj (Some ''HaggleIPC'') (hh_name g) h;
                (m, h) \<leftarrow> metadata_new (Some ''Application'') None NULL h;
                if m = NULL then do { h \<leftarrow> haggle_dataobject_free dobj h; Some ((NULL, NULL), h) }
                else
                  let out_error = \<lambda>h. do { h \<leftarrow> haggle_dataobject_free dobj h; h \<leftarrow> metadata_free m h; Some ((NULL, NULL), h) } in
                  do {
                    (r, h) \<leftarrow> metadata_set_parameter m (Some ''name'') (hh_name g) h;
                    if r < 0 then out_error h
                    else
                      do {
                        (r, h) \<leftarrow> metadata_set_parameter m (Some ''id'') (Some (hh_id_base64 g)) h;
                        if r < 0 then out_error h
                        else
                          do {
                            (mc, h) \<leftarrow> metadata_new (Some ''Control'') None m h;
                            if mc = NULL then out_error h
                            else
                              do {
                                name \<leftarrow> ctrl_type_name type;
                                (r, h) \<leftarrow> metadata_set_parameter mc (Some ''type'') (Some name) h;
                                if r < 0 then out_error h
                                else do { (_, h) \<leftarrow> haggle_dataobject_add_metadata dobj m h; Some ((dobj, mc), h) }
                              }
                          }
                      }
                  }
              }
          }) s)"

section \<open>Sending\<close>

text \<open>
  The time to wait for a reply: \<open>None\<close> for a bad value, otherwise the argument of \<open>select\<close>, \<open>None\<close> for \<open>NULL\<close>.  The product
  in the code overflows for more than \<open>2 ^ 63 div 1000\<close> milliseconds; no caller waits longer than ten seconds.
\<close>

definition reply_timeout :: "int \<Rightarrow> (int \<times> int) option option" where
  "reply_timeout msecs =
     (if msecs = IO_REPLY_BLOCK then Some None
      else if msecs = IO_REPLY_NON_BLOCK then Some (Some (0, 0))
      else if msecs > 0 then Some (Some (msecs div 1000, (msecs * 1000) mod 1000000))
      else None)"

text \<open>
  \<open>haggle_ipc_send_dataobject\<close>: \<open>want_reply\<close> says whether \<open>dobj_reply\<close> is given; the second result is the value stored there,
  \<open>None\<close> when nothing is stored.
\<close>

definition haggle_ipc_send_dataobject :: "env \<Rightarrow> ptr \<Rightarrow> ptr \<Rightarrow> bool \<Rightarrow> int \<Rightarrow> ipc \<Rightarrow> (int \<times> ptr option \<times> ipc) option" where
  "haggle_ipc_send_dataobject E hh dobj want_reply msecs s =
     (if dobj = NULL \<or> hh = NULL then Some (HAGGLE_PARAM_ERROR, None, s)
      else
        do {
          (ret, data, datalen, h) \<leftarrow> haggle_dataobject_get_raw_alloc (e_xml E) dobj True True (i_mem s);
          let s = s\<lparr>i_mem := h\<rparr> in
          if ret \<noteq> HAGGLE_NO_ERROR \<or> datalen = Some 0 then Some (HAGGLE_ALLOC_ERROR, None, s)
          else
            do {
              _ \<leftarrow> datalen;
              data \<leftarrow> data;
              g \<leftarrow> i_handles s hh;
              let (ret, s) = os_sendto (hh_sock g) data s in
              if ret < 0 then Some (HAGGLE_SOCKET_ERROR, None, s)
              else if msecs \<noteq> IO_NO_REPLY \<and> want_reply then
                (case reply_timeout msecs of
                   None \<Rightarrow> Some (HAGGLE_INTERNAL_ERROR, None, s)
                 | Some _ \<Rightarrow>
                     let (ret, s) = os_int s in
                     if ret < 0 then Some (HAGGLE_SOCKET_ERROR, None, s)
                     else if ret = 0 then Some (HAGGLE_TIMEOUT_ERROR, None, s)
                     else
                       let (d, s) = os_recv DATA_BUFLEN s in
                       (case d of
                          None \<Rightarrow> Some (HAGGLE_SOCKET_ERROR, None, haggle_set_socket_error s)
                        | Some raw \<Rightarrow>
                            do {
                              (dobj_recv, s) \<leftarrow> with_mem_val (haggle_dataobject_new_from_raw (e_xml E) (e_ctx E) (e_locals E) (Some raw)) s;
                              if dobj_recv = NULL then Some (HAGGLE_ALLOC_ERROR, None, haggle_set_socket_error s)
                              else Some (HAGGLE_NO_ERROR, Some dobj_recv, s)
                            }))
              else Some (HAGGLE_NO_ERROR, None, s)
            }
        })"

text \<open>Sending without a reply, and the release of the object that follows in every caller.\<close>

definition send_and_free :: "env \<Rightarrow> ptr \<Rightarrow> ptr \<Rightarrow> ipc \<Rightarrow> (int \<times> ipc) option" where
  "send_and_free E hh dobj s =
     do {
       (ret, _, s) \<leftarrow> haggle_ipc_send_dataobject E hh dobj False IO_NO_REPLY s;
       s \<leftarrow> with_mem (haggle_dataobject_free dobj) s;
       Some (ret, s)
     }"

definition haggle_ipc_publish_dataobject :: "env \<Rightarrow> ptr \<Rightarrow> ptr \<Rightarrow> ipc \<Rightarrow> (int \<times> ipc) option" where
  "haggle_ipc_publish_dataobject E hh dobj s =
     (if hh = NULL then Some (HAGGLE_PARAM_ERROR, s\<lparr>libhaggle_errno := LIBHAGGLE_ERR_BAD_HANDLE\<rparr>)
      else map_option (\<lambda>(ret, _, s). (ret, s)) (haggle_ipc_send_dataobject E hh dobj False IO_NO_REPLY s))"

definition haggle_ipc_generate_and_send_control_dataobject :: "env \<Rightarrow> ptr \<Rightarrow> control_type \<Rightarrow> ipc \<Rightarrow> (int \<times> ipc) option" where
  "haggle_ipc_generate_and_send_control_dataobject E hh type s =
     (if hh = NULL then Some (HAGGLE_PARAM_ERROR, s)
      else
        do {
          ((dobj, _), s) \<leftarrow> create_control_dataobject E hh type s;
          if dobj = NULL then Some (HAGGLE_ALLOC_ERROR, s) else send_and_free E hh dobj s
        })"

definition haggle_ipc_get_application_interests_async :: "env \<Rightarrow> ptr \<Rightarrow> ipc \<Rightarrow> (int \<times> ipc) option" where
  "haggle_ipc_get_application_interests_async E hh s = haggle_ipc_generate_and_send_control_dataobject E hh CTRL_TYPE_GET_INTERESTS s"

definition haggle_ipc_get_data_objects_async :: "env \<Rightarrow> ptr \<Rightarrow> ipc \<Rightarrow> (int \<times> ipc) option" where
  "haggle_ipc_get_data_objects_async E hh s = haggle_ipc_generate_and_send_control_dataobject E hh CTRL_TYPE_GET_DATAOBJECTS s"

definition haggle_ipc_send_node_description :: "env \<Rightarrow> ptr \<Rightarrow> ipc \<Rightarrow> (int \<times> ipc) option" where
  "haggle_ipc_send_node_description E hh s = haggle_ipc_generate_and_send_control_dataobject E hh CTRL_TYPE_SEND_NODE_DESCRIPTION s"

definition haggle_ipc_shutdown :: "env \<Rightarrow> ptr \<Rightarrow> ipc \<Rightarrow> (int \<times> ipc) option" where
  "haggle_ipc_shutdown E hh s = haggle_ipc_generate_and_send_control_dataobject E hh CTRL_TYPE_SHUTDOWN s"


section \<open>Interests\<close>

datatype interest_op_t = INTEREST_OP_ADD | INTEREST_OP_REMOVE

text \<open>The body of the loop over the interests; the buffer for the weight has ten bytes.\<close>

definition interest_body :: "ptr \<Rightarrow> ptr \<Rightarrow> dheap \<Rightarrow> (unit + dheap) option" where
  "interest_body ctrl_m a h =
     do {
       vl \<leftarrow> haggle_attribute_get_value a h;
       (interest, h) \<leftarrow> metadata_new (Some ''Interest'') vl ctrl_m h;
       if interest = NULL then Some (Inr h)
       else
         do {
           weight \<leftarrow> haggle_attribute_get_weight a h;
           name \<leftarrow> haggle_attribute_get_name a h;
           (_, h) \<leftarrow> metadata_set_parameter interest (Some ''name'') name h;
           (_, h) \<leftarrow> metadata_set_parameter interest (Some ''weight'') (Some (take 9 (digits (unat weight)))) h;
           Some (Inr h)
         }
     }"

definition haggle_ipc_add_or_remove_interests :: "env \<Rightarrow> ptr \<Rightarrow> interest_op_t \<Rightarrow> ptr \<Rightarrow> ipc \<Rightarrow> (int \<times> ipc) option" where
  "haggle_ipc_add_or_remove_interests E hh op al s =
     (if hh = NULL \<or> al = NULL then Some (HAGGLE_PARAM_ERROR, s)
      else
        do {
          ((dobj, ctrl_m), s) \<leftarrow> create_control_dataobject E hh
             (if op = INTEREST_OP_ADD then CTRL_TYPE_REGISTER_INTEREST else CTRL_TYPE_REMOVE_INTEREST) s;
          if dobj = NULL then Some (HAGGLE_ALLOC_ERROR, s)
          else
            do {
              r \<leftarrow> list_for_each h_links (interest_body ctrl_m) al (i_mem s);
              h \<leftarrow> (case r of Inl _ \<Rightarrow> None | Inr h \<Rightarrow> Some h);
              send_and_free E hh dobj (s\<lparr>i_mem := h\<rparr>)
            }
        })"

definition haggle_ipc_add_application_interests :: "env \<Rightarrow> ptr \<Rightarrow> ptr \<Rightarrow> ipc \<Rightarrow> (int \<times> ipc) option" where
  "haggle_ipc_add_application_interests E hh al s = haggle_ipc_add_or_remove_interests E hh INTEREST_OP_ADD al s"

definition haggle_ipc_remove_application_interests :: "env \<Rightarrow> ptr \<Rightarrow> ptr \<Rightarrow> ipc \<Rightarrow> (int \<times> ipc) option" where
  "haggle_ipc_remove_application_interests E hh al s = haggle_ipc_add_or_remove_interests E hh INTEREST_OP_REMOVE al s"

definition haggle_ipc_add_or_remove_application_interest_weighted ::
    "env \<Rightarrow> ptr \<Rightarrow> interest_op_t \<Rightarrow> string option \<Rightarrow> string option \<Rightarrow> u64 \<Rightarrow> ipc \<Rightarrow> (int \<times> ipc) option" where
  "haggle_ipc_add_or_remove_application_interest_weighted E hh op name vl weight s =
     do {
       (al, s) \<leftarrow> with_mem_val (\<lambda>h. let (a, h) = haggle_attribute_new_weighted name vl weight h in
                                   haggle_attributelist_new_from_attribute a h) s;
       if al = NULL then Some (HAGGLE_INTERNAL_ERROR, s)
       else
         do {
           (ret, s) \<leftarrow> haggle_ipc_add_or_remove_interests E hh op al s;
           s \<leftarrow> with_mem (haggle_attributelist_free al) s;
           Some (ret, s)
         }
     }"

definition haggle_ipc_add_application_interest_weighted ::
    "env \<Rightarrow> ptr \<Rightarrow> string option \<Rightarrow> string option \<Rightarrow> u64 \<Rightarrow> ipc \<Rightarrow> (int \<times> ipc) option" where
  "haggle_ipc_add_application_interest_weighted E hh name vl weight s =
     haggle_ipc_add_or_remove_application_interest_weighted E hh INTEREST_OP_ADD name vl weight s"

definition haggle_ipc_add_application_interest :: "env \<Rightarrow> ptr \<Rightarrow> string option \<Rightarrow> string option \<Rightarrow> ipc \<Rightarrow> (int \<times> ipc) option" where
  "haggle_ipc_add_application_interest E hh name vl s =
     haggle_ipc_add_or_remove_application_interest_weighted E hh INTEREST_OP_ADD name vl 1 s"

definition haggle_ipc_remove_application_interest :: "env \<Rightarrow> ptr \<Rightarrow> string option \<Rightarrow> string option \<Rightarrow> ipc \<Rightarrow> (int \<times> ipc) option" where
  "haggle_ipc_remove_application_interest E hh name vl s =
     haggle_ipc_add_or_remove_application_interest_weighted E hh INTEREST_OP_REMOVE name vl 1 s"

section \<open>Event handlers\<close>

text \<open>The table is written after the request was sent, whatever became of it.\<close>

definition haggle_ipc_register_event_interest_with_arg :: "env \<Rightarrow> ptr \<Rightarrow> int \<Rightarrow> ptr \<Rightarrow> ptr \<Rightarrow> ipc \<Rightarrow> (int \<times> ipc) option" where
  "haggle_ipc_register_event_interest_with_arg E hh eventId handler arg s =
     (if eventId < 0 \<or> eventId \<ge> int LIBHAGGLE_NUM_EVENTS \<or> handler = NULL then Some (HAGGLE_PARAM_ERROR, s)
      else if hh = NULL then Some (HAGGLE_PARAM_ERROR, s)
      else
        do {
          ((dobj, ctrl_m), s) \<leftarrow> create_control_dataobject E hh CTRL_TYPE_REGISTER_EVENT_INTEREST s;
          if dobj = NULL then Some (HAGGLE_ALLOC_ERROR, s)
          else
            do {
              (event_m, s) \<leftarrow> with_mem_val (metadata_new (Some ''Event'') None ctrl_m) s;
              if event_m = NULL then do { s \<leftarrow> with_mem (haggle_dataobject_free dobj) s; Some (HAGGLE_ALLOC_ERROR, s) }
              else
                do {
                  name \<leftarrow> intTostr eventId;
                  (r, s) \<leftarrow> with_mem_val (metadata_set_parameter event_m (Some ''type'') (Some name)) s;
                  if r < 0 then do { s \<leftarrow> with_mem (haggle_dataobject_free dobj) s; Some (HAGGLE_ALLOC_ERROR, s) }
                  else
                    do {
                      (ret, s) \<leftarrow> send_and_free E hh dobj s;
                      g \<leftarrow> i_handles s hh;
                      n \<leftarrow> int_inc (hh_num_handlers g);
                      Some (ret, set_handle hh
                        (g\<lparr>hh_handlers := (hh_handlers g)[nat eventId := \<lparr>hd_arg = arg, hd_handler = handler\<rparr>],
                           hh_num_handlers := n\<rparr>) s)
                    }
                }
            }
        })"

definition haggle_ipc_register_event_interest :: "env \<Rightarrow> ptr \<Rightarrow> int \<Rightarrow> ptr \<Rightarrow> ipc \<Rightarrow> (int \<times> ipc) option" where
  "haggle_ipc_register_event_interest E hh eventId handler s = haggle_ipc_register_event_interest_with_arg E hh eventId handler NULL s"

section \<open>Deletion of data objects\<close>

definition haggle_ipc_delete_data_object_by_id_bloomfilter :: "env \<Rightarrow> ptr \<Rightarrow> byte list \<Rightarrow> int \<Rightarrow> ipc \<Rightarrow> (int \<times> ipc) option" where
  "haggle_ipc_delete_data_object_by_id_bloomfilter E hh dobj_id keep_in_bloomfilter s =
     (if hh = NULL then Some (HAGGLE_PARAM_ERROR, s)
      else
        do {
          ((dobj, ctrl_m), s) \<leftarrow> create_control_dataobject E hh CTRL_TYPE_DELETE_DATAOBJECT s;
          if dobj = NULL then Some (HAGGLE_ALLOC_ERROR, s)
          else
            let failed = \<lambda>s. do { s \<leftarrow> with_mem (haggle_dataobject_free dobj) s; Some (HAGGLE_ALLOC_ERROR, s) } in
            do {
              (dobj_m, s) \<leftarrow> with_mem_val (metadata_new (Some ''DataObject'') None ctrl_m) s;
              if dobj_m = NULL then failed s
              else
                let base64str = c_string (base64_encode (map char_of_byte dobj_id) 29 @ replicate 29 (CHR 0x00)) in
                do {
                  (r, s) \<leftarrow> with_mem_val (metadata_set_parameter dobj_m (Some ''id'') (Some base64str)) s;
                  if r < 0 then failed s
                  else
                    do {
                      (r, s) \<leftarrow> with_mem_val (metadata_set_parameter ctrl_m (Some ''keep_in_bloomfilter'')
                                   (Some (if keep_in_bloomfilter \<noteq> 0 then ''yes'' else ''no''))) s;
                      if r < 0 then failed s else send_and_free E hh dobj s
                    }
                }
            }
        })"

definition haggle_ipc_delete_data_object_by_id :: "env \<Rightarrow> ptr \<Rightarrow> byte list \<Rightarrow> ipc \<Rightarrow> (int \<times> ipc) option" where
  "haggle_ipc_delete_data_object_by_id E hh dobj_id s = haggle_ipc_delete_data_object_by_id_bloomfilter E hh dobj_id 0 s"

definition haggle_ipc_delete_data_object_bloomfilter :: "env \<Rightarrow> ptr \<Rightarrow> ptr \<Rightarrow> int \<Rightarrow> ipc \<Rightarrow> (int \<times> ipc) option" where
  "haggle_ipc_delete_data_object_bloomfilter E hh dobj keep_in_bloomfilter s =
     do {
       (_, dobj_id) \<leftarrow> haggle_dataobject_calculate_id (e_sha E) dobj (e_idbuf E) (i_mem s);
       haggle_ipc_delete_data_object_by_id_bloomfilter E hh dobj_id keep_in_bloomfilter s
     }"

definition haggle_ipc_delete_data_object :: "env \<Rightarrow> ptr \<Rightarrow> ptr \<Rightarrow> ipc \<Rightarrow> (int \<times> ipc) option" where
  "haggle_ipc_delete_data_object E hh dobj s = haggle_ipc_delete_data_object_bloomfilter E hh dobj 0 s"

section \<open>The stop signal\<close>

text \<open>
  The pipe of a handle is written by the byte; reading takes one away.  Writing one byte to the open end of a pipe is taken to
  succeed (when it fails, the code prints a message, and the loop is not woken).  \<open>recv\<close> is for sockets: on a pipe it fails with
  \<open>ENOTSOCK\<close>, and the result of \<open>event_loop_signal_is_raised\<close> is 1 whether the signal is raised or not.
\<close>

definition ENOTSOCK :: int where "ENOTSOCK = 88"

definition event_loop_signal_is_raised :: "ptr \<Rightarrow> ipc \<Rightarrow> (int \<times> ipc) option" where
  "event_loop_signal_is_raised hh s =
     (if hh = NULL then Some (-1, s)
      else
        do {
          g \<leftarrow> i_handles s hh;
          if fst (hh_signal g) = 0 then Some (-1, s) else Some (1, s\<lparr>os_errno := ENOTSOCK\<rparr>)
        })"

definition event_loop_signal_raise :: "ptr \<Rightarrow> ipc \<Rightarrow> ipc option" where
  "event_loop_signal_raise hh s =
     (if hh = NULL then Some s
      else
        do {
          g \<leftarrow> i_handles s hh;
          if snd (hh_signal g) = 0 then Some s
          else Some (s\<lparr>os_pipes := (os_pipes s)(hh_signal g := Suc (os_pipes s (hh_signal g)))\<rparr>)
        })"

definition event_loop_signal_lower :: "ptr \<Rightarrow> ipc \<Rightarrow> ipc option" where
  "event_loop_signal_lower hh s =
     (if hh = NULL then Some s
      else
        do {
          g \<leftarrow> i_handles s hh;
          if fst (hh_signal g) = 0 then Some s
          else Some (s\<lparr>os_pipes := (os_pipes s)(hh_signal g := os_pipes s (hh_signal g) - 1)\<rparr>)
        })"

definition is_event_loop_thread :: "env \<Rightarrow> ptr \<Rightarrow> ipc \<Rightarrow> bool option" where
  "is_event_loop_thread E hh s = map_option (\<lambda>g. hh_th g = e_self E) (i_handles s hh)"

definition haggle_event_loop_is_running :: "ptr \<Rightarrow> ipc \<Rightarrow> int option" where
  "haggle_event_loop_is_running hh s = (if hh = NULL then Some HAGGLE_HANDLE_ERROR else map_option hh_event_loop_running (i_handles s hh))"

definition haggle_event_loop_stop :: "env \<Rightarrow> ptr \<Rightarrow> ipc \<Rightarrow> (int \<times> ipc) option" where
  "haggle_event_loop_stop E hh s =
     (if hh = NULL then Some (HAGGLE_PARAM_ERROR, s\<lparr>libhaggle_errno := LIBHAGGLE_ERR_BAD_HANDLE\<rparr>)
      else
        do {
          g \<leftarrow> i_handles s hh;
          if hh_event_loop_running g = 0 then Some (HAGGLE_EVENT_LOOP_ERROR, s)
          else
            do {
              s \<leftarrow> event_loop_signal_raise hh s;
              self \<leftarrow> is_event_loop_thread E hh s;
              if self then Some (HAGGLE_NO_ERROR, set_handle hh (g\<lparr>hh_event_loop_running := 0\<rparr>) s)
              else if hh_th g \<noteq> 0 then
                do {
                  s \<leftarrow> e_join E (hh_th g) s;
                  g \<leftarrow> i_handles s hh;
                  Some (HAGGLE_NO_ERROR, set_handle hh (g\<lparr>hh_th := 0\<rparr>) s)
                }
              else Some (HAGGLE_NO_ERROR, s)
            }
        })"

end
