(* ===== verification/Registration.thy ===== *)
theory Registration
  imports Ipc
begin

text \<open>
  Finding and starting the daemon, and the life of a handle: registration with the daemon and deregistration
  (\<open>src/src/libhaggle/ipc.c\<close>).
\<close>

section \<open>The daemon\<close>

definition HAGGLE_DAEMON_ERROR :: int where "HAGGLE_DAEMON_ERROR = HAGGLE_ERROR"
definition HAGGLE_DAEMON_NOT_RUNNING :: int where "HAGGLE_DAEMON_NOT_RUNNING = 0"
definition HAGGLE_DAEMON_RUNNING :: int where "HAGGLE_DAEMON_RUNNING = 1"
definition HAGGLE_DAEMON_CRASHED :: int where "HAGGLE_DAEMON_CRASHED = 2"
definition PIDBUFLEN :: nat where "PIDBUFLEN = 200"
definition HAGGLE_PROCESS_NAME :: string where "HAGGLE_PROCESS_NAME = ''haggle''"

text \<open>Text stored at the start of a buffer, and the search for a text in a string.\<close>

definition overlay :: "string \<Rightarrow> string \<Rightarrow> string" where
  "overlay new buf = new @ drop (length new) buf"

fun strstr :: "string \<Rightarrow> string \<Rightarrow> bool" where
  "strstr [] needle \<longleftrightarrow> needle = []"
| "strstr (c # cs) needle \<longleftrightarrow> take (length needle) (c # cs) = needle \<or> strstr cs needle"

text \<open>\<open>strtoul\<close> ends inside of the buffer: at its terminator, or after the number.\<close>

definition number_ends :: "string \<Rightarrow> bool" where
  "number_ends buf \<longleftrightarrow> CHR 0x00 \<in> set buf
     \<or> (case scan_int buf of Some (_, rest) \<Rightarrow> rest \<noteq> [] | None \<Rightarrow> \<not> list_all is_space buf)"

text \<open>The branch for Linux; the second result is the value of \<open>*pid\<close>.\<close>

definition haggle_daemon_pid :: "env \<Rightarrow> (int \<times> u64) option" where
  "haggle_daemon_pid E =
     (case fopen_stream (e_files E) (e_pid_file E) of
        None \<Rightarrow> Some (HAGGLE_DAEMON_NOT_RUNNING, 0)
      | Some fp \<Rightarrow>
          let (text, _) = fread_stream PIDBUFLEN fp;
              buf = overlay text (replicate PIDBUFLEN (CHR 0x00)) in
          if text = [] then Some (HAGGLE_DAEMON_ERROR, 0)
          else if \<not> number_ends buf then None
          else
            let pid = strtoul (c_string buf);
                path = ''/proc/'' @ print_ld (sint pid) @ ''/cmdline'';
                buf = overlay (path @ [CHR 0x00]) buf in
            (case fopen_stream (e_files E) path of
               None \<Rightarrow> Some (HAGGLE_DAEMON_CRASHED, pid)
             | Some fp \<Rightarrow>
                 let (items, _) = fread_stream PIDBUFLEN fp;
                     buf = overlay items buf in
                 if items = [] then Some (HAGGLE_DAEMON_CRASHED, pid)
                 else if strstr (c_string buf) HAGGLE_PROCESS_NAME then Some (HAGGLE_DAEMON_RUNNING, pid)
                 else if CHR 0x00 \<in> set buf then Some (HAGGLE_DAEMON_CRASHED, pid)
                 else None))"

text \<open>
  The loop that waits for the daemon: one call of \<open>select\<close> with a time-out of a second per round, and the callback of the
  application, if there is one.  \<open>time_left\<close> is positive at the start of every round.
\<close>

type_synonym spawn_callback = "(u32 \<Rightarrow> ipc \<Rightarrow> int \<times> ipc) option"

primrec spawn_wait :: "spawn_callback \<Rightarrow> nat \<Rightarrow> u32 \<Rightarrow> ipc \<Rightarrow> int \<times> ipc" where
  "spawn_wait callback 0 time_passed s = (HAGGLE_DAEMON_ERROR, s)"
| "spawn_wait callback (Suc time_left) time_passed s =
     (let (status, s) = os_int s in
      if status < 0 then (HAGGLE_SOCKET_ERROR, haggle_set_socket_error s)
      else if status = 0 then
        let time_passed = time_passed + 1000 in
        if time_left = 0 then (HAGGLE_DAEMON_ERROR, s)
        else (case callback of
                None \<Rightarrow> spawn_wait callback time_left time_passed s
              | Some f \<Rightarrow>
                  let (r, s) = f time_passed s in
                  if r = -1 then (HAGGLE_DAEMON_ERROR, s) else spawn_wait callback time_left time_passed s)
      else (HAGGLE_NO_ERROR, case callback of None \<Rightarrow> s | Some f \<Rightarrow> snd (f 0 s)))"

text \<open>The branch for Unix other than Android.  The address that all handles send to is overwritten.\<close>

definition spawn_daemon_internal :: "string option \<Rightarrow> spawn_callback \<Rightarrow> ipc \<Rightarrow> int \<times> ipc" where
  "spawn_daemon_internal daemonpath callback s =
     (let (sock, s) = os_socket s in
      if sock = -1 then (HAGGLE_SOCKET_ERROR, haggle_set_socket_error s)
      else
        let s = s\<lparr>haggle_addr := (''127.0.0.1'', 50888)\<rparr>; (r, s) = os_int s in
        if r = -1 then (HAGGLE_SOCKET_ERROR, os_close sock (haggle_set_socket_error s))
        else
          (case daemonpath of
             None \<Rightarrow> (HAGGLE_ERROR, os_close sock s)
           | Some path \<Rightarrow>
               let s = s\<lparr>os_commands := os_commands s @ [take 199 (path @ '' -d'')]\<rparr>; (r, s) = os_int s in
               if r \<noteq> 0 then (HAGGLE_ERROR, os_close sock s)
               else let (r, s) = spawn_wait callback 90 0 s in (r, os_close sock s)))"

definition haggle_paths :: "string list" where
  "haggle_paths = [''./haggle'', ''./bin/haggle'', ''/bin/haggle'', ''/usr/bin/haggle'', ''/usr/local/bin/haggle'',
     ''/opt/bin/haggle'', ''/opt/local/bin/haggle'']"

fun spawn_path_loop :: "env \<Rightarrow> string list \<Rightarrow> spawn_callback \<Rightarrow> ipc \<Rightarrow> int \<times> ipc" where
  "spawn_path_loop E [] callback s = (HAGGLE_ERROR, s)"
| "spawn_path_loop E (path # paths) callback s =
     (if e_files E path \<noteq> None then spawn_daemon_internal (Some path) callback s else spawn_path_loop E paths callback s)"

definition haggle_daemon_spawn_with_callback :: "env \<Rightarrow> string option \<Rightarrow> spawn_callback \<Rightarrow> ipc \<Rightarrow> (int \<times> ipc) option" where
  "haggle_daemon_spawn_with_callback E daemonpath callback s =
     do {
       (status, _) \<leftarrow> haggle_daemon_pid E;
       if status = HAGGLE_DAEMON_RUNNING then Some (HAGGLE_NO_ERROR, s)
       else if daemonpath \<noteq> None then Some (spawn_daemon_internal daemonpath callback s)
       else Some (spawn_path_loop E haggle_paths callback s)
     }"

definition haggle_daemon_spawn :: "env \<Rightarrow> string option \<Rightarrow> ipc \<Rightarrow> (int \<times> ipc) option" where
  "haggle_daemon_spawn E daemonpath s = haggle_daemon_spawn_with_callback E daemonpath None s"

section \<open>Registration\<close>

text \<open>The identifier of an application is the digest of its name.\<close>

definition application_id :: "env \<Rightarrow> haggle_handle \<Rightarrow> string \<Rightarrow> haggle_handle" where
  "application_id E g name =
     (let ctxt = SHA1_Update (SHA1_Init (e_sha E)) (map byte_of_char name);
          ident = fst (SHA1_Final (hh_id g) ctxt) in
      g\<lparr>hh_id := ident, hh_id_base64 := c_string (base64_encode (map char_of_byte ident) ID_BASE64_LEN)\<rparr>)"

text \<open>
  The examination of the reply, from \<open>Check the reply message\<close> to the session number: the error code, or the session number
  when the busy signal is not ignored.  The reply is released by the caller in every case.
\<close>

definition check_reply :: "ptr \<Rightarrow> bool \<Rightarrow> ipc \<Rightarrow> ((int + int option) \<times> ipc) option" where
  "check_reply dobj_reply ignore_busy s =
     do {
       (m, s) \<leftarrow> with_mem_val (haggle_dataobject_get_metadata dobj_reply (Some ''Application'')) s;
       if m = NULL then Some (Inl HAGGLE_REGISTRATION_ERROR, s)
       else
         do {
           name \<leftarrow> metadata_get_parameter m (Some ''name'') (i_mem s);
           if name = None then Some (Inl HAGGLE_REGISTRATION_ERROR, s)
           else
             do {
               (mc, s) \<leftarrow> with_mem_val (metadata_get m (Some ''Control'')) s;
               if mc = NULL then Some (Inl HAGGLE_REGISTRATION_ERROR, s)
               else
                 do {
                   type \<leftarrow> metadata_get_parameter mc (Some ''type'') (i_mem s);
                   if ctrl_name_to_type type \<noteq> CTRL_TYPE_REGISTRATION_REPLY then Some (Inl HAGGLE_REGISTRATION_ERROR, s)
                   else
                     do {
                       (m, s) \<leftarrow> with_mem_val (metadata_get mc (Some ''Message'')) s;
                       message \<leftarrow> (if m = NULL then Some None else metadata_get_content m (i_mem s));
                       if message = None then Some (Inl HAGGLE_REGISTRATION_ERROR, s)
                       else if message = Some ''Already registered'' \<and> \<not> ignore_busy then Some (Inl HAGGLE_BUSY_ERROR, s)
                       else if message \<noteq> Some ''OK'' \<and> message \<noteq> Some ''Already registered'' then Some (Inl HAGGLE_REGISTRATION_ERROR, s)
                       else
                         do {
                           (m, s) \<leftarrow> with_mem_val (metadata_get mc (Some ''Directory'')) s;
                           if m = NULL then Some (Inl HAGGLE_REGISTRATION_ERROR, s)
                           else
                             do {
                               (r, s) \<leftarrow> (if haggle_directory s \<noteq> None then Some (HAGGLE_NO_ERROR, s)
                                          else
                                            do {
                                              dir \<leftarrow> metadata_get_content m (i_mem s);
                                              dir \<leftarrow> dir;
                                              let (ok, h) = malloc_ok (i_mem s); s = s\<lparr>i_mem := h\<rparr> in
                                              if \<not> ok then Some (HAGGLE_ALLOC_ERROR, s)
                                              else Some (HAGGLE_NO_ERROR, s\<lparr>haggle_directory := Some dir\<rparr>)
                                            });
                               if r \<noteq> HAGGLE_NO_ERROR then Some (Inl r, s)
                               else if ignore_busy then Some (Inr None, s)
                               else
                                 do {
                                   (m, s) \<leftarrow> with_mem_val (metadata_get mc (Some ''Session'')) s;
                                   if m = NULL then Some (Inl HAGGLE_REGISTRATION_ERROR, s)
                                   else
                                     do {
                                       text \<leftarrow> metadata_get_content m (i_mem s);
                                       text \<leftarrow> text;
                                       session \<leftarrow> atoi text;
                                       Some (Inr (Some session), s)
                                     }
                                 }
                             }
                         }
                     }
                 }
             }
         }
     }"

text \<open>
  \<open>haggle_handle_get_internal\<close> returns the error code and the value stored in \<open>*handle\<close>, \<open>None\<close> when nothing is stored.  On
  the error path the pipe stays open.
\<close>

definition haggle_handle_get_internal :: "env \<Rightarrow> string \<Rightarrow> bool \<Rightarrow> ipc \<Rightarrow> (int \<times> ptr option \<times> ipc) option" where
  "haggle_handle_get_internal E name ignore_busy s =
     do {
       (status, _) \<leftarrow> haggle_daemon_pid E;
       if status \<noteq> HAGGLE_DAEMON_RUNNING then Some (HAGGLE_DAEMON_ERROR, None, s)
       else
         let (hh, h) = malloc (i_mem s); s = s\<lparr>i_mem := h\<rparr> in
         if hh = NULL then Some (HAGGLE_ALLOC_ERROR, None, s)
         else
           let s = s\<lparr>i_mem := (i_mem s)\<lparr>h_links := INIT_LIST hh (h_links (i_mem s))\<rparr>\<rparr>;
               (sock, s) = os_socket s in
           if sock = -1 then Some (HAGGLE_SOCKET_ERROR, None, haggle_set_socket_error (free_handle hh s))
           else
             let (sig, s) = os_pipe s in
             (case sig of
                None \<Rightarrow> Some (HAGGLE_ERROR, None, free_handle hh s)
              | Some sig \<Rightarrow>
                  let g = application_id E (zero_handle\<lparr>hh_sock := sock, hh_signal := sig\<rparr>) name;
                      (ok, h) = malloc_ok (i_mem s);
                      s = s\<lparr>i_mem := h\<rparr> in
                  if \<not> ok then Some (HAGGLE_ALLOC_ERROR, None, free_handle hh s)
                  else
                    let s = set_handle hh (g\<lparr>hh_name := Some name\<rparr>) (s\<lparr>haggle_addr := (''127.0.0.1'', 8787)\<rparr>);
                        out_error = \<lambda>ret s. Some (ret, None, free_handle hh (os_close sock s)) in
                    do {
                      ((dobj, _), s) \<leftarrow> create_control_dataobject E hh CTRL_TYPE_REGISTRATION_REQUEST s;
                      if dobj = NULL then out_error HAGGLE_ALLOC_ERROR s
                      else
                        do {
                          (ret, reply, s) \<leftarrow> haggle_ipc_send_dataobject E hh dobj True 10000 s;
                          s \<leftarrow> with_mem (haggle_dataobject_free dobj) s;
                          if ret \<noteq> HAGGLE_NO_ERROR then out_error (if ret \<ge> 0 then HAGGLE_INTERNAL_ERROR else ret) s
                          else
                            do {
                              dobj_reply \<leftarrow> reply;
                              (r, s) \<leftarrow> check_reply dobj_reply ignore_busy s;
                              (case r of
                                 Inl ret \<Rightarrow> do { s \<leftarrow> with_mem (haggle_dataobject_free dobj_reply) s; out_error ret s }
                               | Inr session \<Rightarrow>
                                   do {
                                     g \<leftarrow> i_handles s hh;
                                     let s = (case session of None \<Rightarrow> s | Some i \<Rightarrow> set_handle hh (g\<lparr>hh_session_id := i\<rparr>) s) in
                                     do {
                                       n \<leftarrow> int_inc (num_handles s);
                                       (_, L) \<leftarrow> list_add hh haggle_handles (h_links (i_mem s));
                                       let s = s\<lparr>num_handles := n, i_mem := (i_mem s)\<lparr>h_links := L\<rparr>\<rparr> in
                                       do { s \<leftarrow> with_mem (haggle_dataobject_free dobj_reply) s; Some (HAGGLE_NO_ERROR, Some hh, s) }
                                     }
                                   })
                            }
                        }
                    })
     }"

definition haggle_handle_get :: "env \<Rightarrow> string \<Rightarrow> ipc \<Rightarrow> (int \<times> ptr option \<times> ipc) option" where
  "haggle_handle_get E name s = haggle_handle_get_internal E name False s"

section \<open>The end of a handle\<close>

definition haggle_handle_free_final :: "ptr \<Rightarrow> ipc \<Rightarrow> ipc option" where
  "haggle_handle_free_final hh s =
     do {
       n \<leftarrow> int_dec (num_handles s);
       (_, L) \<leftarrow> list_detach hh (h_links (i_mem s));
       g \<leftarrow> i_handles s hh;
       let s = s\<lparr>num_handles := n, i_mem := (i_mem s)\<lparr>h_links := L\<rparr>\<rparr>;
           s = os_close (snd (hh_signal g)) (os_close (fst (hh_signal g)) (os_close (hh_sock g) s)) in
       Some (free_handle hh s)
     }"

definition haggle_handle_free :: "env \<Rightarrow> ptr \<Rightarrow> ipc \<Rightarrow> ipc option" where
  "haggle_handle_free E hh s =
     (if hh = NULL then Some s
      else
        do {
          g \<leftarrow> i_handles s hh;
          s \<leftarrow> (if hh_event_loop_running g \<noteq> 0 then map_option snd (haggle_event_loop_stop E hh s) else Some s);
          ((dobj, _), s) \<leftarrow> create_control_dataobject E hh CTRL_TYPE_DEREGISTRATION_NOTICE s;
          s \<leftarrow> (if dobj \<noteq> NULL then map_option snd (send_and_free E hh dobj s) else Some s);
          self \<leftarrow> is_event_loop_thread E hh s;
          if self then do { g \<leftarrow> i_handles s hh; Some (set_handle hh (g\<lparr>hh_handle_free_final := 1\<rparr>) s) }
          else haggle_handle_free_final hh s
        })"

definition haggle_unregister :: "env \<Rightarrow> string \<Rightarrow> ipc \<Rightarrow> (int \<times> ipc) option" where
  "haggle_unregister E name s =
     do {
       (_, hh, s) \<leftarrow> haggle_handle_get_internal E name True s;
       (case hh of
          None \<Rightarrow> Some (HAGGLE_INTERNAL_ERROR, s)
        | Some hh \<Rightarrow> do { s \<leftarrow> haggle_handle_free E hh s; Some (HAGGLE_NO_ERROR, s) })
     }"

definition haggle_handle_get_session_id :: "ptr \<Rightarrow> ipc \<Rightarrow> int option" where
  "haggle_handle_get_session_id hh s = map_option hh_session_id (i_handles s hh)"

end
