(* ===== verification/Event_Loop.thy ===== *)
theory Event_Loop
  imports Registration
begin

text \<open>
  The event loop of an application and the dispatch of events to its handlers (\<open>src/src/libhaggle/ipc.c\<close>).  The loop runs over a
  list of wake-ups: each says what other threads did to the stop signal while the loop waited, what \<open>select\<close> answered, and which
  datagram was there.
\<close>

section \<open>Waiting\<close>

datatype select_result = Sel_error | Sel_timeout | Sel_ready bool

record wake =
  w_stops :: nat
  w_select :: select_result
  w_data :: "string option"

datatype loop_event = EVENT_LOOP_ERROR | EVENT_LOOP_TIMEOUT | EVENT_LOOP_SHOULD_EXIT | EVENT_LOOP_SOCKET_READABLE

text \<open>
  \<open>wait_for_event\<close>: the descriptor of the signal is ready exactly when there are bytes in the pipe; whether the socket is
  ready is part of the wake-up.
\<close>

definition wait_for_event :: "wake \<Rightarrow> ptr \<Rightarrow> ipc \<Rightarrow> (loop_event \<times> ipc) option" where
  "wait_for_event w hh s =
     do {
       g \<leftarrow> i_handles s hh;
       let s = s\<lparr>os_pipes := (os_pipes s)(hh_signal g := os_pipes s (hh_signal g) + w_stops w)\<rparr> in
       Some (case w_select w of
               Sel_error \<Rightarrow> EVENT_LOOP_ERROR
             | Sel_timeout \<Rightarrow> EVENT_LOOP_TIMEOUT
             | Sel_ready sock \<Rightarrow>
                 if os_pipes s (hh_signal g) > 0 then EVENT_LOOP_SHOULD_EXIT
                 else if sock then EVENT_LOOP_SOCKET_READABLE
                 else EVENT_LOOP_ERROR, s)
     }"

section \<open>Dispatch\<close>

definition EVENT_BUFLEN :: nat where "EVENT_BUFLEN = 50000"
definition LIBHAGGLE_EVENT_SHUTDOWN :: int where "LIBHAGGLE_EVENT_SHUTDOWN = 0"
definition LIBHAGGLE_EVENT_NEIGHBOR_UPDATE :: int where "LIBHAGGLE_EVENT_NEIGHBOR_UPDATE = 1"
definition LIBHAGGLE_EVENT_NEW_DATAOBJECT :: int where "LIBHAGGLE_EVENT_NEW_DATAOBJECT = 2"
definition LIBHAGGLE_EVENT_INTEREST_LIST :: int where "LIBHAGGLE_EVENT_INTEREST_LIST = 3"

text \<open>An entry of the handler table; outside of the table the access is undefined.\<close>

definition handler_entry :: "haggle_handle \<Rightarrow> int \<Rightarrow> handler_data option" where
  "handler_entry g type = (if 0 \<le> type \<and> type < int (length (hh_handlers g)) then Some (hh_handlers g ! nat type) else None)"

text \<open>The loop over the interests of an interest list.\<close>

partial_function (option) interests_loop :: "ptr \<Rightarrow> ptr \<Rightarrow> ptr \<Rightarrow> dheap \<Rightarrow> dheap option" where
  "interests_loop al event_m m h =
     (if m = NULL then Some h
      else
        do {
          name \<leftarrow> metadata_get_parameter m (Some ''name'') h;
          weight_str \<leftarrow> metadata_get_parameter m (Some ''weight'') h;
          let weight = (case weight_str of None \<Rightarrow> 1 | Some w \<Rightarrow> strtoul w) in
          do {
            content \<leftarrow> metadata_get_content m h;
            let (a, h) = haggle_attribute_new_weighted name content weight h in
            do {
              (_, h) \<leftarrow> haggle_attributelist_add_attribute al a h;
              (m, h) \<leftarrow> metadata_get_next event_m h;
              interests_loop al event_m m h
            }
          }
        })"

definition handle_event :: "env \<Rightarrow> ptr \<Rightarrow> int \<Rightarrow> ptr \<Rightarrow> ptr \<Rightarrow> ptr \<Rightarrow> ipc \<Rightarrow> (int \<times> ipc) option" where
  "handle_event E hh type dobj app_m event_m s =
     (if event_m = NULL then Some (-1, s)
      else
        do {
          g \<leftarrow> i_handles s hh;
          f \<leftarrow> handler_entry g type;
          if hd_handler f = NULL then Some (0, s)
          else if type = LIBHAGGLE_EVENT_INTEREST_LIST then
            (let (al, h) = haggle_attributelist_new (i_mem s); s = s\<lparr>i_mem := h\<rparr> in
             if al = NULL then Some (-1, s)
             else
               do {
                 (m, s) \<leftarrow> with_mem_val (metadata_get event_m (Some ''Interest'')) s;
                 s \<leftarrow> with_mem (interests_loop al event_m m) s;
                 (ret, e, s) \<leftarrow> e_handler E (hd_handler f) \<lparr>ev_type = type, ev_data = al\<rparr> (hd_arg f) s;
                 s \<leftarrow> (if ret \<noteq> 1 \<and> ev_data e \<noteq> NULL then with_mem (haggle_attributelist_free (ev_data e)) s else Some s);
                 Some (0, s)
               })
          else if type = LIBHAGGLE_EVENT_NEW_DATAOBJECT then
            do {
              s \<leftarrow> (if app_m \<noteq> NULL then with_mem (metadata_free app_m) s else Some s);
              (ret, _, s) \<leftarrow> e_handler E (hd_handler f) \<lparr>ev_type = type, ev_data = dobj\<rparr> (hd_arg f) s;
              Some (ret, s)
            }
          else if type = LIBHAGGLE_EVENT_NEIGHBOR_UPDATE then
            do {
              (nl, s) \<leftarrow> with_mem_val (haggle_nodelist_new_from_metadata (e_ctx E) event_m) s;
              if nl = NULL then Some (-1, s)
              else
                do {
                  (ret, e, s) \<leftarrow> e_handler E (hd_handler f) \<lparr>ev_type = type, ev_data = nl\<rparr> (hd_arg f) s;
                  s \<leftarrow> (if ret \<noteq> 1 \<and> ev_data e \<noteq> NULL then with_mem (haggle_nodelist_free (ev_data e)) s else Some s);
                  Some (0, s)
                }
            }
          else if type = LIBHAGGLE_EVENT_SHUTDOWN then
            do {
              (_, _, s) \<leftarrow> e_handler E (hd_handler f) \<lparr>ev_type = type, ev_data = 0\<rparr> (hd_arg f) s;
              Some (0, s)
            }
          else Some (0, s)
        })"

section \<open>The loop\<close>

text \<open>
  What the loop does with a received text, from the creation of the data object to the call of \<open>handle_event\<close>, in three parts.  The flag says
  whether the end of the loop body was reached, where \<open>error_retries\<close> is reset; the other ways release the object and lead to
  \<open>continue\<close>.  The name of the application and the control type are compared without a check for \<open>NULL\<close>.
\<close>

definition drop_object :: "ptr \<Rightarrow> ipc \<Rightarrow> (bool \<times> ipc) option" where
  "drop_object dobj s = do { s \<leftarrow> with_mem (haggle_dataobject_free dobj) s; Some (False, s) }"

definition receive_event_type :: "env \<Rightarrow> ptr \<Rightarrow> ptr \<Rightarrow> ptr \<Rightarrow> ptr \<Rightarrow> ipc \<Rightarrow> (bool \<times> ipc) option" where
  "receive_event_type E hh dobj app_m ctrl_m s =
     do {
       (event_m, s) \<leftarrow> with_mem_val (metadata_get ctrl_m (Some ''Event'')) s;
       if event_m = NULL then drop_object dobj s
       else
         do {
           event_type_str \<leftarrow> metadata_get_parameter event_m (Some ''type'') (i_mem s);
           (case event_type_str of
              None \<Rightarrow> drop_object dobj s
            | Some str \<Rightarrow>
                do {
                  event_type \<leftarrow> atoi str;
                  (ret, s) \<leftarrow> handle_event E hh event_type dobj app_m event_m s;
                  s \<leftarrow> (if ret \<le> 0 then with_mem (haggle_dataobject_free dobj) s else Some s);
                  Some (True, s)
                })
         }
     }"

definition receive_control :: "env \<Rightarrow> ptr \<Rightarrow> ptr \<Rightarrow> ptr \<Rightarrow> ipc \<Rightarrow> (bool \<times> ipc) option" where
  "receive_control E hh dobj app_m s =
     do {
       (ctrl_m, s) \<leftarrow> with_mem_val (metadata_get app_m (Some ''Control'')) s;
       if ctrl_m = NULL then drop_object dobj s
       else
         do {
           type \<leftarrow> metadata_get_parameter ctrl_m (Some ''type'') (i_mem s);
           type \<leftarrow> type;
           if Some type \<noteq> ctrl_type_name CTRL_TYPE_EVENT then drop_object dobj s
           else receive_event_type E hh dobj app_m ctrl_m s
         }
     }"

definition receive_event :: "env \<Rightarrow> ptr \<Rightarrow> string \<Rightarrow> ipc \<Rightarrow> (bool \<times> ipc) option" where
  "receive_event E hh raw s =
     do {
       (dobj, s) \<leftarrow> with_mem_val (haggle_dataobject_new_from_raw (e_xml E) (e_ctx E) (e_locals E) (Some raw)) s;
       if dobj = NULL then Some (False, s)
       else
         do {
           (app_m, s) \<leftarrow> with_mem_val (haggle_dataobject_get_metadata dobj (Some ''Application'')) s;
           if app_m = NULL then drop_object dobj s
           else
             do {
               name \<leftarrow> metadata_get_parameter app_m (Some ''name'') (i_mem s);
               name \<leftarrow> name;
               g \<leftarrow> i_handles s hh;
               own \<leftarrow> hh_name g;
               if name \<noteq> own \<and> name \<noteq> ''All Applications'' then drop_object dobj s
               else receive_control E hh dobj app_m s
             }
         }
     }"

text \<open>\<open>error_retries++ == 4\<close>, in the two places where an error is counted.\<close>

definition count_error :: "ptr \<Rightarrow> u32 \<Rightarrow> ipc \<Rightarrow> (u32 \<times> ipc) option" where
  "count_error hh retries s =
     (if retries = 4 then do { g \<leftarrow> i_handles s hh; Some (retries + 1, set_handle hh (g\<lparr>hh_event_loop_running := 0\<rparr>) s) }
      else Some (retries + 1, s))"

text \<open>One round of the loop: \<open>None\<close> for \<open>break\<close>, otherwise the new value of \<open>error_retries\<close>.\<close>

definition event_loop_round :: "env \<Rightarrow> wake \<Rightarrow> ptr \<Rightarrow> u32 \<Rightarrow> ipc \<Rightarrow> (u32 option \<times> ipc) option" where
  "event_loop_round E w hh retries s =
     do {
       (ev, s) \<leftarrow> wait_for_event w hh s;
       (case ev of
          EVENT_LOOP_ERROR \<Rightarrow> do { (retries, s) \<leftarrow> count_error hh retries s; Some (Some retries, s) }
        | EVENT_LOOP_TIMEOUT \<Rightarrow> Some (None, s)
        | EVENT_LOOP_SHOULD_EXIT \<Rightarrow>
            do {
              s \<leftarrow> event_loop_signal_lower hh s;
              g \<leftarrow> i_handles s hh;
              Some (None, set_handle hh (g\<lparr>hh_event_loop_running := 0\<rparr>) s)
            }
        | EVENT_LOOP_SOCKET_READABLE \<Rightarrow>
            (case w_data w of
               None \<Rightarrow> do { (retries, s) \<leftarrow> count_error hh retries s; Some (Some retries, s) }
             | Some d \<Rightarrow>
                 do {
                   (done, s) \<leftarrow> receive_event E hh (take EVENT_BUFLEN d) s;
                   Some (Some (if done then 0 else retries), s)
                 }))
     }"

text \<open>
  The loop over the wake-ups that come: the first result says whether it was left; when the wake-ups are used up, it is waiting.
\<close>

fun event_loop_while :: "env \<Rightarrow> wake list \<Rightarrow> ptr \<Rightarrow> u32 \<Rightarrow> ipc \<Rightarrow> (bool \<times> u32 \<times> ipc) option" where
  "event_loop_while E ws hh retries s =
     do {
       g \<leftarrow> i_handles s hh;
       if hh_event_loop_running g = 0 then Some (True, retries, s)
       else
         (case ws of
            [] \<Rightarrow> Some (False, retries, s)
          | w # ws \<Rightarrow>
              do {
                (r, s) \<leftarrow> event_loop_round E w hh retries s;
                (case r of
                   None \<Rightarrow> Some (True, retries, s)
                 | Some retries \<Rightarrow> event_loop_while E ws hh retries s)
              })
     }"

text \<open>What follows the loop.\<close>

definition event_loop_end :: "ptr \<Rightarrow> ipc \<Rightarrow> ipc option" where
  "event_loop_end hh s =
     do {
       g \<leftarrow> i_handles s hh;
       if hh_handle_free_final g \<noteq> 0 then haggle_handle_free_final hh s else Some s
     }"

definition event_loop_rest :: "env \<Rightarrow> wake list \<Rightarrow> ptr \<Rightarrow> u32 \<Rightarrow> ipc \<Rightarrow> (bool \<times> ipc) option" where
  "event_loop_rest E ws hh retries s =
     do {
       (left, _, s) \<leftarrow> event_loop_while E ws hh retries s;
       if \<not> left then Some (False, s)
       else
         do {
           g \<leftarrow> i_handles s hh;
           s \<leftarrow> (if hh_stop g \<noteq> NULL then e_callback E (hh_stop g) (hh_arg g) s else Some s);
           s \<leftarrow> event_loop_end hh s;
           Some (True, s)
         }
     }"

text \<open>\<open>haggle_event_loop\<close>: whether it returned, and the state.\<close>

definition haggle_event_loop :: "env \<Rightarrow> wake list \<Rightarrow> ptr \<Rightarrow> ipc \<Rightarrow> (bool \<times> ipc) option" where
  "haggle_event_loop E ws hh s =
     (let (ok, h) = malloc_ok (i_mem s); s = s\<lparr>i_mem := h\<rparr> in
      if \<not> ok then do { s \<leftarrow> event_loop_end hh s; Some (True, s) }
      else
        do {
          g \<leftarrow> i_handles s hh;
          let s = set_handle hh (g\<lparr>hh_event_loop_running := 1\<rparr>) s in
          do {
            s \<leftarrow> (if hh_start g \<noteq> NULL then e_callback E (hh_start g) (hh_arg g) s else Some s);
            event_loop_rest E ws hh 0 s
          }
        })"

section \<open>Starting the loop\<close>

text \<open>The checks that both ways to start the loop make, \<open>None\<close> when they pass.\<close>

definition event_loop_checks :: "ptr \<Rightarrow> ipc \<Rightarrow> ((int \<times> ipc) option) option" where
  "event_loop_checks hh s =
     (if hh = NULL then Some (Some (HAGGLE_PARAM_ERROR, s\<lparr>libhaggle_errno := LIBHAGGLE_ERR_BAD_HANDLE\<rparr>))
      else
        do {
          g \<leftarrow> i_handles s hh;
          if hh_num_handlers g = 0 then Some (Some (HAGGLE_EVENT_HANDLER_ERROR, s))
          else if hh_event_loop_running g \<noteq> 0 then Some (Some (HAGGLE_EVENT_LOOP_ERROR, s))
          else Some None
        })"

text \<open>\<open>haggle_event_loop_run\<close> returns after the loop; the result is \<open>None\<close> while it is waiting.\<close>

definition haggle_event_loop_run :: "env \<Rightarrow> wake list \<Rightarrow> ptr \<Rightarrow> ipc \<Rightarrow> (int option \<times> ipc) option" where
  "haggle_event_loop_run E ws hh s =
     do {
       c \<leftarrow> event_loop_checks hh s;
       (case c of
          Some (r, s) \<Rightarrow> Some (Some r, s)
        | None \<Rightarrow>
            do {
              (returned, s) \<leftarrow> haggle_event_loop E ws hh s;
              Some (if returned then Some HAGGLE_NO_ERROR else None, s)
            })
     }"

text \<open>The new thread is the answer of \<open>pthread_create\<close>; it runs \<open>haggle_event_loop\<close>.\<close>

definition haggle_event_loop_run_async :: "ptr \<Rightarrow> ipc \<Rightarrow> (int \<times> ipc) option" where
  "haggle_event_loop_run_async hh s =
     do {
       c \<leftarrow> event_loop_checks hh s;
       (case c of
          Some (r, s) \<Rightarrow> Some (r, s)
        | None \<Rightarrow>
            let (t, s) = os_int s in
            if t \<le> 0 then Some (HAGGLE_INTERNAL_ERROR, s)
            else do { g \<leftarrow> i_handles s hh; Some (HAGGLE_NO_ERROR, set_handle hh (g\<lparr>hh_th := nat t\<rparr>) s) })
     }"

definition haggle_event_loop_register_callbacks :: "ptr \<Rightarrow> ptr \<Rightarrow> ptr \<Rightarrow> ptr \<Rightarrow> ipc \<Rightarrow> (int \<times> ipc) option" where
  "haggle_event_loop_register_callbacks hh start stop arg s =
     (if hh = NULL \<or> start = NULL \<and> stop = NULL then Some (-1, s)
      else
        do {
          g \<leftarrow> i_handles s hh;
          if hh_start g \<noteq> NULL then Some (-1, s)
          else if hh_stop g \<noteq> NULL then Some (-1, s)
          else Some (HAGGLE_NO_ERROR, set_handle hh (g\<lparr>hh_start := start, hh_stop := stop, hh_arg := arg\<rparr>) s)
        })"

section \<open>Stopping the loop\<close>

declare event_loop_while.simps [simp del]

lemma event_loop_while_stopped: "i_handles s hh = Some g \<Longrightarrow> hh_event_loop_running g = 0 \<Longrightarrow> event_loop_while E ws hh r s = Some (True, r, s)"
  by (subst event_loop_while.simps) simp

lemma event_loop_while_waiting: "i_handles s hh = Some g \<Longrightarrow> hh_event_loop_running g \<noteq> 0 \<Longrightarrow> event_loop_while E [] hh r s = Some (False, r, s)"
  by (subst event_loop_while.simps) simp

lemma event_loop_while_step: "i_handles s hh = Some g \<Longrightarrow> hh_event_loop_running g \<noteq> 0 \<Longrightarrow> event_loop_while E (w # ws) hh r s =
    do {
      (k, s) \<leftarrow> event_loop_round E w hh r s;
      (case k of None \<Rightarrow> Some (True, r, s) | Some r \<Rightarrow> event_loop_while E ws hh r s)
    }"
  by (subst event_loop_while.simps) simp

lemma set_handle_simps [simp]:
  "i_handles (set_handle hh g s) = (i_handles s)(hh \<mapsto> g)" "i_mem (set_handle hh g s) = i_mem s" "os_pipes (set_handle hh g s) = os_pipes s"
  "os_answers (set_handle hh g s) = os_answers s" "os_sent (set_handle hh g s) = os_sent s"
  by (simp_all add: set_handle_def)

text \<open>The counter stays below five while the loop runs.\<close>

lemma small_retries: "(r :: u32) \<le> 4 \<Longrightarrow> r \<noteq> 4 \<Longrightarrow> r + 1 \<le> 4"
  by (simp add: word_le_nat_alt unat_word_ariths word_unat_eq_iff)

lemma count_error_retries:
  assumes "count_error hh r s = Some (r', s')" "r \<le> 4"
  shows "r' \<le> 4 \<or> (\<exists>g. i_handles s' hh = Some g \<and> hh_event_loop_running g = 0)"
  using assms small_retries [of r] by (auto simp: count_error_def bind_eq_Some_conv split: if_splits)

lemma round_retries:
  assumes "event_loop_round E w hh r s = Some (Some r', s')" "r \<le> 4"
  shows "r' \<le> 4 \<or> (\<exists>g. i_handles s' hh = Some g \<and> hh_event_loop_running g = 0)"
proof -
  obtain ev s1 where ev: "wait_for_event w hh s = Some (ev, s1)" using assms(1) by (auto simp: event_loop_round_def bind_eq_Some_conv)
  then have "count_error hh r s1 = Some (r', s') \<or> r' \<in> {0, r}"
    using assms(1) by (cases ev) (auto simp: event_loop_round_def bind_eq_Some_conv split: option.splits if_splits)
  then show ?thesis using count_error_retries [OF _ assms(2)] assms(2) by auto
qed

lemma waiting_retries:
  assumes "event_loop_while E ws hh r s = Some (False, r', s')" "r \<le> 4"
  shows "r' \<le> 4 \<and> (\<exists>g. i_handles s' hh = Some g \<and> hh_event_loop_running g \<noteq> 0)"
  using assms
proof (induction ws arbitrary: r s)
  case Nil
  then show ?case by (auto simp: event_loop_while.simps [of E "[]"] bind_eq_Some_conv split: if_splits)
next
  case (Cons w ws)
  obtain g where g: "i_handles s hh = Some g" "hh_event_loop_running g \<noteq> 0"
    using Cons.prems(1) by (auto simp: event_loop_while.simps [of E "w # ws"] bind_eq_Some_conv split: if_splits)
  then obtain r1 s1 where r1: "event_loop_round E w hh r s = Some (Some r1, s1)" "event_loop_while E ws hh r1 s1 = Some (False, r', s')"
    using Cons.prems(1) by (auto simp: event_loop_while_step bind_eq_Some_conv split: option.splits)
  then have "r1 \<le> 4" using round_retries [OF r1(1) Cons.prems(2)] by (auto simp: event_loop_while_stopped)
  then show ?case using Cons.IH r1(2) by blast
qed

text \<open>With the signal raised, every round counts an error or leaves the loop.\<close>

definition only_loop :: "ptr \<Rightarrow> ipc \<Rightarrow> ipc \<Rightarrow> bool" where
  "only_loop hh s s' \<longleftrightarrow> i_mem s' = i_mem s \<and> os_answers s' = os_answers s \<and> os_sent s' = os_sent s
     \<and> (\<forall>q. q \<noteq> hh \<longrightarrow> i_handles s' q = i_handles s q)"

lemma raised_loop_left:
  assumes "i_handles s hh = Some g" "hh \<noteq> NULL" "fst (hh_signal g) \<noteq> 0" "os_pipes s (hh_signal g) > 0"
    "r \<le> 4" "5 - unat r \<le> length ws" "\<forall>w \<in> set ws. w_select w \<noteq> Sel_timeout"
  shows "\<exists>r' s'. event_loop_while E ws hh r s = Some (True, r', s') \<and> only_loop hh s s'
    \<and> i_handles s' hh = Some (g\<lparr>hh_event_loop_running := 0\<rparr>)"
  using assms
proof (induction ws arbitrary: r s g)
  case Nil
  have "unat r \<le> 4" using Nil.prems(5) by (simp add: word_le_nat_alt)
  then show ?case using Nil.prems(6) by simp
next
  case (Cons w ws)
  show ?case
  proof (cases "hh_event_loop_running g = 0")
    case True
    then have "g\<lparr>hh_event_loop_running := 0\<rparr> = g" by simp
    then show ?thesis using event_loop_while_stopped [OF Cons.prems(1) True] Cons.prems(1) by (simp add: only_loop_def)
  next
    case False
    let ?s = "s\<lparr>os_pipes := (os_pipes s)(hh_signal g := os_pipes s (hh_signal g) + w_stops w)\<rparr>"
    have step: "event_loop_while E (w # ws) hh r s = (case w_select w of
        Sel_error \<Rightarrow> if r = 4 then Some (True, r + 1, set_handle hh (g\<lparr>hh_event_loop_running := 0\<rparr>) ?s) else event_loop_while E ws hh (r + 1) ?s
      | _ \<Rightarrow> Some (True, r, set_handle hh (g\<lparr>hh_event_loop_running := 0\<rparr>)
               (s\<lparr>os_pipes := (os_pipes s)(hh_signal g := os_pipes s (hh_signal g) + w_stops w - 1)\<rparr>)))"
      using Cons.prems False by (auto simp: event_loop_while_step event_loop_round_def wait_for_event_def count_error_def
          event_loop_signal_lower_def event_loop_while_stopped Let_def split: select_result.splits)
    show ?thesis
    proof (cases "w_select w = Sel_error \<and> r \<noteq> 4")
      case True
      have "unat (r + 1) = unat r + 1" "r + 1 \<le> 4"
        using Cons.prems(5) True by (simp_all add: word_le_nat_alt unat_word_ariths word_unat_eq_iff)
      then have "\<exists>r' s'. event_loop_while E ws hh (r + 1) ?s = Some (True, r', s') \<and> only_loop hh ?s s'
          \<and> i_handles s' hh = Some (g\<lparr>hh_event_loop_running := 0\<rparr>)"
        using Cons.prems by (intro Cons.IH) auto
      then show ?thesis using step True by (auto simp: only_loop_def)
    next
      case False
      then show ?thesis using step by (auto simp: only_loop_def split: select_result.splits)
    qed
  qed
qed

text \<open>
  C6: Stopping the event loop: when the loop of a handle waits, after any run, and another thread calls \<open>haggle_event_loop_stop\<close>, then the
  loop ends after at most five further rounds, whatever they bring, \<open>haggle_event_loop_stop\<close> returns without error, and the handle is
  marked as not running and without a thread.  (The stop callback of the application must return and leave the handle
  alone; a wait without time limit does not time out.)
\<close>

theorem stop_ends_event_loop:
  assumes "event_loop_while E0 ws0 hh 0 s0 = Some (False, r, s)" "i_handles s hh = Some g" "hh \<noteq> NULL"
    and "hh_th g \<noteq> 0" "hh_th g \<noteq> e_self E" "fst (hh_signal g) \<noteq> 0" "snd (hh_signal g) \<noteq> 0" "hh_handle_free_final g = 0"
    and "5 \<le> length ws" "\<forall>w \<in> set ws. w_select w \<noteq> Sel_timeout"
    and "\<And>s. hh_stop g \<noteq> NULL \<Longrightarrow> \<exists>s'. e_callback E0 (hh_stop g) (hh_arg g) s = Some s' \<and> i_handles s' hh = i_handles s hh"
    and "\<And>s. e_join E (hh_th g) s = do { (ended, s) \<leftarrow> event_loop_rest E0 ws hh r s; if ended then Some s else None }"
  shows "\<exists>s'. haggle_event_loop_stop E hh s = Some (HAGGLE_NO_ERROR, s')
    \<and> i_handles s' hh = Some (g\<lparr>hh_event_loop_running := 0, hh_th := 0\<rparr>)"
proof -
  let ?s = "s\<lparr>os_pipes := (os_pipes s)(hh_signal g := Suc (os_pipes s (hh_signal g)))\<rparr>"
  have r: "r \<le> 4" "hh_event_loop_running g \<noteq> 0" using waiting_retries [OF assms(1)] assms(2) by auto
  obtain r' s1 where s1: "event_loop_while E0 ws hh r ?s = Some (True, r', s1)" "i_handles s1 hh = Some (g\<lparr>hh_event_loop_running := 0\<rparr>)"
    using raised_loop_left [of ?s hh g r ws E0] assms(2,3,6,10) r(1) le_trans [OF diff_le_self assms(9)] by auto
  obtain s2 where s2: "(if hh_stop g \<noteq> NULL then e_callback E0 (hh_stop g) (hh_arg g) s1 else Some s1) = Some s2"
    "i_handles s2 hh = Some (g\<lparr>hh_event_loop_running := 0\<rparr>)"
    using assms(11) [of s1] s1(2) by (cases "hh_stop g = NULL") auto
  have "event_loop_rest E0 ws hh r ?s = Some (True, s2)"
    using s1 s2 assms(8) by (cases "hh_stop g = NULL") (simp_all add: event_loop_rest_def event_loop_end_def)
  then have "haggle_event_loop_stop E hh s = Some (HAGGLE_NO_ERROR, set_handle hh (g\<lparr>hh_event_loop_running := 0, hh_th := 0\<rparr>) s2)"
    using assms r(2) s2(2) by (simp add: haggle_event_loop_stop_def event_loop_signal_raise_def is_event_loop_thread_def)
  then show ?thesis by simp
qed

section \<open>Examples\<close>

text \<open>Surroundings in which nothing answers, and an application with a handler for new data objects whose loop is running.\<close>

definition sample_env :: env where
  "sample_env = \<lparr>e_xml = sample_libxml, e_ctx = \<lparr>ctx_i = 0, ctx_buf = ''????''\<rparr>, e_locals = (0, 0), e_sha = any_context, e_idbuf = [],
     e_now = (5, 7), e_pid_file = ''/haggle.pid'', e_files = Map.empty, e_self = 8, e_handler = (\<lambda>f e a s. None),
     e_callback = (\<lambda>f a s. None), e_join = (\<lambda>t s. None)\<rparr>"

definition sample_ipc :: ipc where
  "sample_ipc = \<lparr>i_mem = sample_objects, i_handles = Map.empty, haggle_addr = (''127.0.0.1'', 8787), haggle_directory = None,
     libhaggle_errno = 0, num_handles = 0, os_answers = [], os_errno = 0, os_fds = [], os_pipes = (\<lambda>_. 0), os_sent = [], os_commands = []\<rparr>"

definition sample_handle :: haggle_handle where
  "sample_handle = zero_handle\<lparr>hh_signal := (4, 5), hh_num_handlers := 1, hh_event_loop_running := 1, hh_th := 9, hh_name := Some ''app'',
     hh_handlers := (hh_handlers zero_handle)[2 := \<lparr>hd_arg = 0, hd_handler = 77\<rparr>]\<rparr>"

definition sample_connected :: ipc where
  "sample_connected = sample_ipc\<lparr>i_handles := [2 \<mapsto> sample_handle]\<rparr>"

theorem stop_ends_event_loop_witness:
  "\<exists>s' g. haggle_event_loop_stop (sample_env\<lparr>e_join := (\<lambda>t s. do {
       (ended, s) \<leftarrow> event_loop_rest sample_env (replicate 5 \<lparr>w_stops = 0, w_select = Sel_error, w_data = None\<rparr>) 2 0 s;
       if ended then Some s else None })\<rparr>) 2 sample_connected = Some (HAGGLE_NO_ERROR, s')
     \<and> i_handles s' 2 = Some g \<and> hh_event_loop_running g = 0"
proof -
  have g: "i_handles sample_connected 2 = Some sample_handle" "hh_event_loop_running sample_handle \<noteq> 0"
    by (simp_all add: sample_connected_def sample_handle_def)
  show ?thesis
    using stop_ends_event_loop [OF event_loop_while_waiting [OF g, of sample_env 0] g(1), of "sample_env\<lparr>e_join := (\<lambda>t s. do {
        (ended, s) \<leftarrow> event_loop_rest sample_env (replicate 5 \<lparr>w_stops = 0, w_select = Sel_error, w_data = None\<rparr>) 2 0 s;
        if ended then Some s else None })\<rparr>" "replicate 5 \<lparr>w_stops = 0, w_select = Sel_error, w_data = None\<rparr>"]
    by (auto simp: sample_handle_def zero_handle_def sample_env_def)
qed

end
