(* ===== verification/Event_Dispatch.thy ===== *)
theory Event_Dispatch
  imports Event_Loop
begin

text \<open>
  What the event loop does with a datagram (\<open>receive_event\<close> of \<open>Event_Loop\<close>): which ones reach a handler, which ones are dropped, and which
  ones the code cannot cope with, by the values of the tree that the text describes.
\<close>

section \<open>What a datagram asks for\<close>

definition child :: "string \<Rightarrow> meta \<Rightarrow> meta option" where
  "child n v = find (\<lambda>m. me_name m = n) (me_subs v)"

definition without_child :: "string \<Rightarrow> meta \<Rightarrow> meta" where
  "without_child n v = (case v of Meta nm c ps ms \<Rightarrow>
     Meta nm c ps (takeWhile (\<lambda>m. me_name m \<noteq> n) ms @ tl (dropWhile (\<lambda>m. me_name m \<noteq> n) ms)))"

datatype verdict = Undefined | Dropped | Deliver meta int

definition event_verdict :: "meta \<Rightarrow> verdict" where
  "event_verdict ctrl = (case child ''Event'' ctrl of
     None \<Rightarrow> Dropped
   | Some ev \<Rightarrow> (case map_of (me_params ev) ''type'' of
       None \<Rightarrow> Dropped
     | Some str \<Rightarrow> (case atoi str of None \<Rightarrow> Undefined | Some i \<Rightarrow> Deliver ev i)))"

definition control_verdict :: "meta \<Rightarrow> verdict" where
  "control_verdict app = (case child ''Control'' app of
     None \<Rightarrow> Dropped
   | Some ctrl \<Rightarrow> (case map_of (me_params ctrl) ''type'' of
       None \<Rightarrow> Undefined
     | Some type \<Rightarrow> if type = ''event'' then event_verdict ctrl else Dropped))"

definition verdict_of :: "string \<Rightarrow> meta \<Rightarrow> verdict" where
  "verdict_of own v = (case child ''Application'' v of
     None \<Rightarrow> Dropped
   | Some app \<Rightarrow> (case map_of (me_params app) ''name'' of
       None \<Rightarrow> Undefined
     | Some name \<Rightarrow> if name = own \<or> name = ''All Applications'' then control_verdict app else Dropped))"

section \<open>Looking up a child\<close>

lemma find_nth_first:
  assumes "k \<le> length ms" "n \<notin> me_name ` set (take k ms)" "k < length ms \<longrightarrow> me_name (ms ! k) = n"
  shows "find (\<lambda>m. me_name m = n) ms = (if k = length ms then None else Some (ms ! k))"
    "takeWhile (\<lambda>m. me_name m \<noteq> n) ms = take k ms"
proof -
  have a: "\<forall>m \<in> set (take k ms). me_name m \<noteq> n" using assms(2) by force
  have "takeWhile (\<lambda>m. me_name m \<noteq> n) (take k ms @ drop k ms) = take k ms @ takeWhile (\<lambda>m. me_name m \<noteq> n) (drop k ms)"
    using a by (intro takeWhile_append2) auto
  moreover have "takeWhile (\<lambda>m. me_name m \<noteq> n) (drop k ms) = []" using assms(1,3) by (cases "drop k ms") (auto simp: drop_eq_Nil2 nth_via_drop)
  ultimately show t: "takeWhile (\<lambda>m. me_name m \<noteq> n) ms = take k ms" by simp
  show "find (\<lambda>m. me_name m = n) ms = (if k = length ms then None else Some (ms ! k))"
  proof (cases "k = length ms")
    case True
    then show ?thesis using a by (simp add: find_None_iff)
  next
    case False
    then have "k < length ms" using assms(1) by simp
    moreover have "me_name (ms ! j) \<noteq> n" if "j < k" for j using a that \<open>k < length ms\<close> nth_mem [of j "take k ms"] by auto
    ultimately show ?thesis using assms(3) False by (auto simp: find_Some_iff)
  qed
qed

text \<open>The subtree of a child and its position.\<close>

definition subtree :: "string \<Rightarrow> mtree \<Rightarrow> meta \<Rightarrow> mtree \<Rightarrow> bool" where
  "subtree n t v u \<longleftrightarrow> (\<exists>k < length (me_subs v). k < length (mt_sub t) \<and> u = mt_sub t ! k \<and> child n v = Some (me_subs v ! k)
     \<and> takeWhile (\<lambda>m. me_name m \<noteq> n) (me_subs v) = take k (me_subs v))"

lemma get_child:
  assumes T: "tree_in h t v" and "n \<noteq> []"
  shows "\<exists>h'. walked {mt_ptr t} h h' \<and> (case child n v of
      None \<Rightarrow> metadata_get (mt_ptr t) (Some n) h = Some (NULL, h')
    | Some w \<Rightarrow> \<exists>u. metadata_get (mt_ptr t) (Some n) h = Some (mt_ptr u, h') \<and> subtree n t v u \<and> tree_in h' u w)"
proof -
  obtain p al xs ts nm c ps ms where e: "t = MT p al xs ts" "v = Meta nm c ps ms" by (cases t; cases v)
  obtain k h' where k: "metadata_get p (Some n) h = Some (if k = length ts then NULL else mt_ptr (ts ! k), h')"
    "k \<le> length ts" "n \<notin> me_name ` set (take k ms)" "k < length ts \<longrightarrow> me_name (ms ! k) = n" "walked {p} h h'"
    using find_child [OF T [unfolded e] assms(2)] by blast
  have len: "length ts = length ms" using T unfolding e by (auto simp: tree_in_MT dest: list_all2_lengthD)
  note f = find_nth_first [of k ms n]
  have T': "tree_in h' t v" by (rule walked_tree_in [OF k(5) T])
  show ?thesis
  proof (cases "k = length ts")
    case True
    then have "child n v = None" using f(1) k(2-4) len e by (simp add: child_def)
    then show ?thesis using k(1,5) True e by auto
  next
    case False
    then have kl: "k < length ts" using k(2) by simp
    have "child n v = Some (ms ! k)" using f(1) k(2-4) len False e by (simp add: child_def)
    moreover have "subtree n t v (ts ! k)" using calculation f(2) k(2-4) len kl e by (auto simp: subtree_def)
    moreover have "tree_in h' (ts ! k) (ms ! k)" using tree_in_child [OF T' [unfolded e] kl] .
    ultimately show ?thesis using k(1,5) False e by auto
  qed
qed

lemma subtree_owned: "subtree n t v u \<Longrightarrow> set (owned u) \<subseteq> set (owned t) \<and> mt_ptr u \<in> set (owned t)"
proof -
  assume "subtree n t v u"
  then have "u \<in> set (mt_sub t)" by (auto simp: subtree_def)
  then show ?thesis using mt_ptrs_owned [of "mt_sub t"] by (cases t) auto
qed


section \<open>The object of a datagram\<close>

lemma with_mem_val_simp: "with_mem_val f (s\<lparr>i_mem := h\<rparr>) = map_option (\<lambda>(x, m). (x, s\<lparr>i_mem := m\<rparr>)) (f h)"
  by (simp add: with_mem_val_def)

lemma with_mem_simp: "with_mem f (s\<lparr>i_mem := h\<rparr>) = map_option (\<lambda>m. s\<lparr>i_mem := m\<rparr>) (f h)"
  by (simp add: with_mem_def)

lemma object_building_walked:
  assumes "object_building b h0 p al t v s h" "walked {q} h h'" "q \<in> set (owned t)"
  shows "object_building b h0 p al t v s h'"
proof -
  obtain d vs where s: "s = (d, vs)" by (cases s)
  then have d: "h_dobjs h p = Some (placed al (mt_ptr t) d)" using assms(1) by (auto simp: object_building_def object_in_def)
  then have "h_dobjs h' p = Some (placed al (mt_ptr t) d)" using assms(2) by (auto simp: walked_def)
  then have "set_dobj p (placed al (mt_ptr t) d) h' = h'" by (simp add: set_dobj_def fun_upd_idem)
  then have "rewritten p (placed al (mt_ptr t) d) {q} h h'" unfolding rewritten_def using assms(2) by metis
  then show ?thesis using object_building_rewritten [of b h0 p al t v d vs h d q h'] assms(1,3) s by blast
qed

lemma object_building_tree: "object_building b h0 p al t v s h \<Longrightarrow> tree_in h t v"
  by (auto simp: object_building_def object_in_def)

text \<open>
  The three ways of the data object through the loop, where \<open>K\<close> is what the loop does in the memory \<open>h\<close>.
\<close>

definition follows :: "env \<Rightarrow> ptr \<Rightarrow> ipc \<Rightarrow> ptr \<Rightarrow> ptr \<Rightarrow> (dheap \<Rightarrow> bool) \<Rightarrow> (bool \<times> ipc) option \<Rightarrow> verdict \<Rightarrow> bool" where
  "follows E hh s p app_m B K verdict = (case verdict of
      Undefined \<Rightarrow> K = None
    | Dropped \<Rightarrow> \<exists>h. B h \<and> K = drop_object p (s\<lparr>i_mem := h\<rparr>)
    | Deliver ev i \<Rightarrow> \<exists>h te. B h \<and> tree_in h te ev \<and> K = do {
        (ret, s') \<leftarrow> handle_event E hh i p app_m (mt_ptr te) (s\<lparr>i_mem := h\<rparr>);
        s' \<leftarrow> (if ret \<le> 0 then with_mem (haggle_dataobject_free p) s' else Some s');
        Some (True, s') })"

lemma follows_Undefined: "follows E hh s p app_m B None Undefined"
  by (simp add: follows_def)

lemma follows_Dropped: "B h \<Longrightarrow> follows E hh s p app_m B (drop_object p (s\<lparr>i_mem := h\<rparr>)) Dropped"
  by (auto simp: follows_def)

lemma receive_event_type_follows:
  assumes "tree_in h tc ctrl" "B h" "\<And>h h'. B h \<Longrightarrow> walked {mt_ptr tc} h h' \<Longrightarrow> B h'"
  shows "follows E hh s p app_m B (receive_event_type E hh p app_m (mt_ptr tc) (s\<lparr>i_mem := h\<rparr>)) (event_verdict ctrl)"
proof -
  obtain h' where h': "walked {mt_ptr tc} h h'" "case child ''Event'' ctrl of
      None \<Rightarrow> metadata_get (mt_ptr tc) (Some ''Event'') h = Some (NULL, h')
    | Some w \<Rightarrow> \<exists>u. metadata_get (mt_ptr tc) (Some ''Event'') h = Some (mt_ptr u, h') \<and> subtree ''Event'' tc ctrl u \<and> tree_in h' u w"
    using get_child [OF assms(1), of "''Event''"] by auto
  note B' = assms(3) [OF assms(2) h'(1)]
  show ?thesis
  proof (cases "child ''Event'' ctrl")
    case None
    then show ?thesis using h'(2) B' by (auto simp: receive_event_type_def with_mem_val_simp event_verdict_def follows_def)
  next
    case (Some ev)
    then obtain te where te: "metadata_get (mt_ptr tc) (Some ''Event'') h = Some (mt_ptr te, h')" "tree_in h' te ev" using h'(2) by auto
    then show ?thesis using Some B' tree_in_ptr [OF te(2)] tree_reads(3) [OF te(2), of "''type''"]
      by (auto simp: receive_event_type_def with_mem_val_simp event_verdict_def follows_def split: option.splits)
  qed
qed

lemma receive_control_follows:
  assumes "tree_in h ta app" "B h" "\<And>h h' q. B h \<Longrightarrow> walked {q} h h' \<Longrightarrow> q \<in> set (owned ta) \<Longrightarrow> B h'"
  shows "follows E hh s p (mt_ptr ta) B (receive_control E hh p (mt_ptr ta) (s\<lparr>i_mem := h\<rparr>)) (control_verdict app)"
proof -
  have "mt_ptr ta \<in> set (owned ta)" by (cases ta) simp
  obtain h' where h': "walked {mt_ptr ta} h h'" "case child ''Control'' app of
      None \<Rightarrow> metadata_get (mt_ptr ta) (Some ''Control'') h = Some (NULL, h')
    | Some w \<Rightarrow> \<exists>u. metadata_get (mt_ptr ta) (Some ''Control'') h = Some (mt_ptr u, h') \<and> subtree ''Control'' ta app u \<and> tree_in h' u w"
    using get_child [OF assms(1), of "''Control''"] by auto
  note B' = assms(3) [OF assms(2) h'(1) \<open>mt_ptr ta \<in> _\<close>]
  have ev: "ctrl_type_name CTRL_TYPE_EVENT = Some ''event''" by (simp add: ctrl_type_name_def control_types_def ctrl_type_names_def)
  show ?thesis
  proof (cases "child ''Control'' app")
    case None
    then show ?thesis using h'(2) B' by (auto simp: receive_control_def with_mem_val_simp control_verdict_def follows_def)
  next
    case (Some ctrl)
    then obtain tc where tc: "metadata_get (mt_ptr ta) (Some ''Control'') h = Some (mt_ptr tc, h')" "subtree ''Control'' ta app tc" "tree_in h' tc ctrl"
      using h'(2) by auto
    have K: "receive_control E hh p (mt_ptr ta) (s\<lparr>i_mem := h\<rparr>) = do {
        type \<leftarrow> map_of (me_params ctrl) ''type'';
        if type \<noteq> ''event'' then drop_object p (s\<lparr>i_mem := h'\<rparr>) else receive_event_type E hh p (mt_ptr ta) (mt_ptr tc) (s\<lparr>i_mem := h'\<rparr>) }"
      using tc(1) tree_in_ptr [OF tc(3)] tree_reads(3) [OF tc(3), of "''type''"] ev
      by (simp add: receive_control_def with_mem_val_simp)
    have "follows E hh s p (mt_ptr ta) B (receive_event_type E hh p (mt_ptr ta) (mt_ptr tc) (s\<lparr>i_mem := h'\<rparr>)) (event_verdict ctrl)"
      using subtree_owned [OF tc(2)] assms(3) by (intro receive_event_type_follows [where B = B, OF tc(3) B']) blast
    then show ?thesis unfolding control_verdict_def Some K
      by (cases "map_of (me_params ctrl) ''type''") (simp_all add: follows_Undefined follows_Dropped [where B = B, OF B'])
  qed
qed


text \<open>The whole of \<open>receive_event\<close>, after the object was created.\<close>

lemma receive_event_follows:
  fixes s :: ipc
  assumes N: "haggle_dataobject_new_from_raw (e_xml E) (e_ctx E) (e_locals E) (Some raw) (i_mem s) = Some (p, h0)"
    and B: "object_building b m0 p al t v d h0" and H: "i_handles s hh = Some g" "hh_name g = Some own"
  shows "\<exists>ta. (\<forall>ev i. verdict_of own v = Deliver ev i \<longrightarrow> subtree ''Application'' t v ta)
    \<and> follows E hh s p (mt_ptr ta) (object_building b m0 p al t v d) (receive_event E hh raw s) (verdict_of own v)"
proof -
  note T0 = object_building_tree [OF B]
  have p: "p \<noteq> NULL" "h_dobjs h0 p = Some (placed al (mt_ptr t) (fst d))" using B by (auto simp: object_building_def object_in_def)
  have own: "mt_ptr t \<in> set (owned t)" by (cases t) simp
  obtain h1 where h1: "walked {mt_ptr t} h0 h1" "case child ''Application'' v of
      None \<Rightarrow> metadata_get (mt_ptr t) (Some ''Application'') h0 = Some (NULL, h1)
    | Some w \<Rightarrow> \<exists>u. metadata_get (mt_ptr t) (Some ''Application'') h0 = Some (mt_ptr u, h1) \<and> subtree ''Application'' t v u \<and> tree_in h1 u w"
    using get_child [OF T0, of "''Application''"] by auto
  note B1 = object_building_walked [OF B h1(1) own]
  have get: "haggle_dataobject_get_metadata p (Some ''Application'') h0 = metadata_get (mt_ptr t) (Some ''Application'') h0"
    using p by (simp add: haggle_dataobject_get_metadata_def placed_def)
  show ?thesis
  proof (cases "child ''Application'' v")
    case None
    then have "receive_event E hh raw s = drop_object p (s\<lparr>i_mem := h1\<rparr>)"
      using h1(2) N p(1) get by (simp add: receive_event_def with_mem_val_def)
    then show ?thesis using None B1 by (auto simp: verdict_of_def follows_def)
  next
    case (Some app)
    then obtain ta where ta: "metadata_get (mt_ptr t) (Some ''Application'') h0 = Some (mt_ptr ta, h1)" "subtree ''Application'' t v ta" "tree_in h1 ta app"
      using h1(2) by auto
    have K: "receive_event E hh raw s = do {
        name \<leftarrow> map_of (me_params app) ''name'';
        if name \<noteq> own \<and> name \<noteq> ''All Applications'' then drop_object p (s\<lparr>i_mem := h1\<rparr>) else receive_control E hh p (mt_ptr ta) (s\<lparr>i_mem := h1\<rparr>) }"
      using N p(1) get ta(1) tree_in_ptr [OF ta(3)] tree_reads(3) [OF ta(3), of "''name''"] H
      by (simp add: receive_event_def with_mem_val_def)
    have "follows E hh s p (mt_ptr ta) (object_building b m0 p al t v d) (receive_control E hh p (mt_ptr ta) (s\<lparr>i_mem := h1\<rparr>)) (control_verdict app)"
      using subtree_owned [OF ta(2)] object_building_walked
      by (intro receive_control_follows [where B = "object_building b m0 p al t v d", OF ta(3) B1]) blast
    then have "follows E hh s p (mt_ptr ta) (object_building b m0 p al t v d) (receive_event E hh raw s) (verdict_of own v)"
      unfolding verdict_of_def Some K
      by (cases "map_of (me_params app) ''name''") (auto simp: follows_Undefined follows_Dropped [where B = "object_building b m0 p al t v d", OF B1])
    then show ?thesis using ta(2) by blast
  qed
qed

section \<open>Releasing the object\<close>

text \<open>Everything that the object owns is released, and nothing else was changed.\<close>

lemma object_building_freed:
  fixes h0 :: dheap
  assumes B: "object_building (h_brk h0) h0 p al t v d h" and w: "wf_objects h0"
  shows "\<exists>h'. haggle_dataobject_free p h = Some h' \<and> same_memory h0 h'"
proof -
  obtain xs where O: "object_in h p al xs t v d" "\<forall>q \<in> set (p # al # xs @ owned t). h_brk h0 \<le> q" "kept p (set (al # xs @ owned t)) h0 h"
      "untouched (h_brk h0) h0 h"
    and root: "h_links h (mt_ptr t) = Some \<lparr>l_prev = mt_ptr t, l_next = mt_ptr t\<rparr>"
    using B by (auto simp: object_building_def)
  define c where "c = placed al (mt_ptr t) (fst d)"
  have c: "h_dobjs h p = Some c" "d_al c = al" "d_m c = mt_ptr t" "p \<noteq> NULL" "alist h al xs (snd d)" "tree_in h t v" "set (al # xs) \<inter> set (owned t) = {}"
    using O(1) by (simp_all add: object_in_def c_def placed_def)
  have n: "al \<noteq> NULL" "mt_ptr t \<noteq> NULL" using alist_not_NULL [OF c(5)] tree_in_ptr [OF c(6)] by simp_all
  define h1 where "h1 = (if d_fp c = None then h else set_dobj p (c\<lparr>d_fp := None\<rparr>) h)"
  have h1: "(if d_fp c \<noteq> None then map_option snd (haggle_dataobject_read_data_stop p h) else Some h) = Some h1"
    "h_links h1 = h_links h" "h_attrs h1 = h_attrs h" "h_alists h1 = h_alists h" "h_mds h1 = h_mds h" "\<And>q. q \<noteq> p \<Longrightarrow> h_dobjs h1 q = h_dobjs h q"
    using c(1,4) by (auto simp: h1_def haggle_dataobject_read_data_stop_def)
  define h2 where "h2 = free_alist al (fold free_attr xs h1)"
  have "alist h1 al xs (snd d)" using c(5) h1 by (simp add: alist_def)
  then have f2: "haggle_attributelist_free al h1 = Some h2" unfolding h2_def by (rule free_alist_all)
  have L2: "h_links h2 q = (if q \<in> set (al # xs) then None else h_links h q)" "h_mds h2 = h_mds h"
    "q \<notin> set (al # xs) \<Longrightarrow> h_attrs h2 q = h_attrs h q \<and> h_alists h2 q = h_alists h q" "h_dobjs h2 = h_dobjs h1" for q
    using h1 mheap_more_dobjs [of "fold free_attr xs h1" h1] by (auto simp: h2_def free_alist_def fold_free_attr fold_free_attr_mds restrict_map_def)
  have "holds h2 t v"
  proof (rule holds_cong)
    show "holds h t v" "distinct (owned t)" using c(6) by (simp_all add: tree_in_def)
    have "q \<notin> set (al # xs)" if "q \<in> set (owned t)" for q using c(7) that by blast
    then show "agree (set (owned t) - {mt_ptr t}) (set (owned t)) h h2" using L2 unfolding agree_def by auto
  qed
  moreover have "mt_ptr t \<in> set (owned t)" by (cases t) simp
  then have "mt_ptr t \<notin> set (al # xs)" using c(7) by blast
  then have "h_links h2 (mt_ptr t) = Some \<lparr>l_prev = mt_ptr t, l_next = mt_ptr t\<rparr>" using L2(1) root by simp
  ultimately obtain h3 where h3: "metadata_free (mt_ptr t) h2 = Some h3" "released {} [t] h2 h3"
    using metadata_free_root [of h2 t] holds_shaped c(6) by (auto simp: tree_in_def)
  have "haggle_dataobject_free p h = Some (free_dobj p h3)"
    using c n h1(1) f2 h3(1) by (simp add: haggle_dataobject_free_def)
  moreover have "same_memory h0 (free_dobj p h3)"
  proof -
    let ?A = "set (al # xs @ owned t)"
    have new: "q \<notin> ?A" if "q < h_brk h0" for q using O(2) that by (meson UnCI leD list.set_intros(2) set_append)
    have out: "h_links h3 q = h_links h q \<and> h_attrs h3 q = h_attrs h q \<and> h_alists h3 q = h_alists h q \<and> h_mds h3 q = h_mds h q" if "q \<notin> ?A" for q
      using released_links(1) [OF h3(2), of q] released_objects [OF h3(2), of q] L2 that by auto
    then have old: "h_links h3 q = h_links h0 q \<and> h_attrs h3 q = h_attrs h0 q \<and> h_alists h3 q = h_alists h0 q \<and> h_mds h3 q = h_mds h0 q"
      if "q < h_brk h0" for q using new [OF that] that O(4) by (simp add: untouched_def)
    have "h_links h3 q = h_links h0 q" if "h_brk h0 \<le> q" for q
    proof -
      have "h_links h0 q = None" using w that by (simp add: wf_objects_def wf_heap_def)
      moreover have "h_links h3 q = None"
        using released_links [OF h3(2), of q] L2(1) [of q] out [of q] O(3) \<open>h_links h0 q = None\<close> by (cases "q \<in> ?A"; cases "q \<in> set (owned t)") (auto simp: kept_def)
      ultimately show ?thesis by simp
    qed
    then have "h_links h3 = h_links h0" using old by (metis ext not_le)
    moreover have "h_dobjs h3 = h_dobjs h1" using h3(2) L2(4) by (auto simp: released_def dest: mheap_more_dobjs)
    then have "(h_dobjs h3)(p := None) = h_dobjs h0"
      using h1(6) O(2,3) w by (auto simp: kept_def wf_objects_def fun_eq_iff)
    ultimately show ?thesis using old by (simp add: same_memory_def free_dobj_def)
  qed
  ultimately show ?thesis by blast
qed


section \<open>The object that the handler gets\<close>

text \<open>The metadata for the application is removed, everything else stays.\<close>

lemma application_freed:
  fixes h :: dheap
  assumes B: "object_building b h0 p al t v d h" and S: "subtree n t v ta"
  shows "\<exists>h' xs t'. metadata_free (mt_ptr ta) h = Some h' \<and> object_in h' p al xs t' (without_child n v) d \<and> untouched b h0 h'"
proof -
  obtain q qa qs ts nm c ps ms where e: "t = MT q qa qs ts" "v = Meta nm c ps ms" by (cases t; cases v)
  obtain k where k: "k < length ms" "k < length ts" "ta = ts ! k" "takeWhile (\<lambda>m. me_name m \<noteq> n) ms = take k ms"
    using S e by (auto simp: subtree_def)
  obtain xs where O: "object_in h p al xs t v d" "untouched b h0 h" "\<forall>q \<in> set (p # al # xs @ owned t). b \<le> q"
    using B by (auto simp: object_building_def)
  have T: "tree_in h t v" using O(1) by (simp add: object_in_def)
  have "take k ts @ ts ! k # drop (Suc k) ts = ts" "take k ms @ ms ! k # drop (Suc k) ms = ms"
    using k by (simp_all add: id_take_nth_drop [symmetric])
  then obtain h' where h': "metadata_free (mt_ptr ta) h = Some h'"
    "changed t h (MT q qa qs (take k ts @ drop (Suc k) ts)) (Meta nm c ps (take k ms @ drop (Suc k) ms)) h'"
    using free_child_tree [of h q qa qs "take k ts" "ts ! k" "drop (Suc k) ts" nm c ps "take k ms" "ms ! k" "drop (Suc k) ms"] T k e by auto
  let ?t = "MT q qa qs (take k ts @ drop (Suc k) ts)"
  have "dropWhile (\<lambda>m. me_name m \<noteq> n) ms = drop k ms" using k(4) by (metis append_take_drop_id same_append_eq takeWhile_dropWhile_id)
  then have v': "Meta nm c ps (take k ms @ drop (Suc k) ms) = without_child n v"
    using k(4) e(2) by (simp add: without_child_def tl_drop drop_Suc)
  have C: "tree_in h' ?t (without_child n v)" "h_brk h \<le> h_brk h'" "h_dobjs h' = h_dobjs h"
    using h'(2) v' by (auto simp: changed_def dest: mheap_more_dobjs)
  have old: "h_links h' r = h_links h r \<and> h_attrs h' r = h_attrs h r \<and> h_alists h' r = h_alists h r \<and> h_mds h' r = h_mds h r"
    if "r < h_brk h" "r \<notin> set (owned t)" for r using h'(2) that unfolding changed_def by blast
  have A: "alist h al xs (snd d)" "set (al # xs) \<inter> set (owned t) = {}" "wf_heap h" using O(1) by (auto simp: object_in_def tree_in_def)
  have al: "r < h_brk h" "r \<notin> set (owned t)" if "r \<in> set (al # xs)" for r using alist_below [OF A(3,1) that] A(2) that by auto
  have "alist h' al xs (snd d)" by (rule alist_cong [OF A(1)]) (use old al in auto)
  moreover have "set (owned ?t) \<subseteq> set (owned t)" unfolding e by (auto dest: in_set_takeD in_set_dropD)
  then have "set (al # xs) \<inter> set (owned ?t) = {}" using A(2) by blast
  ultimately have "object_in h' p al xs ?t (without_child n v) d"
    using O(1) C e(1) by (simp add: object_in_def del: owned.simps)
  moreover have "untouched b h h'"
  proof -
    have "b \<le> h_brk h" using O(2) by (simp add: untouched_def)
    moreover have "r \<notin> set (owned t)" if "r < b" for r
      using O(3) that by (metis Un_iff leD list.set_intros(2) set_append)
    ultimately show ?thesis using old C(2,3) by (simp add: untouched_def)
  qed
  ultimately show ?thesis using h'(1) untouched_trans [OF O(2)] by blast
qed

section \<open>The properties\<close>

text \<open>A text that is a data object with the values \<open>d\<close> and the metadata \<open>v\<close>.\<close>

definition says :: "env \<Rightarrow> string \<Rightarrow> meta \<Rightarrow> dataobject \<times> attribute list \<Rightarrow> bool" where
  "says E raw v d \<longleftrightarrow> (\<exists>doc x. xmlParseMemory (e_xml E) raw = Some doc \<and> xmlDocGetRootElement doc = Some x \<and> xml_ok x \<and> root_meta x = v)
     \<and> me_name v = HAGGLE_TAG \<and> object_value (e_ctx E) (e_locals E) v = Some d"

lemma says_object:
  fixes s :: ipc
  assumes "says E raw v d" "wf_heap (i_mem s)" "h_mem (i_mem s) = []"
  shows "\<exists>p al t h. haggle_dataobject_new_from_raw (e_xml E) (e_ctx E) (e_locals E) (Some raw) (i_mem s) = Some (p, h)
    \<and> object_building (h_brk (i_mem s)) (i_mem s) p al t v d h"
  using assms new_from_raw_object [OF assms(2,3)] unfolding says_def by blast

text \<open>
  C4: Delivery: when the datagram is an event with a new data object for this application (by its name, or for all applications) and there is a handler,
  the handler is called with its argument and with an object that has the members and attributes that the text states and all of
  its metadata except those for the application.  Until then nothing but new memory was touched, and afterwards the object is released
  exactly when the handler returns at most 0, whatever it stored in the event.
\<close>

theorem new_dataobject_delivered:
  assumes "says E raw v d" "wf_heap (i_mem s)" "h_mem (i_mem s) = []"
    and "i_handles s hh = Some g" "hh_name g = Some own" "verdict_of own v = Deliver ev LIBHAGGLE_EVENT_NEW_DATAOBJECT"
    and "handler_entry g LIBHAGGLE_EVENT_NEW_DATAOBJECT = Some f" "hd_handler f \<noteq> NULL"
  shows "\<exists>p al xs t h. receive_event E hh raw s = do {
      (ret, _, s') \<leftarrow> e_handler E (hd_handler f) \<lparr>ev_type = LIBHAGGLE_EVENT_NEW_DATAOBJECT, ev_data = p\<rparr> (hd_arg f) (s\<lparr>i_mem := h\<rparr>);
      s' \<leftarrow> (if ret \<le> 0 then with_mem (haggle_dataobject_free p) s' else Some s');
      Some (True, s') }
    \<and> object_in h p al xs t (without_child ''Application'' v) d \<and> untouched (h_brk (i_mem s)) (i_mem s) h"
proof -
  obtain p al t h0 where N: "haggle_dataobject_new_from_raw (e_xml E) (e_ctx E) (e_locals E) (Some raw) (i_mem s) = Some (p, h0)"
    "object_building (h_brk (i_mem s)) (i_mem s) p al t v d h0" using says_object [OF assms(1-3)] by blast
  obtain ta h te where F: "subtree ''Application'' t v ta" "object_building (h_brk (i_mem s)) (i_mem s) p al t v d h" "tree_in h te ev"
    "receive_event E hh raw s = do {
        (ret, s') \<leftarrow> handle_event E hh LIBHAGGLE_EVENT_NEW_DATAOBJECT p (mt_ptr ta) (mt_ptr te) (s\<lparr>i_mem := h\<rparr>);
        s' \<leftarrow> (if ret \<le> 0 then with_mem (haggle_dataobject_free p) s' else Some s');
        Some (True, s') }"
    using receive_event_follows [OF N assms(4,5)] assms(6) by (auto simp: follows_def)
  obtain h' xs t' where h': "metadata_free (mt_ptr ta) h = Some h'" "object_in h' p al xs t' (without_child ''Application'' v) d"
    "untouched (h_brk (i_mem s)) (i_mem s) h'" using application_freed [OF F(2,1)] by blast
  have "mt_ptr ta \<noteq> NULL"
  proof -
    have "tree_in h t v" by (rule object_building_tree [OF F(2)])
    then show ?thesis using F(1) tree_in_child [of h] tree_in_ptr by (cases t; cases v) (fastforce simp: subtree_def)
  qed
  then have "handle_event E hh LIBHAGGLE_EVENT_NEW_DATAOBJECT p (mt_ptr ta) (mt_ptr te) (s\<lparr>i_mem := h\<rparr>) = do {
      (ret, _, s') \<leftarrow> e_handler E (hd_handler f) \<lparr>ev_type = LIBHAGGLE_EVENT_NEW_DATAOBJECT, ev_data = p\<rparr> (hd_arg f) (s\<lparr>i_mem := h'\<rparr>);
      Some (ret, s') }"
    using assms(4,7,8) tree_in_ptr [OF F(3)] h'(1)
    by (simp add: handle_event_def with_mem_simp LIBHAGGLE_EVENT_NEW_DATAOBJECT_def LIBHAGGLE_EVENT_INTEREST_LIST_def)
  then have "receive_event E hh raw s = do {
      (ret, _, s') \<leftarrow> e_handler E (hd_handler f) \<lparr>ev_type = LIBHAGGLE_EVENT_NEW_DATAOBJECT, ev_data = p\<rparr> (hd_arg f) (s\<lparr>i_mem := h'\<rparr>);
      s' \<leftarrow> (if ret \<le> 0 then with_mem (haggle_dataobject_free p) s' else Some s');
      Some (True, s') }"
    using F(4)
    by (cases "e_handler E (hd_handler f) \<lparr>ev_type = LIBHAGGLE_EVENT_NEW_DATAOBJECT, ev_data = p\<rparr> (hd_arg f) (s\<lparr>i_mem := h'\<rparr>)") (auto simp: split_def)
  then show ?thesis using h'(2,3) by blast
qed

text \<open>
  C7: Everything else is dropped: a text that is not XML, XML whose root is not \<open>Haggle\<close>, and a data object that is not for this
  application, is no event or has no event type, reaches no handler; the loop goes on, and every object, list and tree that was built on the way
  is released.
\<close>

theorem other_datagrams_dropped:
  assumes "wf_objects (i_mem s)" "h_mem (i_mem s) = []" "i_handles s hh = Some g" "hh_name g = Some own"
    and "xmlParseMemory (e_xml E) raw = None
      \<or> (\<exists>doc x. xmlParseMemory (e_xml E) raw = Some doc \<and> xmlDocGetRootElement doc = Some x \<and> xml_ok x \<and> xn_name x \<noteq> HAGGLE_TAG)
      \<or> (\<exists>v d. says E raw v d \<and> verdict_of own v = Dropped)"
  shows "\<exists>h. receive_event E hh raw s = Some (False, s\<lparr>i_mem := h\<rparr>) \<and> same_memory (i_mem s) h"
proof -
  consider (refused) h where "haggle_dataobject_new_from_raw (e_xml E) (e_ctx E) (e_locals E) (Some raw) (i_mem s) = Some (NULL, h)" "same_memory (i_mem s) h"
    | (dropped) v d where "says E raw v d" "verdict_of own v = Dropped"
    using assms(5) new_from_raw_no_document [OF assms(1,2)] new_from_raw_other_root [OF assms(1,2)] root_meta_name [OF xmlDocGetRootElement_element]
    by metis
  then show ?thesis
  proof cases
    case refused
    then show ?thesis by (auto simp: receive_event_def with_mem_val_def)
  next
    case v: dropped
    have "wf_heap (i_mem s)" using assms(1) by (simp add: wf_objects_def)
    then obtain p al t h0 where N: "haggle_dataobject_new_from_raw (e_xml E) (e_ctx E) (e_locals E) (Some raw) (i_mem s) = Some (p, h0)"
      "object_building (h_brk (i_mem s)) (i_mem s) p al t v d h0" using says_object [OF v(1) _ assms(2)] by blast
    obtain h where h: "object_building (h_brk (i_mem s)) (i_mem s) p al t v d h" "receive_event E hh raw s = drop_object p (s\<lparr>i_mem := h\<rparr>)"
      using receive_event_follows [OF N assms(3,4)] v(2) by (auto simp: follows_def)
    obtain h' where "haggle_dataobject_free p h = Some h'" "same_memory (i_mem s) h'" using object_building_freed [OF h(1) assms(1)] by blast
    then show ?thesis using h(2) by (auto simp: drop_object_def with_mem_simp)
  qed
qed

text \<open>
  C40: A data object for the application that has no name in its application metadata, or no type in its control metadata, or an event type that
  is outside the table of handlers, makes the behaviour of the client undefined: the daemon is trusted to send none.
\<close>

theorem trusted_datagrams:
  assumes "says E raw v d" "wf_heap (i_mem s)" "h_mem (i_mem s) = []" "i_handles s hh = Some g" "hh_name g = Some own"
    and "verdict_of own v = Undefined \<or> (\<exists>ev i. verdict_of own v = Deliver ev i \<and> (i < 0 \<or> int (length (hh_handlers g)) \<le> i))"
  shows "receive_event E hh raw s = None"
proof -
  obtain p al t h0 where N: "haggle_dataobject_new_from_raw (e_xml E) (e_ctx E) (e_locals E) (Some raw) (i_mem s) = Some (p, h0)"
    "object_building (h_brk (i_mem s)) (i_mem s) p al t v d h0" using says_object [OF assms(1-3)] by blast
  show ?thesis
    using receive_event_follows [OF N assms(4,5)] assms(4,6) tree_in_ptr
    by (fastforce simp: follows_def handle_event_def handler_entry_def)
qed


section \<open>Examples\<close>

text \<open>An application \<open>app\<close> with a handler for new data objects, and four datagrams.\<close>

definition sample_event_doc :: "(string \<times> string option list) list \<Rightarrow> xml_node" where
  "sample_event_doc ps = XML_ELEMENT_NODE ''Haggle'' [(''create_time'', [Some ''5.000007''])]
     [XML_ELEMENT_NODE ''Application'' ps [XML_ELEMENT_NODE ''Control'' [(''type'', [Some ''event''])]
        [XML_ELEMENT_NODE ''Event'' [(''type'', [Some ''2''])] []]]]"

definition sample_event_xml :: libxml where
  "sample_event_xml = sample_libxml\<lparr>xmlParseMemory := (\<lambda>s.
     if s = ''E'' then Some [sample_event_doc [(''name'', [Some ''app''])]]
     else if s = ''F'' then Some [sample_event_doc [(''name'', [Some ''other''])]]
     else if s = ''N'' then Some [sample_event_doc []]
     else if s = ''O'' then Some [XML_ELEMENT_NODE ''Other'' [] []] else None)\<rparr>"

definition sample_handler_env :: env where
  "sample_handler_env = sample_env\<lparr>e_xml := sample_event_xml, e_handler := (\<lambda>f e a s. Some (1, e, s))\<rparr>"

lemma sample_connected_facts:
  "wf_objects (i_mem sample_connected)" "wf_heap (i_mem sample_connected)" "h_mem (i_mem sample_connected) = []"
  "i_handles sample_connected 2 = Some sample_handle" "hh_name sample_handle = Some ''app''"
  using sample_objects_wf sample_objects_facts(2) by (simp_all add: sample_connected_def sample_ipc_def sample_handle_def)

definition sample_event_value :: "dataobject \<times> attribute list" where
  "sample_event_value = (zero_dobj\<lparr>d_flags := DATAOBJECT_FLAG_PERSISTENT, d_sec := 5, d_usec := 7\<rparr>, [])"

lemma sample_says:
  "says sample_handler_env ''E'' (root_meta (sample_event_doc [(''name'', [Some ''app''])])) sample_event_value"
  "says sample_handler_env ''F'' (root_meta (sample_event_doc [(''name'', [Some ''other''])])) sample_event_value"
  "says sample_handler_env ''N'' (root_meta (sample_event_doc [])) sample_event_value"
proof -
  have o: "object_value \<lparr>ctx_i = 0, ctx_buf = ''????''\<rparr> (0, 0) (root_meta (sample_event_doc [(''name'', [Some ''app''])])) = Some sample_event_value"
    "object_value \<lparr>ctx_i = 0, ctx_buf = ''????''\<rparr> (0, 0) (root_meta (sample_event_doc [(''name'', [Some ''other''])])) = Some sample_event_value"
    "object_value \<lparr>ctx_i = 0, ctx_buf = ''????''\<rparr> (0, 0) (root_meta (sample_event_doc [])) = Some sample_event_value"
    by code_simp+
  have x: "xmlDocGetRootElement [sample_event_doc ps] = Some (sample_event_doc ps)" "me_name (root_meta (sample_event_doc ps)) = HAGGLE_TAG" for ps
    by (simp_all add: xmlDocGetRootElement_def sample_event_doc_def root_meta_def HAGGLE_TAG_def)
  have k: "xml_ok (sample_event_doc [])" "xml_ok (sample_event_doc [(''name'', [Some n])])" for n by (simp_all add: sample_event_doc_def)
  show "says sample_handler_env ''E'' (root_meta (sample_event_doc [(''name'', [Some ''app''])])) sample_event_value"
    "says sample_handler_env ''F'' (root_meta (sample_event_doc [(''name'', [Some ''other''])])) sample_event_value"
    "says sample_handler_env ''N'' (root_meta (sample_event_doc [])) sample_event_value"
    using x k o by (auto simp: says_def sample_handler_env_def sample_env_def sample_event_xml_def)
qed

lemma sample_verdicts:
  "verdict_of ''app'' (root_meta (sample_event_doc [(''name'', [Some ''app''])])) = Deliver (Meta ''Event'' None [(''type'', ''2'')] []) 2"
  "verdict_of ''app'' (root_meta (sample_event_doc [(''name'', [Some ''other''])])) = Dropped"
  "verdict_of ''app'' (root_meta (sample_event_doc [])) = Undefined"
  by code_simp+

theorem new_dataobject_delivered_witness:
  "\<exists>p s' d. receive_event sample_handler_env 2 ''E'' sample_connected = Some (True, s') \<and> h_dobjs (i_mem s') p = Some d \<and> d_sec d = 5"
proof -
  have "handler_entry sample_handle LIBHAGGLE_EVENT_NEW_DATAOBJECT = Some \<lparr>hd_arg = 0, hd_handler = 77\<rparr>"
    by (simp add: handler_entry_def LIBHAGGLE_EVENT_NEW_DATAOBJECT_def sample_handle_def zero_handle_def LIBHAGGLE_NUM_EVENTS_def)
  from new_dataobject_delivered [OF sample_says(1) sample_connected_facts(2-5) _ this] show ?thesis
    using sample_verdicts(1)
    by (fastforce simp: LIBHAGGLE_EVENT_NEW_DATAOBJECT_def sample_handler_env_def object_in_def placed_def sample_event_value_def)
qed

lemma sample_not_objects:
  "xmlParseMemory (e_xml sample_handler_env) ''garbage'' = None"
  "xmlParseMemory (e_xml sample_handler_env) ''O'' = Some [XML_ELEMENT_NODE ''Other'' [] []]"
  "xmlDocGetRootElement [XML_ELEMENT_NODE ''Other'' [] []] = Some (XML_ELEMENT_NODE ''Other'' [] [])"
  "xml_ok (XML_ELEMENT_NODE ''Other'' [] [])" "xn_name (XML_ELEMENT_NODE ''Other'' [] []) \<noteq> HAGGLE_TAG"
  by (simp_all add: sample_handler_env_def sample_event_xml_def xmlDocGetRootElement_def HAGGLE_TAG_def)

theorem other_datagrams_dropped_witness:
  "(\<exists>h. receive_event sample_handler_env 2 ''garbage'' sample_connected = Some (False, sample_connected\<lparr>i_mem := h\<rparr>) \<and> same_memory (i_mem sample_connected) h)
   \<and> (\<exists>h. receive_event sample_handler_env 2 ''O'' sample_connected = Some (False, sample_connected\<lparr>i_mem := h\<rparr>) \<and> same_memory (i_mem sample_connected) h)
   \<and> (\<exists>h. receive_event sample_handler_env 2 ''F'' sample_connected = Some (False, sample_connected\<lparr>i_mem := h\<rparr>) \<and> same_memory (i_mem sample_connected) h)"
proof (intro conjI)
  note D = other_datagrams_dropped [OF sample_connected_facts(1,3-5)]
  show "\<exists>h. receive_event sample_handler_env 2 ''garbage'' sample_connected = Some (False, sample_connected\<lparr>i_mem := h\<rparr>)
      \<and> same_memory (i_mem sample_connected) h" using D sample_not_objects(1) by blast
  show "\<exists>h. receive_event sample_handler_env 2 ''O'' sample_connected = Some (False, sample_connected\<lparr>i_mem := h\<rparr>)
      \<and> same_memory (i_mem sample_connected) h" using D sample_not_objects(2-5) by blast
  show "\<exists>h. receive_event sample_handler_env 2 ''F'' sample_connected = Some (False, sample_connected\<lparr>i_mem := h\<rparr>)
      \<and> same_memory (i_mem sample_connected) h" using D sample_says(2) sample_verdicts(2) by blast
qed

theorem trusted_datagrams_witness: "receive_event sample_handler_env 2 ''N'' sample_connected = None"
  using trusted_datagrams [OF sample_says(3) sample_connected_facts(2-5)] sample_verdicts(3) by blast

end
