(* ===== verification/Control_Request.thy ===== *)
theory Control_Request
  imports Event_Dispatch
begin

text \<open>
  The requests of the application to the daemon: the control data object that \<open>create_control_dataobject\<close> builds, and the one datagram
  with its text that is sent before the object is released again.
\<close>

section \<open>An object that is built\<close>

lemma object_building_changed:
  fixes h :: "'z dheap_scheme"
  assumes B: "object_building b h0 p al t v s h" and C: "changed t h t' v' h'"
  shows "object_building b h0 p al t' v' s h'"
proof -
  obtain xs where O: "object_in h p al xs t v s" "untouched b h0 h" "\<forall>q \<in> set (p # al # xs @ owned t). b \<le> q" "kept p (set (al # xs @ owned t)) h0 h"
    using B by (auto simp: object_building_def)
  have c: "mt_ptr t' = mt_ptr t" "h_brk h \<le> h_brk h'" "h_links h' (mt_ptr t) = h_links h (mt_ptr t)" using C by (simp_all add: changed_def)
  have D: "h_dobjs h' = h_dobjs h" using C by (intro mheap_more_dobjs) (simp add: changed_def)
  have b: "b \<le> h_brk h" using O(2) by (simp add: untouched_def)
  have "q \<notin> set (owned t)" if "q < b" for q using O(3) that by (metis Un_iff leD list.set_intros(2) set_append)
  then have "untouched b h h'" using C b D unfolding untouched_def changed_def by (auto intro: order_trans)
  moreover have "b \<le> q" if "q \<in> set (owned t')" for q
  proof -
    have "q \<in> set (owned t) \<or> h_brk h \<le> q" using C that by (simp add: changed_def)
    then show ?thesis using O(3) b by auto
  qed
  moreover have "kept p (set (al # xs @ owned t')) h0 h'"
    unfolding kept_def
  proof (intro conjI allI impI)
    fix q
    assume q: "q \<notin> set (al # xs @ owned t')"
    then have "h_links h' q = None \<or> q \<notin> set (owned t) \<and> h_links h' q = h_links h q" using C by (simp add: changed_def)
    then show "h_links h' q = h_links h0 q \<or> h_links h' q = None" using O(4) q by (auto simp: kept_def)
  next
    show "h_dobjs h' q = h_dobjs h0 q" if "q \<noteq> p" for q using O(4) D that by (simp add: kept_def)
  qed
  ultimately show ?thesis
    using changed_object_in [OF O(1) C] untouched_trans [OF O(2)] O(3) B c unfolding object_building_def by auto
qed

lemma object_building_members:
  assumes "object_building b h0 p al t v (d, vs) h"
  shows "h_dobjs h p = Some (placed al (mt_ptr t) d)" "p \<noteq> NULL"
    "object_building b h0 p al t v (d', vs) (set_dobj p (placed al (mt_ptr t) d') h)"
proof -
  show "h_dobjs h p = Some (placed al (mt_ptr t) d)" "p \<noteq> NULL" using assms by (auto simp: object_building_def object_in_def)
  have "mt_ptr t \<in> set (owned t)" by (cases t) simp
  moreover have "rewritten p (placed al (mt_ptr t) d') {mt_ptr t} h (set_dobj p (placed al (mt_ptr t) d') h)"
    using walked_refl unfolding rewritten_def by blast
  ultimately show "object_building b h0 p al t v (d', vs) (set_dobj p (placed al (mt_ptr t) d') h)"
    using object_building_rewritten [OF assms] by blast
qed

lemma add_attribute_object:
  fixes h :: "'z dheap_scheme"
  assumes B: "object_building b h0 p al t v (d, vs) h"
  shows "\<exists>r h'. haggle_dataobject_add_attribute p (Some nm) (Some vl) h = Some (r, h')
    \<and> object_building b h0 p al t v (d, vs @ [\<lparr>attr_name = Some nm, attr_value = Some vl, attr_weight = 1\<rparr>]) h'"
proof -
  obtain xs where O: "object_in h p al xs t v (d, vs)" "untouched b h0 h" "\<forall>q \<in> set (p # al # xs @ owned t). b \<le> q" "kept p (set (al # xs @ owned t)) h0 h"
    "h_links h (mt_ptr t) = Some \<lparr>l_prev = mt_ptr t, l_next = mt_ptr t\<rparr>"
    using B by (auto simp: object_building_def)
  have b: "b \<le> h_brk h" using O(2) by (simp add: untouched_def)
  obtain a h1 n h2 where N: "haggle_attribute_new_weighted (Some nm) (Some vl) 1 h = (a, h1)" "a \<noteq> NULL" "h_brk h \<le> a"
    "h_dobjs h1 p = Some (placed al (mt_ptr t) d)" "haggle_attributelist_add_attribute al a h1 = Some (n, h2)"
    "object_in h2 p al (xs @ [a]) t v (d, vs @ [\<lparr>attr_name = Some nm, attr_value = Some vl, attr_weight = 1\<rparr>])"
    "\<forall>q \<in> set (owned t). h_links h2 q = h_links h q"
    "b \<le> h_brk h \<longrightarrow> (\<forall>q \<in> set (al # xs). b \<le> q) \<longrightarrow> untouched b h h2" "kept p (set (al # xs @ [a])) h h2"
    using object_new_attribute [OF O(1), of nm vl 1 b] by blast
  have "untouched b h0 h2" using untouched_trans [OF O(2)] N(8) b O(3) by auto
  moreover have "kept p (set (al # (xs @ [a]) @ owned t)) h0 h2" by (rule outside_kept_trans [OF O(4) N(9)]) auto
  moreover have "mt_ptr t \<in> set (owned t)" by (cases t) simp
  moreover have "b \<le> a" using N(3) b by simp
  ultimately have "object_building b h0 p al t v (d, vs @ [\<lparr>attr_name = Some nm, attr_value = Some vl, attr_weight = 1\<rparr>]) h2"
    using N(6,7) O(3,5) unfolding object_building_def by (intro conjI exI [of _ "xs @ [a]"]) auto
  then show ?thesis
    using N(1,2,4,5) by (simp add: haggle_dataobject_add_attribute_def haggle_dataobject_add_attribute_weighted_def placed_def)
qed

lemma dataobject_new_building:
  fixes h :: "'z dheap_scheme"
  assumes "wf_heap h" "h_mem h = []"
  shows "\<exists>p al t h'. haggle_dataobject_new h = Some (p, h')
    \<and> object_building (h_brk h) h p al t (Meta HAGGLE_TAG None [] []) (zero_dobj\<lparr>d_flags := DATAOBJECT_FLAG_PERSISTENT\<rparr>, []) h'"
proof -
  let ?p = "h_brk h" and ?al = "h_brk h + 4" and ?v = "Meta HAGGLE_TAG None [] []" and ?z = "zero_dobj\<lparr>d_flags := DATAOBJECT_FLAG_PERSISTENT\<rparr>"
  note S = raw_start_facts [OF assms]
  define t where "t = MT (h_brk (raw_start h)) (h_brk (raw_start h) + 4) [] []"
  obtain h1 where h1: "metadata_new (Some HAGGLE_TAG) None NULL (raw_start h) = Some (mt_ptr t, h1)" "mt_ptr t \<noteq> NULL" "tree_in h1 t ?v"
    "h_links h1 (mt_ptr t) = Some \<lparr>l_prev = mt_ptr t, l_next = mt_ptr t\<rparr>" "only_new (set (owned t)) (raw_start h) h1"
    using metadata_new_root [OF S(1,2), of HAGGLE_TAG None] unfolding t_def by auto
  have p: "?p \<noteq> NULL" using wf_heap_brk [OF assms(1)] by blast
  have d1: "h_dobjs h1 = h_dobjs (raw_start h)" using h1(5) by (intro mheap_more_dobjs) (simp add: only_new_def)
  let ?h = "set_dobj ?p (placed ?al (mt_ptr t) ?z) h1"
  have own: "\<forall>q \<in> set (owned t). 8 + h_brk h \<le> q" using h1(5) S(3) by (simp add: only_new_def)
  have "alist ?h ?al [] []" by (rule alist_cong [OF S(4)]) (use only_new_old [OF h1(5), of ?al] S(3) in auto)
  then have "object_in ?h ?p ?al [] t ?v (?z, [])" using tree_in_set_dobj [OF h1(3)] p own by (fastforce simp: object_in_def)
  moreover have "untouched ?p h ?h" using S(6) h1(5) d1 only_new_old [OF h1(5)] S(3,5) by (auto simp: untouched_def only_new_def)
  moreover have "kept ?p (set (?al # owned t)) h ?h"
    using h1(5) d1 S(5) by (auto simp: kept_def only_new_def raw_start_def Let_def set_dobj_def INIT_LIST_def)
  ultimately have "object_building ?p h ?p ?al t ?v (?z, []) ?h" using own h1(4) by (force simp: object_building_def)
  moreover have "haggle_dataobject_new h = Some (?p, ?h)"
  proof -
    have "haggle_dataobject_new h = do {
        (m, h1) \<leftarrow> metadata_new (Some HAGGLE_TAG) None NULL (raw_start h);
        d \<leftarrow> h_dobjs h1 ?p;
        let h2 = set_dobj ?p (d\<lparr>d_m := m\<rparr>) h1 in
        if m = NULL then do { h3 \<leftarrow> haggle_dataobject_free ?p h2; Some (NULL, h3) } else Some (?p, h2) }"
      using assms p by (simp add: haggle_dataobject_new_def haggle_dataobject_set_flags_def haggle_attributelist_new_def malloc_def malloc_ok_def
          raw_start_def placed_def set_dobj_def Let_def zero_dobj_def split_def cong: if_cong)
    then show ?thesis using h1(1,2) d1 S(5) by (simp add: placed_def)
  qed
  ultimately show ?thesis by blast
qed

section \<open>The control data object\<close>

text \<open>The metadata of a request: who asks, and for what.\<close>

definition application_meta :: "string \<Rightarrow> string \<Rightarrow> string \<Rightarrow> meta" where
  "application_meta name ident type = Meta ''Application'' None [(''name'', name), (''id'', ident)] [Meta ''Control'' None [(''type'', type)] []]"

definition request_meta :: "string \<Rightarrow> string \<Rightarrow> string \<Rightarrow> meta" where
  "request_meta name ident type = Meta HAGGLE_TAG None [] [application_meta name ident type]"

definition request_members :: "env \<Rightarrow> dataobject" where
  "request_members E = zero_dobj\<lparr>d_sec := fst (e_now E), d_usec := snd (e_now E)\<rparr>"

definition request_attr :: "string \<Rightarrow> attribute" where
  "request_attr name = \<lparr>attr_name = Some ''HaggleIPC'', attr_value = Some name, attr_weight = 1\<rparr>"

text \<open>The tree for the application is built on its own.\<close>

lemma application_tree:
  assumes "wf_heap h" "h_mem h = []"
  shows "\<exists>u mc h1 r2 h2 r3 h3 h4 r5 h5. metadata_new (Some ''Application'') None NULL h = Some (mt_ptr u, h1) \<and> mt_ptr u \<noteq> NULL
    \<and> metadata_set_parameter (mt_ptr u) (Some ''name'') (Some name) h1 = Some (r2, h2) \<and> 0 \<le> r2
    \<and> metadata_set_parameter (mt_ptr u) (Some ''id'') (Some ident) h2 = Some (r3, h3) \<and> 0 \<le> r3
    \<and> metadata_new (Some ''Control'') None (mt_ptr u) h3 = Some (mc, h4) \<and> mc \<noteq> NULL
    \<and> metadata_set_parameter mc (Some ''type'') (Some type) h4 = Some (r5, h5) \<and> 0 \<le> r5
    \<and> tree_in h5 u (application_meta name ident type) \<and> only_new (set (owned u)) h h5
    \<and> h_links h5 (mt_ptr u) = Some \<lparr>l_prev = mt_ptr u, l_next = mt_ptr u\<rparr>"
proof -
  define m where "m = h_brk h"
  let ?t = "MT m (m + 4) [] []"
  obtain h1 where 1: "metadata_new (Some ''Application'') None NULL h = Some (m, h1)" "m \<noteq> NULL" "tree_in h1 ?t (Meta ''Application'' None [] [])"
    "h_links h1 m = Some \<lparr>l_prev = m, l_next = m\<rparr>" "only_new (set (owned ?t)) h h1"
    using metadata_new_root [OF assms] unfolding m_def by auto
  obtain r2 h2 xs2 where 2: "metadata_set_parameter m (Some ''name'') (Some name) h1 = Some (r2, h2)" "0 \<le> r2"
    "becomes ?t h1 (MT m (m + 4) xs2 []) (Meta ''Application'' None [(''name'', name)] []) h2"
    using set_parameter_tree [OF 1(3), of "''name''" name] by auto
  then have T2: "tree_in h2 (MT m (m + 4) xs2 []) (Meta ''Application'' None [(''name'', name)] [])" by (simp add: becomes_def)
  obtain r3 h3 xs3 where 3: "metadata_set_parameter m (Some ''id'') (Some ident) h2 = Some (r3, h3)" "0 \<le> r3"
    "becomes (MT m (m + 4) xs2 []) h2 (MT m (m + 4) xs3 []) (Meta ''Application'' None [(''name'', name), (''id'', ident)] []) h3"
    using set_parameter_tree [OF T2, of "''id''" ident] by auto
  then have T3: "tree_in h3 (MT m (m + 4) xs3 []) (Meta ''Application'' None [(''name'', name), (''id'', ident)] [])" by (simp add: becomes_def)
  define c where "c = h_brk h3"
  obtain h4 where 4: "metadata_new (Some ''Control'') None m h3 = Some (c, h4)" "c \<noteq> NULL"
    "becomes (MT m (m + 4) xs3 []) h3 (MT m (m + 4) xs3 [MT c (c + 4) [] []])
       (Meta ''Application'' None [(''name'', name), (''id'', ident)] [Meta ''Control'' None [] []]) h4"
    using metadata_new_child [OF T3, of "''Control''" None] unfolding c_def by auto
  then have T4: "tree_in h4 (MT m (m + 4) xs3 [MT c (c + 4) [] []])
       (Meta ''Application'' None [(''name'', name), (''id'', ident)] [Meta ''Control'' None [] []])" by (simp add: becomes_def)
  have "tree_in h4 (MT c (c + 4) [] []) (Meta ''Control'' None [] [])" using tree_in_child [OF T4, of 0] by simp
  then obtain r5 h5 xs5 where 5: "metadata_set_parameter c (Some ''type'') (Some type) h4 = Some (r5, h5)" "0 \<le> r5"
    "becomes (MT c (c + 4) [] []) h4 (MT c (c + 4) xs5 []) (Meta ''Control'' None [(''type'', type)] []) h5"
    using set_parameter_tree [of h4 c "c + 4" "[]" "[]" "''Control''" None "[]" "[]" "''type''" type] by auto
  let ?u = "MT m (m + 4) xs3 [MT c (c + 4) xs5 []]"
  have "becomes (MT m (m + 4) xs3 [MT c (c + 4) [] []]) h4 ?u (application_meta name ident type) h5"
    using child_becomes [OF T4, of 0] 5(3) by (simp add: application_meta_def)
  then have B: "becomes ?t h1 ?u (application_meta name ident type) h5"
    using becomes_trans [OF becomes_trans [OF becomes_trans [OF 2(3) 3(3)] 4(3)]] by blast
  moreover have "h_links h5 m = Some \<lparr>l_prev = m, l_next = m\<rparr>" using B 1(4) by (simp add: becomes_def grows_def)
  ultimately have F: "tree_in h5 ?u (application_meta name ident type)" "only_new (set (owned ?u)) h h5" "h_links h5 m = Some \<lparr>l_prev = m, l_next = m\<rparr>"
    using only_new_becomes [OF 1(5) B] by (simp_all add: becomes_def)
  have "mt_ptr ?u = m" by simp
  then show ?thesis
    by (intro exI [of _ ?u] exI [of _ c] exI [of _ h1] exI [of _ r2] exI [of _ h2] exI [of _ r3] exI [of _ h3] exI [of _ h4] exI [of _ r5] exI [of _ h5])
      (simp only: 1(1,2) 2(1,2) 3(1,2) 4(1,2) 5(1,2) F simp_thms not_False_eq_True)
qed

lemma add_metadata_object:
  fixes h :: "'z dheap_scheme"
  assumes B: "object_building b h0 p al t v (d, vs) h" and U: "tree_in h1 u w" "only_new (set (owned u)) h h1"
    "h_links h1 (mt_ptr u) = Some \<lparr>l_prev = mt_ptr u, l_next = mt_ptr u\<rparr>"
  shows "\<exists>h' t'. haggle_dataobject_add_metadata p (mt_ptr u) h1 = Some (HAGGLE_NO_ERROR, h')
    \<and> object_building b h0 p al t' (Meta (me_name v) (me_content v) (me_params v) (me_subs v @ [w])) (d, vs) h'"
proof -
  obtain m ma ys ts nm c ps ms where e: "t = MT m ma ys ts" "v = Meta nm c ps ms" by (cases t; cases v)
  note D = object_building_members(1,2) [OF B]
  obtain h' where h': "metadata_add m (mt_ptr u) h1 = Some (HAGGLE_NO_ERROR, h')" "becomes t h (MT m ma ys (ts @ [u])) (Meta nm c ps (ms @ [w])) h'"
    using attach_tree [OF _ U] object_building_tree [OF B] unfolding e by blast
  have "h_dobjs h1 = h_dobjs h" using U(2) by (intro mheap_more_dobjs) (simp add: only_new_def)
  then have "haggle_dataobject_add_metadata p (mt_ptr u) h1 = Some (HAGGLE_NO_ERROR, h')"
    using D h'(1) tree_in_ptr [OF U(1)] by (simp add: haggle_dataobject_add_metadata_def placed_def e)
  then show ?thesis using object_building_changed [OF B becomes_changed [OF h'(2)]] by (auto simp: e)
qed

lemma control_object:
  fixes s :: ipc
  assumes "wf_heap (i_mem s)" "h_mem (i_mem s) = []" "hh \<noteq> NULL" "i_handles s hh = Some g" "hh_name g = Some name" "ctrl_type_name type = Some tn"
  shows "\<exists>p mc al t h. create_control_dataobject E hh type s = Some ((p, mc), s\<lparr>i_mem := h\<rparr>) \<and> p \<noteq> NULL
    \<and> object_building (h_brk (i_mem s)) (i_mem s) p al t (request_meta name (hh_id_base64 g) tn) (request_members E, [request_attr name]) h"
proof -
  let ?b = "h_brk (i_mem s)" and ?h0 = "i_mem s" and ?v = "Meta HAGGLE_TAG None [] []" and ?z = "zero_dobj\<lparr>d_flags := DATAOBJECT_FLAG_PERSISTENT\<rparr>"
  obtain p al t h1 where 1: "haggle_dataobject_new ?h0 = Some (p, h1)" "object_building ?b ?h0 p al t ?v (?z, []) h1"
    using dataobject_new_building [OF assms(1,2)] by blast
  note D = object_building_members [OF 1(2)]
  let ?d = "?z\<lparr>d_sec := fst (e_now E), d_usec := snd (e_now E)\<rparr>"
  define h2 where "h2 = set_dobj p (placed al (mt_ptr t) ?d) h1"
  have 2: "haggle_dataobject_set_createtime (e_now E) p None h1 = Some (HAGGLE_NO_ERROR, h2)"
    using D(1,2) by (simp add: haggle_dataobject_set_createtime_def h2_def placed_def split_def Let_def zero_dobj_def)
  define h3 where "h3 = set_dobj p (placed al (mt_ptr t) (request_members E)) h2"
  have 3: "haggle_dataobject_unset_flags p DATAOBJECT_FLAG_PERSISTENT h2 = Some (0, h3)"
    by (simp add: haggle_dataobject_unset_flags_def h3_def h2_def placed_def request_members_def zero_dobj_def DATAOBJECT_FLAG_PERSISTENT_def)
  have B3: "object_building ?b ?h0 p al t ?v (request_members E, []) h3"
    unfolding h3_def by (rule object_building_members(3) [OF D(3) [of ?d, folded h2_def]])
  obtain r h4 where 4: "haggle_dataobject_add_attribute p (Some ''HaggleIPC'') (Some name) h3 = Some (r, h4)"
    "object_building ?b ?h0 p al t ?v (request_members E, [request_attr name]) h4"
    using add_attribute_object [OF B3, of "''HaggleIPC''" name] by (auto simp: request_attr_def)
  have w: "wf_heap h4" "h_mem h4 = []" using object_building_tree [OF 4(2)] by (simp_all add: tree_in_def)
  obtain u mc a1 r2 a2 r3 a3 a4 r5 a5 where A: "metadata_new (Some ''Application'') None NULL h4 = Some (mt_ptr u, a1)" "mt_ptr u \<noteq> NULL"
    "metadata_set_parameter (mt_ptr u) (Some ''name'') (Some name) a1 = Some (r2, a2)" "0 \<le> r2"
    "metadata_set_parameter (mt_ptr u) (Some ''id'') (Some (hh_id_base64 g)) a2 = Some (r3, a3)" "0 \<le> r3"
    "metadata_new (Some ''Control'') None (mt_ptr u) a3 = Some (mc, a4)" "mc \<noteq> NULL"
    "metadata_set_parameter mc (Some ''type'') (Some tn) a4 = Some (r5, a5)" "0 \<le> r5"
    "tree_in a5 u (application_meta name (hh_id_base64 g) tn)" "only_new (set (owned u)) h4 a5"
    "h_links a5 (mt_ptr u) = Some \<lparr>l_prev = mt_ptr u, l_next = mt_ptr u\<rparr>"
    using application_tree [OF w, of name "hh_id_base64 g" tn] by blast
  obtain h5 t' where 5: "haggle_dataobject_add_metadata p (mt_ptr u) a5 = Some (HAGGLE_NO_ERROR, h5)"
    "object_building ?b ?h0 p al t' (request_meta name (hh_id_base64 g) tn) (request_members E, [request_attr name]) h5"
    using add_metadata_object [OF 4(2) A(11-13)] by (auto simp: request_meta_def)
  have "create_control_dataobject E hh type s = Some ((p, mc), s\<lparr>i_mem := h5\<rparr>)"
    unfolding create_control_dataobject_def with_mem_val_def Let_def
    using assms(3-6) D(2) A(2,4,6,8,10) by (simp add: 1(1) 2 3 4(1) A(1,3,5,7,9) 5(1))
  then show ?thesis using 5(2) D(2) by blast
qed

section \<open>The datagram\<close>

lemma get_raw_alloc_text:
  fixes h :: "'z dheap_scheme"
  assumes B: "object_building b h0 p al t v (d, vs) h" and "\<forall>a \<in> set vs. writable a" "length (createtime_text (d_sec d) (d_usec d)) < 32"
    and X: "xmlDocDumpFormatMemory X [encode X (written (to_meta (d, vs) v))] = (raw, int (length raw))" "raw \<noteq> []"
  shows "\<exists>h' t'. haggle_dataobject_get_raw_alloc X p True True h = Some (HAGGLE_NO_ERROR, Some raw, Some (of_nat (length raw)), h')
    \<and> object_building b h0 p al t' (to_meta (d, vs) v) (d, vs) h'"
proof -
  obtain xs where O: "object_in h p al xs t v (d, vs)" using B by (auto simp: object_building_def)
  obtain h1 t1 where h1: "haggle_dataobject_to_metadata p h = Some (mt_ptr t, h1)" "changed t h t1 (to_meta (d, vs) v) h1"
    using to_metadata_tree [OF O assms(2,3)] by blast
  have B1: "object_building b h0 p al t1 (to_meta (d, vs) v) (d, vs) h1" by (rule object_building_changed [OF B h1(2)])
  note T1 = object_building_tree [OF B1]
  obtain h2 where h2: "metadata_xml_create_doc X (mt_ptr t1) h1 = Some (Some [encode X (written (to_meta (d, vs) v))], h2)" "walked (set (tree_nodes t1)) h1 h2"
    using document_tree [OF T1, of X] unfolding written_def by blast
  have "becomes t1 h1 t1 (to_meta (d, vs) v) h2" by (rule walked_becomes [OF h2(2) _ T1]) (use tree_parts [of t1] in blast)
  then have "object_building b h0 p al t1 (to_meta (d, vs) v) (d, vs) h2" by (rule object_building_changed [OF B1 becomes_changed])
  moreover have "mt_ptr t1 = mt_ptr t" using h1(2) by (simp add: changed_def)
  then have "haggle_dataobject_get_raw_alloc X p True True h = Some (HAGGLE_NO_ERROR, Some raw, Some (of_nat (length raw)), h2)"
    using h1(1) h2(1) X object_building_members(2) [OF B] tree_in_ptr [OF T1]
    by (simp add: haggle_dataobject_get_raw_alloc_def metadata_xml_get_raw_alloc_def Let_def)
  ultimately show ?thesis by blast
qed

lemma ctrl_type_name_inverse: "ctrl_type_name type = Some tn \<Longrightarrow> ctrl_name_to_type (Some tn) = type"
proof -
  have "list_all (\<lambda>t. case ctrl_type_name t of None \<Rightarrow> True | Some n \<Rightarrow> ctrl_name_to_type (Some n) = t) (CTRL_TYPE_INVALID # control_types)"
    by code_simp
  moreover have "type \<in> set (CTRL_TYPE_INVALID # control_types)" by (cases type) (simp_all add: control_types_def)
  ultimately show "ctrl_type_name type = Some tn \<Longrightarrow> ctrl_name_to_type (Some tn) = type" by (auto simp only: list_all_iff split: option.splits)
qed

lemma request_sent_meta:
  "to_meta (request_members E, [request_attr name]) (request_meta name ident tn)
     = Meta HAGGLE_TAG None (root_params (request_members E) []) [application_meta name ident tn, attr_meta (request_attr name)]"
  by (simp add: to_meta_def request_meta_def request_members_def zero_dobj_def application_meta_def)

lemma send_and_free_object:
  fixes s :: ipc
  assumes B: "object_building (h_brk h0) h0 p al t v (d, vs) m" "wf_objects h0" and "\<forall>a \<in> set vs. writable a"
    "length (createtime_text (d_sec d) (d_usec d)) < 32"
    and X: "xmlDocDumpFormatMemory (e_xml E) [encode (e_xml E) (written (to_meta (d, vs) v))] = (raw, int (length raw))" "raw \<noteq> []" "length raw < 2 ^ 31"
    and "hh \<noteq> NULL" "i_handles s hh = Some g" "os_answers s = Returned n # as"
  shows "\<exists>h. send_and_free E hh p (s\<lparr>i_mem := m\<rparr>) = Some (if n < 0 then HAGGLE_SOCKET_ERROR else HAGGLE_NO_ERROR,
      s\<lparr>i_mem := h, os_answers := as, os_sent := os_sent s @ (if n < 0 then [] else [(hh_sock g, haggle_addr s, raw)])\<rparr>) \<and> same_memory h0 h"
proof -
  obtain h1 t1 where h1: "haggle_dataobject_get_raw_alloc (e_xml E) p True True m = Some (HAGGLE_NO_ERROR, Some raw, Some (of_nat (length raw)), h1)"
    "object_building (h_brk h0) h0 p al t1 (to_meta (d, vs) v) (d, vs) h1"
    using get_raw_alloc_text [OF B(1) assms(3,4) X(1,2)] by blast
  obtain h2 where h2: "haggle_dataobject_free p h1 = Some h2" "same_memory h0 h2" using object_building_freed [OF h1(2) B(2)] by blast
  have "unat (of_nat (length raw) :: u64) = length raw" using X(3) by (simp add: unat_of_nat)
  then have "(of_nat (length raw) :: u64) \<noteq> 0" using X(2) by (metis length_0_conv unat_0)
  then have "send_and_free E hh p (s\<lparr>i_mem := m\<rparr>) = Some (if n < 0 then HAGGLE_SOCKET_ERROR else HAGGLE_NO_ERROR,
      s\<lparr>i_mem := h2, os_answers := as, os_sent := os_sent s @ (if n < 0 then [] else [(hh_sock g, haggle_addr s, raw)])\<rparr>)"
    using assms(8-10) h1(1) h2(1) object_building_members(2) [OF B(1)]
    by (cases s) (simp add: send_and_free_def haggle_ipc_send_dataobject_def with_mem_def os_sendto_def os_int_def os_answer_def Let_def)
  then show ?thesis using h2(2) by blast
qed

section \<open>The property\<close>

text \<open>
  C5: A request to the daemon: the call builds a data object that is not persistent, has the time of the platform, the one attribute
  \<open>HaggleIPC\<close> with the name of the application and metadata with its name, its identifier and the type of the request, sends its text in one
  datagram to the address of the daemon, and releases the object with its attribute list and metadata again, also when sending fails.  (The
  comment at the declaration speaks of a list of attributes that is passed and says that no other attribute is added; the function has no such
  parameter, and \<open>HaggleIPC\<close> is added.)  It returns \<open>HAGGLE_NO_ERROR\<close>, which is zero and not positive as the header says of the calls that end in
  it, or \<open>HAGGLE_SOCKET_ERROR\<close> when \<open>sendto\<close> fails.  A receiver that parses the datagram gets that object and recognises the type.  Memory is
  available, the time of the platform is at most 31 characters long as text, and the name of the application is not blank.
\<close>

theorem control_request_sent:
  assumes "wf_objects (i_mem s)" "h_mem (i_mem s) = []" "hh \<noteq> NULL" "i_handles s hh = Some g" "hh_name g = Some name"
    and "ctrl_type_name type = Some tn" "sendable (request_members E)" "\<not> list_all is_blank_ch name" "length (ctx_buf (e_ctx E)) = 4"
    and "as_given (e_xml E) (written (to_meta (request_members E, [request_attr name]) (request_meta name (hh_id_base64 g) tn)))"
    "rereads (e_xml E) (encode (e_xml E) (written (to_meta (request_members E, [request_attr name]) (request_meta name (hh_id_base64 g) tn))))"
    and "os_answers s = Returned n # as"
  shows "\<exists>raw v h. haggle_ipc_generate_and_send_control_dataobject E hh type s = Some (if n < 0 then HAGGLE_SOCKET_ERROR else HAGGLE_NO_ERROR,
      s\<lparr>i_mem := h, os_answers := as, os_sent := os_sent s @ (if n < 0 then [] else [(hh_sock g, haggle_addr s, raw)])\<rparr>)
    \<and> same_memory (i_mem s) h \<and> says E raw v (sent (request_members E), [request_attr name])
    \<and> child ''Application'' v = Some (application_meta name (hh_id_base64 g) tn) \<and> ctrl_name_to_type (Some tn) = type"
proof -
  let ?s = "(request_members E, [request_attr name])" and ?v = "request_meta name (hh_id_base64 g) tn"
  let ?w = "to_meta ?s ?v"
  have W: "wf_heap (i_mem s)" using assms(1) by (simp add: wf_objects_def)
  obtain p mc al t h1 where 1: "create_control_dataobject E hh type s = Some ((p, mc), s\<lparr>i_mem := h1\<rparr>)" "p \<noteq> NULL"
    "object_building (h_brk (i_mem s)) (i_mem s) p al t ?v ?s h1"
    using control_object [OF W assms(2-6)] by blast
  obtain raw x where raw: "xmlDocDumpFormatMemory (e_xml E) [encode (e_xml E) (written ?w)] = (raw, int (length raw))" "raw \<noteq> []" "length raw < 2 ^ 31"
    "xmlParseMemory (e_xml E) raw = Some [x]" "xmlDocGetRootElement [x] = Some x" "xml_ok x"
    "root_meta x = Meta (me_name ?w) (Some (xmlNodeBufGetContent x)) (me_params ?w) (map no_blank (me_subs ?w))"
    using reread_root [OF assms(10,11)] by (metis written_simps)
  have a: "sendable_attr (request_attr name)" "writable (request_attr name)"
    using assms(8) by (simp_all add: sendable_attr_def writable_def request_attr_def visible_def)
  have "length (createtime_text (d_sec (request_members E)) (d_usec (request_members E))) < 32" using assms(7) by (simp add: sendable_def)
  then obtain h where h: "send_and_free E hh p (s\<lparr>i_mem := h1\<rparr>) = Some (if n < 0 then HAGGLE_SOCKET_ERROR else HAGGLE_NO_ERROR,
      s\<lparr>i_mem := h, os_answers := as, os_sent := os_sent s @ (if n < 0 then [] else [(hh_sock g, haggle_addr s, raw)])\<rparr>)" "same_memory (i_mem s) h"
    using send_and_free_object [of "i_mem s" p al t ?v "request_members E" "[request_attr name]" h1 E raw hh s g n as]
      1(3) assms(1,3,4,12) a(2) raw(1-3) by auto
  have "haggle_ipc_generate_and_send_control_dataobject E hh type s = send_and_free E hh p (s\<lparr>i_mem := h1\<rparr>)"
    using 1(1,2) assms(3) by (simp add: haggle_ipc_generate_and_send_control_dataobject_def)
  moreover have "object_value (e_ctx E) (e_locals E) (root_meta x) = Some (sent (request_members E), [request_attr name])"
    by (rule object_value_sent [OF assms(7) _ up_to_date_new assms(9)]) (use a(1) in \<open>simp_all add: raw(7) request_meta_def application_meta_def\<close>)
  then have "says E raw (root_meta x) (sent (request_members E), [request_attr name])"
    using raw(4-7) by (auto simp: says_def request_sent_meta)
  moreover have "child ''Application'' (root_meta x) = Some (application_meta name (hh_id_base64 g) tn)"
    unfolding raw(7) request_sent_meta by (simp add: child_def application_meta_def)
  ultimately show ?thesis using h ctrl_type_name_inverse [OF assms(6)] by metis
qed

section \<open>Example\<close>

text \<open>The application \<open>app\<close> asks for its interests.\<close>

definition sample_request_doc :: xml_node where
  "sample_request_doc = XML_ELEMENT_NODE ''Haggle'' [(''persistent'', [Some ''no'']), (''create_time'', [Some ''5.000007''])]
     [XML_ELEMENT_NODE ''Application'' [(''name'', [Some ''app'']), (''id'', [Some []])] [XML_ELEMENT_NODE ''Control'' [(''type'', [Some ''get_interests''])] []],
      XML_ELEMENT_NODE ''Attr'' [(''name'', [Some ''HaggleIPC'']), (''weight'', [Some ''1''])] [XML_TEXT_NODE ''app'']]"

definition sample_request_env :: env where
  "sample_request_env = sample_env\<lparr>e_xml := \<lparr>xmlParseMemory = (\<lambda>s. if s = ''R'' then Some [sample_request_doc] else None),
     xmlDocDumpFormatMemory = (\<lambda>d. (''R'', 1)), xmlStringGetNodeList = (\<lambda>s. [XML_TEXT_NODE s]), xmlPropNodes = (\<lambda>s. [Some s])\<rparr>\<rparr>"

lemma sample_request_meta:
  "to_meta (request_members sample_request_env, [request_attr ''app'']) (request_meta ''app'' [] ''get_interests'')
    = Meta ''Haggle'' None [(''persistent'', ''no''), (''create_time'', ''5.000007'')]
        [Meta ''Application'' None [(''name'', ''app''), (''id'', [])] [Meta ''Control'' None [(''type'', ''get_interests'')] []],
         Meta ''Attr'' (Some ''app'') [(''name'', ''HaggleIPC''), (''weight'', ''1'')] []]"
proof -
  have "request_members sample_request_env = zero_dobj\<lparr>d_sec := 5, d_usec := 7\<rparr>"
    by (simp add: request_members_def sample_request_env_def sample_env_def)
  moreover have "root_params (zero_dobj\<lparr>d_sec := 5, d_usec := 7\<rparr>) [] = [(''persistent'', ''no''), (''create_time'', ''5.000007'')]"
    "attr_meta (request_attr ''app'') = Meta ''Attr'' (Some ''app'') [(''name'', ''HaggleIPC''), (''weight'', ''1'')] []" "HAGGLE_TAG = ''Haggle''"
    by code_simp+
  ultimately show ?thesis unfolding request_sent_meta by (simp add: application_meta_def)
qed

theorem control_request_sent_witness:
  "\<exists>raw s'. haggle_ipc_generate_and_send_control_dataobject sample_request_env 2 CTRL_TYPE_GET_INTERESTS (sample_connected\<lparr>os_answers := [Returned 1]\<rparr>)
      = Some (HAGGLE_NO_ERROR, s') \<and> os_sent s' = [(0, (''127.0.0.1'', 8787), raw)] \<and> same_memory (i_mem sample_connected) (i_mem s')"
proof -
  let ?E = sample_request_env and ?s = "sample_connected\<lparr>os_answers := [Returned 1]\<rparr>"
  let ?w = "written (to_meta (request_members ?E, [request_attr ''app'']) (request_meta ''app'' [] ''get_interests''))"
  have g: "wf_objects (i_mem ?s)" "h_mem (i_mem ?s) = []" "i_handles ?s 2 = Some sample_handle" "hh_name sample_handle = Some ''app''"
    using sample_connected_facts by simp_all
  have i: "hh_id_base64 sample_handle = []" "hh_sock sample_handle = 0" "os_sent ?s = []" "haggle_addr ?s = (''127.0.0.1'', 8787)"
    by (simp_all add: sample_handle_def zero_handle_def sample_connected_def sample_ipc_def)
  have t: "ctrl_type_name CTRL_TYPE_GET_INTERESTS = Some ''get_interests''" "createtime_text 5 7 = ''5.000007''" by code_simp+
  have m: "sendable (request_members ?E)"
    using t(2) by (simp add: sendable_def request_members_def sample_request_env_def sample_env_def zero_dobj_def in_long_def visible_def)
  have b: "\<not> list_all is_blank_ch ''app''" "length (ctx_buf (e_ctx ?E)) = 4"
    by (simp_all add: is_blank_ch_def sample_request_env_def sample_env_def)
  have a: "as_given (e_xml ?E) ?w"
    unfolding sample_request_meta by (simp add: written_def sample_request_env_def text_as_given_def value_as_given_def)
  have "encode (e_xml ?E) ?w = sample_request_doc"
    unfolding sample_request_meta by (simp add: written_def sample_request_doc_def sample_request_env_def content_nodes_def props_of_def)
  then have r: "rereads (e_xml ?E) (encode (e_xml ?E) ?w)"
    unfolding rereads_def
    by (intro exI [of _ "''R''"] exI [of _ sample_request_doc]) (simp add: sample_request_env_def, simp add: sample_request_doc_def)
  show ?thesis
    using control_request_sent [where s = ?s and hh = 2 and type = CTRL_TYPE_GET_INTERESTS and E = ?E and n = 1 and as = "[]",
        OF g(1,2) _ g(3,4) t(1) m b] a r i by auto
qed

end
