(* ===== verification/Handles.thy ===== *)
theory Handles
  imports Event_Loop
begin

text \<open>
  The handles over the life of an application: the calls of the library as a step relation, and the form that every handle
  has after any sequence of calls.
\<close>

section \<open>Handles in good order\<close>

text \<open>
  The table has an entry for every event type, the number of registrations is zero exactly when no handler is in the table, and
  the identifier is the digest of the name, in both forms.
\<close>

definition handle_ok :: "haggle_handle \<Rightarrow> bool" where
  "handle_ok g \<longleftrightarrow> length (hh_handlers g) = LIBHAGGLE_NUM_EVENTS
     \<and> 0 \<le> hh_num_handlers g \<and> (hh_num_handlers g = 0 \<longleftrightarrow> (\<forall>f \<in> set (hh_handlers g). hd_handler f = NULL))
     \<and> (\<exists>name. hh_name g = Some name \<and> hh_id g = sha1 (map byte_of_char name)
          \<and> hh_id_base64 g = c_string (base64_encode (map char_of_byte (hh_id g)) ID_BASE64_LEN))"

definition table_ok :: "(ptr \<rightharpoonup> haggle_handle) \<Rightarrow> bool" where
  "table_ok T \<longleftrightarrow> (\<forall>hh g. T hh = Some g \<longrightarrow> handle_ok g)"

definition handles_ok :: "ipc \<Rightarrow> bool" where
  "handles_ok s \<longleftrightarrow> table_ok (i_handles s)"

section \<open>The application and the library\<close>

text \<open>
  The calls of the library, and the rounds of an event loop that runs in a thread of its own: it starts with \<open>haggle_event_loop\<close>, and
  goes on from each wait with \<open>event_loop_rest\<close>, so that other calls come in between.  The functions that the header declares beside these only
  fix a parameter of one of them or only read.
\<close>

inductive api_step :: "env \<Rightarrow> ipc \<Rightarrow> ipc \<Rightarrow> bool" for E :: env where
  get: "haggle_handle_get E name s = Some (r, hh, s') \<Longrightarrow> length name < 2 ^ 61 \<Longrightarrow> api_step E s s'"
| free: "haggle_handle_free E hh s = Some s' \<Longrightarrow> api_step E s s'"
| unregister: "haggle_unregister E name s = Some (r, s') \<Longrightarrow> length name < 2 ^ 61 \<Longrightarrow> api_step E s s'"
| spawn: "haggle_daemon_spawn E path s = Some (r, s') \<Longrightarrow> api_step E s s'"
| publish: "haggle_ipc_publish_dataobject E hh dobj s = Some (r, s') \<Longrightarrow> api_step E s s'"
| request: "haggle_ipc_generate_and_send_control_dataobject E hh type s = Some (r, s') \<Longrightarrow> api_step E s s'"
| interests: "haggle_ipc_add_or_remove_interests E hh op al s = Some (r, s') \<Longrightarrow> api_step E s s'"
| interest: "haggle_ipc_add_or_remove_application_interest_weighted E hh op name vl weight s = Some (r, s') \<Longrightarrow> api_step E s s'"
| register: "haggle_ipc_register_event_interest_with_arg E hh eventId handler arg s = Some (r, s') \<Longrightarrow> api_step E s s'"
| delete: "haggle_ipc_delete_data_object_bloomfilter E hh dobj keep s = Some (r, s') \<Longrightarrow> api_step E s s'"
| delete_by_id: "haggle_ipc_delete_data_object_by_id_bloomfilter E hh dobj_id keep s = Some (r, s') \<Longrightarrow> api_step E s s'"
| callbacks: "haggle_event_loop_register_callbacks hh start stop arg s = Some (r, s') \<Longrightarrow> api_step E s s'"
| run: "haggle_event_loop_run E ws hh s = Some (n, s') \<Longrightarrow> api_step E s s'"
| run_async: "haggle_event_loop_run_async hh s = Some (r, s') \<Longrightarrow> api_step E s s'"
| thread_starts: "haggle_event_loop E ws hh s = Some (left, s') \<Longrightarrow> api_step E s s'"
| thread_goes_on: "event_loop_rest E ws hh retries s = Some (left, s') \<Longrightarrow> api_step E s s'"
| stop: "haggle_event_loop_stop E hh s = Some (r, s') \<Longrightarrow> api_step E s s'"

text \<open>
  The steps of an application: work of its own, which leaves the handles alone (they are private to the library), and calls of the
  library.  What the library runs in turn belongs to it: the handlers and callbacks of the application do nothing but such steps themselves,
  also the callback of \<open>haggle_daemon_spawn_with_callback\<close>, and a thread that is joined goes on with its event loop to the end, in
  surroundings of the same kind.
\<close>

inductive served :: "env \<Rightarrow> bool" and app_step :: "ipc \<Rightarrow> ipc \<Rightarrow> bool" where
  served: "length (Message_Block (e_sha E)) = 64
     \<Longrightarrow> \<forall>f e a s r e' s'. e_handler E f e a s = Some (r, e', s') \<longrightarrow> app_step\<^sup>*\<^sup>* s s'
     \<Longrightarrow> \<forall>f a s s'. e_callback E f a s = Some s' \<longrightarrow> app_step\<^sup>*\<^sup>* s s'
     \<Longrightarrow> \<forall>t s s'. e_join E t s = Some s' \<longrightarrow> (\<exists>E' ws hh r. served E' \<and> event_loop_rest E' ws hh r s = Some (True, s'))
     \<Longrightarrow> served E"
| own: "i_handles s' = i_handles s \<Longrightarrow> app_step s s'"
| call: "served E \<Longrightarrow> api_step E s s' \<Longrightarrow> app_step s s'"
| spawn_with_callback: "haggle_daemon_spawn_with_callback E path (Some callback) s = Some (r, s')
     \<Longrightarrow> \<forall>t u. app_step\<^sup>*\<^sup>* u (snd (callback t u)) \<Longrightarrow> app_step s s'"

text \<open>Surroundings whose functions keep the handles in good order.\<close>

definition app_ok :: "env \<Rightarrow> bool" where
  "app_ok E \<longleftrightarrow> length (Message_Block (e_sha E)) = 64
     \<and> (\<forall>f e a s r e' s'. e_handler E f e a s = Some (r, e', s') \<longrightarrow> handles_ok s \<longrightarrow> handles_ok s')
     \<and> (\<forall>f a s s'. e_callback E f a s = Some s' \<longrightarrow> handles_ok s \<longrightarrow> handles_ok s')
     \<and> (\<forall>t s s'. e_join E t s = Some s' \<longrightarrow> handles_ok s \<longrightarrow> handles_ok s')"

section \<open>Operations that leave the handles alone\<close>

text \<open>A property of the result of an operation, where there is one.\<close>

definition post :: "('a \<Rightarrow> bool) \<Rightarrow> 'a option \<Rightarrow> bool" where
  "post Q r \<longleftrightarrow> (\<forall>x. r = Some x \<longrightarrow> Q x)"

lemma post_simps [simp]: "post Q None" "post Q (Some x) = Q x" "post Q (map_option f m) = post (\<lambda>x. Q (f x)) m"
  by (auto simp: post_def)

lemma postD: "post Q r \<Longrightarrow> r = Some x \<Longrightarrow> Q x"
  by (simp add: post_def)

lemma post_bind: "(\<And>x. m = Some x \<Longrightarrow> post Q (f x)) \<Longrightarrow> post Q (m \<bind> f)"
  by (cases m) (simp_all add: post_def)

lemma post_if: "(b \<Longrightarrow> post Q m) \<Longrightarrow> (\<not> b \<Longrightarrow> post Q n) \<Longrightarrow> post Q (if b then m else n)"
  by simp

lemma post_option: "(x = None \<Longrightarrow> post Q m) \<Longrightarrow> (\<And>y. x = Some y \<Longrightarrow> post Q (f y)) \<Longrightarrow> post Q (case x of None \<Rightarrow> m | Some y \<Rightarrow> f y)"
  by (cases x) auto

lemma post_sum: "(\<And>y. x = Inl y \<Longrightarrow> post Q (f y)) \<Longrightarrow> (\<And>y. x = Inr y \<Longrightarrow> post Q (g y)) \<Longrightarrow> post Q (case x of Inl y \<Rightarrow> f y | Inr y \<Rightarrow> g y)"
  by (cases x) auto

lemmas post_rules = post_bind post_if post_option post_sum

lemma post_mono: "post P r \<Longrightarrow> (\<And>x. P x \<Longrightarrow> Q x) \<Longrightarrow> post Q r"
  by (simp add: post_def)

named_theorems handles_frame \<open>operations that leave the handles as they are\<close>

lemma with_mem_handles [handles_frame]: "with_mem f s = Some s' \<Longrightarrow> i_handles s' = i_handles s"
  by (auto simp: with_mem_def)

lemma with_mem_val_handles [handles_frame]: "with_mem_val f s = Some x \<Longrightarrow> i_handles (snd x) = i_handles s"
  by (auto simp: with_mem_val_def)

lemma os_handles [simp]:
  "i_handles (snd (os_answer s)) = i_handles s" "i_handles (snd (os_int s)) = i_handles s" "i_handles (snd (os_socket s)) = i_handles s"
  "i_handles (snd (os_pipe s)) = i_handles s" "i_handles (snd (os_sendto fd data s)) = i_handles s" "i_handles (snd (os_recv len s)) = i_handles s"
  "i_handles (os_close fd s) = i_handles s" "i_handles (haggle_set_socket_error s) = i_handles s"
  by (auto simp: os_answer_def os_int_def os_socket_def os_pipe_def os_sendto_def os_recv_def os_close_def haggle_set_socket_error_def Let_def
      split: list.splits answer.splits)

lemma create_control_post: "post (\<lambda>x. i_handles (snd x) = i_handles s) (create_control_dataobject E hh type s)"
  unfolding create_control_dataobject_def post_def by (auto dest: with_mem_val_handles split: if_splits)

lemma send_dataobject_post: "post (\<lambda>x. i_handles (snd (snd x)) = i_handles s) (haggle_ipc_send_dataobject E hh dobj w msecs s)"
  unfolding haggle_ipc_send_dataobject_def Let_def split_def
  by (intro post_rules) (auto dest!: handles_frame)

lemmas create_control_handles [handles_frame] = postD [OF create_control_post]
lemmas send_dataobject_handles [handles_frame] = postD [OF send_dataobject_post]

lemma send_and_free_post: "post (\<lambda>x. i_handles (snd x) = i_handles s) (send_and_free E hh dobj s)"
  unfolding send_and_free_def split_def by (intro post_rules) (auto dest!: handles_frame)

lemmas send_and_free_handles [handles_frame] = postD [OF send_and_free_post]

lemma requests_post:
  "post (\<lambda>x. i_handles (snd x) = i_handles s) (haggle_ipc_publish_dataobject E hh dobj s)"
  "post (\<lambda>x. i_handles (snd x) = i_handles s) (haggle_ipc_generate_and_send_control_dataobject E hh type s)"
  "post (\<lambda>x. i_handles (snd x) = i_handles s) (haggle_ipc_add_or_remove_interests E hh op al s)"
  "post (\<lambda>x. i_handles (snd x) = i_handles s) (haggle_ipc_delete_data_object_by_id_bloomfilter E hh dobj_id keep s)"
proof -
  show "post (\<lambda>x. i_handles (snd x) = i_handles s) (haggle_ipc_publish_dataobject E hh dobj s)"
    unfolding haggle_ipc_publish_dataobject_def split_def by (auto intro: post_mono [OF send_dataobject_post])
  show "post (\<lambda>x. i_handles (snd x) = i_handles s) (haggle_ipc_generate_and_send_control_dataobject E hh type s)"
    unfolding haggle_ipc_generate_and_send_control_dataobject_def split_def
    by (intro post_rules) (auto intro!: post_mono [OF send_and_free_post] dest!: handles_frame)
  show "post (\<lambda>x. i_handles (snd x) = i_handles s) (haggle_ipc_add_or_remove_interests E hh op al s)"
    unfolding haggle_ipc_add_or_remove_interests_def split_def
    by (intro post_rules) (auto intro!: post_mono [OF send_and_free_post] dest!: handles_frame)
  show "post (\<lambda>x. i_handles (snd x) = i_handles s) (haggle_ipc_delete_data_object_by_id_bloomfilter E hh dobj_id keep s)"
    unfolding haggle_ipc_delete_data_object_by_id_bloomfilter_def split_def Let_def
    by (intro post_rules) (auto intro!: post_mono [OF send_and_free_post] dest!: handles_frame)
qed


section \<open>Changes of a handle\<close>

lemma table_okD: "table_ok T \<Longrightarrow> T hh = Some g \<Longrightarrow> handle_ok g"
  by (simp add: table_ok_def)

lemma table_ok_update: "table_ok T \<Longrightarrow> handle_ok g \<Longrightarrow> table_ok (T(hh \<mapsto> g))" "table_ok T \<Longrightarrow> table_ok (T(hh := None))"
  by (auto simp: table_ok_def)

lemma free_handle_handles [simp]: "i_handles (free_handle hh s) = (i_handles s)(hh := None)"
  by (simp add: free_handle_def)

lemma handle_ok_updates [simp]:
  "handle_ok (g\<lparr>hh_event_loop_running := i\<rparr>) = handle_ok g" "handle_ok (g\<lparr>hh_session_id := i\<rparr>) = handle_ok g"
  "handle_ok (g\<lparr>hh_handle_free_final := i\<rparr>) = handle_ok g" "handle_ok (g\<lparr>hh_th := t\<rparr>) = handle_ok g"
  "handle_ok (g\<lparr>hh_start := a, hh_stop := b, hh_arg := c\<rparr>) = handle_ok g"
  by (simp_all add: handle_ok_def)

lemma register_handler_ok:
  assumes "handle_ok g" "0 \<le> i" "i < int LIBHAGGLE_NUM_EVENTS" "hd_handler f \<noteq> NULL" "int_inc (hh_num_handlers g) = Some n"
  shows "handle_ok (g\<lparr>hh_handlers := (hh_handlers g)[nat i := f], hh_num_handlers := n\<rparr>)"
proof -
  have "nat i < length (hh_handlers g)" using assms(1-3) by (simp add: handle_ok_def nat_less_iff)
  then have "f \<in> set ((hh_handlers g)[nat i := f])" by (rule set_update_memI)
  then show ?thesis using assms by (auto simp: handle_ok_def int_inc_def split: if_splits)
qed

lemma new_handle_ok:
  assumes "length (Message_Block (e_sha E)) = 64" "length name < 2 ^ 61"
  shows "handle_ok ((application_id E (zero_handle\<lparr>hh_sock := i, hh_signal := q\<rparr>) name)\<lparr>hh_name := Some name\<rparr>)"
proof -
  have "fst (SHA1_Final d (SHA1_Update (SHA1_Init (e_sha E)) (map byte_of_char name))) = sha1 (map byte_of_char name)" for d
    using SHA1_Final_ready [OF SHA1_Update_ready [OF SHA1_Init_ready [OF assms(1)]], of "map byte_of_char name"] assms(2) by simp
  then show ?thesis by (simp add: handle_ok_def application_id_def zero_handle_def Let_def)
qed

section \<open>Every call keeps the handles in order\<close>

abbreviation kept_ok :: "('a \<times> ipc) option \<Rightarrow> bool" where
  "kept_ok \<equiv> post (\<lambda>x. handles_ok (snd x))"

lemma frame_ok: "post (\<lambda>x. i_handles (snd x) = i_handles s) r \<Longrightarrow> handles_ok s \<Longrightarrow> kept_ok r"
  by (erule post_mono) (simp add: handles_ok_def)

lemmas requests_ok = requests_post [THEN frame_ok]
lemmas requests_handles [handles_frame] = requests_post [THEN postD]

lemma interest_ok: "handles_ok s \<Longrightarrow> kept_ok (haggle_ipc_add_or_remove_application_interest_weighted E hh op name vl weight s)"
  unfolding haggle_ipc_add_or_remove_application_interest_weighted_def split_def handles_ok_def
  by (intro post_rules) (auto dest!: handles_frame)

lemma delete_ok: "handles_ok s \<Longrightarrow> kept_ok (haggle_ipc_delete_data_object_bloomfilter E hh dobj keep s)"
  unfolding haggle_ipc_delete_data_object_bloomfilter_def split_def by (intro post_rules requests_ok)

lemma register_ok: "handles_ok s \<Longrightarrow> kept_ok (haggle_ipc_register_event_interest_with_arg E hh eventId handler arg s)"
  unfolding haggle_ipc_register_event_interest_with_arg_def split_def handles_ok_def
  by (intro post_rules) (auto dest!: handles_frame intro!: table_ok_update register_handler_ok intro: table_okD)

lemma signal_handles [handles_frame]:
  "event_loop_signal_raise hh s = Some s' \<Longrightarrow> i_handles s' = i_handles s" "event_loop_signal_lower hh s = Some s' \<Longrightarrow> i_handles s' = i_handles s"
  by (auto simp: event_loop_signal_raise_def event_loop_signal_lower_def bind_eq_Some_conv split: if_splits)

lemma app_okD:
  assumes "app_ok E"
  shows "e_handler E f e a s = Some x \<Longrightarrow> table_ok (i_handles s) \<Longrightarrow> table_ok (i_handles (snd (snd x)))"
    "e_callback E f a s = Some s' \<Longrightarrow> table_ok (i_handles s) \<Longrightarrow> table_ok (i_handles s')"
    "e_join E t s = Some s' \<Longrightarrow> table_ok (i_handles s) \<Longrightarrow> table_ok (i_handles s')"
  using assms unfolding app_ok_def handles_ok_def by (cases x; auto; blast)+

lemma stop_ok:
  assumes "handles_ok s" "app_ok E"
  shows "kept_ok (haggle_event_loop_stop E hh s)"
proof -
  have j: "table_ok (i_handles s2)" if "e_join E t s1 = Some s2" "i_handles s1 = i_handles s" for t s1 s2
    using app_okD(3) [OF assms(2) that(1)] assms(1) that(2) by (simp add: handles_ok_def)
  then show ?thesis using assms(1) unfolding haggle_event_loop_stop_def handles_ok_def
    by (intro post_rules) (auto dest!: handles_frame intro!: table_ok_update intro: table_okD table_okD [OF j])
qed

lemma free_final_ok: "handles_ok s \<Longrightarrow> post handles_ok (haggle_handle_free_final hh s)"
  unfolding haggle_handle_free_final_def split_def Let_def handles_ok_def by (intro post_rules) (auto intro!: table_ok_update)

lemma free_ok:
  assumes a: "handles_ok s" "app_ok E"
  shows "post handles_ok (haggle_handle_free E hh s)"
proof -
  have 1: "handles_ok s1" if "(if b then map_option snd (haggle_event_loop_stop E hh s) else Some s) = Some s1" for b s1
    using that a(1) postD [OF stop_ok [OF a]] by (auto split: if_splits)
  have 2: "handles_ok (snd x)" if "handles_ok s1" "create_control_dataobject E hh type s1 = Some x" for s1 type x
    using create_control_handles [OF that(2)] that(1) by (simp add: handles_ok_def)
  have 3: "handles_ok s2" if "handles_ok s1" "(if b then map_option snd (send_and_free E hh dobj s1) else Some s1) = Some s2" for b s1 s2 dobj
    using that send_and_free_handles [of E hh dobj s1] by (auto simp: handles_ok_def split: if_splits)
  have 4: "handles_ok (set_handle hh (g\<lparr>hh_handle_free_final := 1\<rparr>) s1)" if "handles_ok s1" "i_handles s1 hh = Some g" for s1 g
    using that table_okD by (auto simp: handles_ok_def intro!: table_ok_update)
  show ?thesis unfolding haggle_handle_free_def split_def
    by (intro post_rules free_final_ok; (simp only: post_simps)?; blast intro: a(1) 1 2 3 4)
qed

lemma check_reply_post: "post (\<lambda>x. i_handles (snd x) = i_handles s) (check_reply dobj busy s)"
  unfolding check_reply_def split_def Let_def
  by (intro post_rules) (auto dest!: handles_frame split: if_splits simp: bind_eq_Some_conv)

lemmas check_reply_handles [handles_frame] = postD [OF check_reply_post]


lemma get_ok:
  assumes "handles_ok s" "app_ok E" "length name < 2 ^ 61"
  shows "post (\<lambda>x. handles_ok (snd (snd x))) (haggle_handle_get_internal E name busy s)"
proof -
  have new: "handle_ok ((application_id E (zero_handle\<lparr>hh_sock := i, hh_signal := q\<rparr>) name)\<lparr>hh_name := Some name\<rparr>)" for i q
    using assms(2,3) by (intro new_handle_ok) (simp_all add: app_ok_def)
  have upd: "table_ok ((i_handles s)(hh \<mapsto> g))" if "handle_ok g" for hh g using that assms(1) by (simp add: handles_ok_def table_ok_update(1))
  show ?thesis using assms(1) new
    unfolding haggle_handle_get_internal_def split_def Let_def handles_ok_def
    by (intro post_rules) (auto dest!: handles_frame intro!: table_ok_update split: option.splits)
qed

lemma unregister_ok:
  assumes "handles_ok s" "app_ok E" "length name < 2 ^ 61"
  shows "kept_ok (haggle_unregister E name s)"
proof -
  have "handles_ok (snd (snd x))" if "haggle_handle_get_internal E name True s = Some x" for x using postD [OF get_ok [OF assms] that] .
  then show ?thesis unfolding haggle_unregister_def split_def
    by (intro post_rules) (auto dest: postD [OF free_ok [OF _ assms(2)]])
qed

definition callback_ok :: "spawn_callback \<Rightarrow> bool" where
  "callback_ok c \<longleftrightarrow> (\<forall>f t s. c = Some f \<longrightarrow> handles_ok s \<longrightarrow> handles_ok (snd (f t s)))"

lemma spawn_wait_ok: "callback_ok c \<Longrightarrow> handles_ok s \<Longrightarrow> handles_ok (snd (spawn_wait c n t s))"
  by (induction n arbitrary: t s) (auto simp: Let_def split_def handles_ok_def callback_ok_def split: option.splits)

lemma spawn_ok:
  assumes "callback_ok c" "handles_ok s"
  shows "kept_ok (haggle_daemon_spawn_with_callback E path c s)"
proof -
  have d: "handles_ok (snd (spawn_daemon_internal p c s))" for p
    using assms spawn_wait_ok [OF assms(1)] by (auto simp: handles_ok_def spawn_daemon_internal_def Let_def split_def split: option.splits)
  have "handles_ok (snd (spawn_path_loop E ps c s))" for ps using assms(2) by (induction ps) (auto simp: d)
  then show ?thesis using assms(2) unfolding haggle_daemon_spawn_with_callback_def split_def by (intro post_rules) (auto simp: d)
qed

lemma handle_event_ok:
  assumes "handles_ok s" "app_ok E"
  shows "kept_ok (handle_event E hh type dobj app_m event_m s)"
proof -
  have h: "table_ok (i_handles (snd (snd x)))" if "e_handler E f e a s1 = Some x" "i_handles s1 = i_handles s" for f e a s1 x
    using app_okD(1) [OF assms(2) that(1)] assms(1) that(2) by (simp add: handles_ok_def)
  show ?thesis using assms(1) unfolding handle_event_def split_def Let_def handles_ok_def
    by (intro post_rules) (auto dest!: h split: if_splits dest!: handles_frame)
qed


lemma drop_object_ok: "handles_ok s \<Longrightarrow> kept_ok (drop_object dobj s)"
  unfolding drop_object_def handles_ok_def by (intro post_rules) (auto dest!: handles_frame)

lemma receive_ok:
  assumes "app_ok E"
  shows "handles_ok s \<Longrightarrow> kept_ok (receive_event_type E hh dobj app_m ctrl_m s)"
    "handles_ok s \<Longrightarrow> kept_ok (receive_control E hh dobj app_m s)" "handles_ok s \<Longrightarrow> kept_ok (receive_event E hh raw s)"
proof -
  have m: "handles_ok (snd x)" if "with_mem_val f s = Some x" "handles_ok s" for f s and x :: "'a \<times> ipc"
    using that(2) with_mem_val_handles [OF that(1)] by (simp add: handles_ok_def)
  have e: "handles_ok (snd x)" if "handle_event E hh i dobj app_m ev s = Some x" "handles_ok s" for i dobj app_m ev s x
    using postD [OF handle_event_ok [OF that(2) assms] that(1)] .
  have f: "handles_ok s'" if "(if b then with_mem f s else Some s) = Some s'" "handles_ok s" for b f s s'
    using that by (auto simp: handles_ok_def split: if_splits dest!: handles_frame)
  show 1: "handles_ok s \<Longrightarrow> kept_ok (receive_event_type E hh dobj app_m ctrl_m s)" for s dobj app_m ctrl_m
    unfolding receive_event_type_def split_def
    by (intro post_rules drop_object_ok) (auto dest: m e f)
  show 2: "handles_ok s \<Longrightarrow> kept_ok (receive_control E hh dobj app_m s)" for s dobj app_m
    unfolding receive_control_def split_def by (intro post_rules drop_object_ok 1) (auto dest: m)
  show "handles_ok s \<Longrightarrow> kept_ok (receive_event E hh raw s)"
    unfolding receive_event_def split_def by (intro post_rules drop_object_ok 2) (auto dest: m)
qed


lemma count_error_ok: "handles_ok s \<Longrightarrow> kept_ok (count_error hh r s)"
  unfolding count_error_def handles_ok_def by (intro post_rules) (auto intro!: table_ok_update intro: table_okD)

lemma wait_handles [handles_frame]: "wait_for_event w hh s = Some x \<Longrightarrow> i_handles (snd x) = i_handles s"
  by (auto simp: wait_for_event_def bind_eq_Some_conv Let_def)

lemma post_loop_event:
  "(x = EVENT_LOOP_ERROR \<Longrightarrow> post Q a) \<Longrightarrow> (x = EVENT_LOOP_TIMEOUT \<Longrightarrow> post Q b) \<Longrightarrow> (x = EVENT_LOOP_SHOULD_EXIT \<Longrightarrow> post Q c)
   \<Longrightarrow> (x = EVENT_LOOP_SOCKET_READABLE \<Longrightarrow> post Q d)
   \<Longrightarrow> post Q (case x of EVENT_LOOP_ERROR \<Rightarrow> a | EVENT_LOOP_TIMEOUT \<Rightarrow> b | EVENT_LOOP_SHOULD_EXIT \<Rightarrow> c | EVENT_LOOP_SOCKET_READABLE \<Rightarrow> d)"
  by (cases x) auto

lemma round_ok:
  assumes "handles_ok s" "app_ok E"
  shows "kept_ok (event_loop_round E w hh r s)"
proof -
  have w: "handles_ok (snd x)" if "wait_for_event w hh s = Some x" for x using wait_handles [OF that] assms(1) by (simp add: handles_ok_def)
  have c: "handles_ok (snd x)" if "count_error hh r s = Some x" "handles_ok s" for s x using postD [OF count_error_ok [OF that(2)] that(1)] .
  have v: "handles_ok (snd x)" if "receive_event E hh d s = Some x" "handles_ok s" for d s x using postD [OF receive_ok(3) [OF assms(2) that(2)] that(1)] .
  have l: "handles_ok (set_handle hh (g\<lparr>hh_event_loop_running := 0\<rparr>) s2)"
    if "event_loop_signal_lower hh s1 = Some s2" "i_handles s2 hh = Some g" "handles_ok s1" for s1 s2 g
    using that by (auto simp: handles_ok_def dest!: handles_frame intro!: table_ok_update intro: table_okD)
  show ?thesis unfolding event_loop_round_def split_def
    by (intro post_rules post_loop_event) (auto dest!: w dest: c v l)
qed

lemma while_ok: "handles_ok s \<Longrightarrow> app_ok E \<Longrightarrow> post (\<lambda>x. handles_ok (snd (snd x))) (event_loop_while E ws hh r s)"
proof (induction ws arbitrary: r s)
  case Nil
  then show ?case by (subst event_loop_while.simps) (intro post_rules; simp)
next
  case (Cons w ws)
  have "handles_ok (snd x)" if "event_loop_round E w hh r s = Some x" for x using postD [OF round_ok [OF Cons.prems] that] .
  then show ?case using Cons by (subst event_loop_while.simps) (auto simp: split_def intro!: post_rules)
qed

lemma event_loop_end_ok: "handles_ok s \<Longrightarrow> post handles_ok (event_loop_end hh s)"
  unfolding event_loop_end_def by (intro post_rules free_final_ok) auto

lemma callback_call_ok:
  "(if b then e_callback E f a s else Some s) = Some s' \<Longrightarrow> app_ok E \<Longrightarrow> handles_ok s \<Longrightarrow> handles_ok s'"
  using app_okD(2) by (auto simp: handles_ok_def split: if_splits)

lemma event_loop_rest_ok:
  assumes "handles_ok s" "app_ok E"
  shows "kept_ok (event_loop_rest E ws hh r s)"
  unfolding event_loop_rest_def split_def
  by (intro post_rules)
    (auto dest: postD [OF while_ok [OF assms]] callback_call_ok [OF _ assms(2)] postD [OF event_loop_end_ok])

lemma event_loop_ok:
  assumes "handles_ok s" "app_ok E"
  shows "kept_ok (haggle_event_loop E ws hh s)"
proof -
  have m: "handles_ok (s\<lparr>i_mem := h\<rparr>)" for h using assms(1) by (simp add: handles_ok_def)
  have u: "handles_ok (set_handle hh (g\<lparr>hh_event_loop_running := 1\<rparr>) (s\<lparr>i_mem := h\<rparr>))" if "i_handles s hh = Some g" for g h
    using that assms(1) table_okD [of "i_handles s"] by (auto simp: handles_ok_def intro!: table_ok_update)
  show ?thesis unfolding haggle_event_loop_def split_def Let_def
    by (intro post_rules event_loop_rest_ok assms(2)) (auto dest: postD [OF event_loop_end_ok [OF m]] callback_call_ok [OF _ assms(2) u])
qed

lemma run_ok:
  assumes "handles_ok s"
  shows "app_ok E \<Longrightarrow> kept_ok (haggle_event_loop_run E ws hh s)" "kept_ok (haggle_event_loop_run_async hh s)"
    "kept_ok (haggle_event_loop_register_callbacks hh start stop arg s)"
proof -
  have c: "handles_ok (snd y)" if "event_loop_checks hh s = Some (Some y)" for y
    using that assms by (auto simp: event_loop_checks_def bind_eq_Some_conv handles_ok_def split: if_splits)
  have l: "handles_ok (snd y)" if "app_ok E" "haggle_event_loop E ws hh s = Some y" for y using postD [OF event_loop_ok [OF assms that(1)] that(2)] .
  show "app_ok E \<Longrightarrow> kept_ok (haggle_event_loop_run E ws hh s)"
    unfolding haggle_event_loop_run_def split_def by (intro post_rules) (auto dest: c l)
  show "kept_ok (haggle_event_loop_run_async hh s)" using assms
    unfolding haggle_event_loop_run_async_def split_def Let_def
    by (intro post_rules) (auto dest!: c simp: handles_ok_def intro!: table_ok_update dest: table_okD)
  show "kept_ok (haggle_event_loop_register_callbacks hh start stop arg s)" using assms
    unfolding haggle_event_loop_register_callbacks_def handles_ok_def
    by (intro post_rules) (auto intro!: table_ok_update dest: table_okD)
qed

lemma api_step_ok: "api_step E s s' \<Longrightarrow> app_ok E \<Longrightarrow> handles_ok s \<Longrightarrow> handles_ok s'"
proof (induction rule: api_step.induct)
  case (get name s r hh s')
  then show ?case using postD [OF get_ok [of s E name False]] by (fastforce simp: haggle_handle_get_def)
next
  case (free hh s s')
  then show ?case using postD [OF free_ok] by blast
next
  case (unregister name s r s')
  then show ?case using postD [OF unregister_ok] by fastforce
next
  case (spawn path s r s')
  then show ?case using postD [OF spawn_ok [of None]] by (fastforce simp: haggle_daemon_spawn_def callback_ok_def)
next
  case (publish hh dobj s r s')
  then show ?case using postD [OF requests_ok(1)] by fastforce
next
  case (request hh type s r s')
  then show ?case using postD [OF requests_ok(2)] by fastforce
next
  case (interests hh op al s r s')
  then show ?case using postD [OF requests_ok(3)] by fastforce
next
  case (interest hh op name vl weight s r s')
  then show ?case using postD [OF interest_ok] by fastforce
next
  case (register hh eventId handler arg s r s')
  then show ?case using postD [OF register_ok] by fastforce
next
  case (delete hh dobj keep s r s')
  then show ?case using postD [OF delete_ok] by fastforce
next
  case (delete_by_id hh dobj_id keep s r s')
  then show ?case using postD [OF requests_ok(4)] by fastforce
next
  case (callbacks hh start stop arg s r s')
  then show ?case using postD [OF run_ok(3)] by fastforce
next
  case (run ws hh s n s')
  then show ?case using postD [OF run_ok(1)] by fastforce
next
  case (run_async hh s r s')
  then show ?case using postD [OF run_ok(2)] by fastforce
next
  case (thread_starts ws hh s left s')
  then show ?case using postD [OF event_loop_ok] by fastforce
next
  case (thread_goes_on ws hh retries s left s')
  then show ?case using postD [OF event_loop_rest_ok] by fastforce
next
  case (stop hh s r s')
  then show ?case using postD [OF stop_ok] by fastforce
qed

lemma steps_kept: "(\<lambda>s s'. app_step s s' \<and> (handles_ok s \<longrightarrow> handles_ok s'))\<^sup>*\<^sup>* s s' \<Longrightarrow> handles_ok s \<Longrightarrow> handles_ok s'"
  by (induction rule: rtranclp_induct) auto

lemma application_ok: "served E \<Longrightarrow> app_ok E" "app_step s s' \<Longrightarrow> handles_ok s \<longrightarrow> handles_ok s'"
proof (induction rule: served_app_step.inducts)
  case (served E)
  have "handles_ok s'" if "e_join E t s = Some s'" "handles_ok s" for t s s'
    using served(4) that postD [OF event_loop_rest_ok [OF that(2)]] by fastforce
  then show ?case using served(1-3) steps_kept unfolding app_ok_def by blast
next
  case (own s' s)
  then show ?case by (simp add: handles_ok_def)
next
  case (call E s s')
  then show ?case using api_step_ok by blast
next
  case (spawn_with_callback E path callback s r s')
  then have "callback_ok (Some callback)" using steps_kept unfolding callback_ok_def by blast
  then show ?case using postD [OF spawn_ok spawn_with_callback(1)] by auto
qed

section \<open>The property\<close>

text \<open>
  C8: The form of the handles: after any steps of an application and its event loops, every handle has a table with an entry for each event
  type, counts registrations exactly when a handler is in the table, and carries the digest of its name as its identifier, also in base64.  The
  steps are work of the application on its own and the calls of the library, in any order and with any surroundings; nothing is asked of
  handlers and callbacks but that they consist of such steps too, and a joined thread is the modelled loop.
\<close>

theorem handles_in_order:
  assumes "app_step\<^sup>*\<^sup>* s s'" "handles_ok s"
  shows "handles_ok s'"
  using assms by (induction rule: rtranclp_induct) (auto dest: application_ok(2))

text \<open>
  An application with a handler for new data objects and a stop callback: the handler calls the library, the callback leaves a mark, and
  the joined thread goes on with its loop through five errors of \<open>select\<close>.
\<close>

definition sample_loop_env :: env where
  "sample_loop_env = sample_env\<lparr>e_self := 9, e_callback := (\<lambda>f a s. Some (s\<lparr>libhaggle_errno := int f\<rparr>)),
     e_handler := (\<lambda>f e a s. map_option (\<lambda>x. (1, e, snd x)) (haggle_event_loop_register_callbacks 2 71 72 73 s))\<rparr>"

definition sample_app_env :: env where
  "sample_app_env = sample_loop_env\<lparr>e_self := 8, e_join := (\<lambda>t s. do {
     (ended, s) \<leftarrow> event_loop_rest sample_loop_env (replicate 5 \<lparr>w_stops = 0, w_select = Sel_error, w_data = None\<rparr>) 2 0 s;
     if ended then Some s else None })\<rparr>"

definition sample_app_handle :: haggle_handle where
  "sample_app_handle = (application_id sample_env (zero_handle\<lparr>hh_sock := 3, hh_signal := (4, 5)\<rparr>) ''app'')\<lparr>hh_name := Some ''app''\<rparr>"

definition sample_running_handle :: haggle_handle where
  "sample_running_handle = sample_app_handle\<lparr>hh_handlers := (hh_handlers sample_app_handle)[2 := \<lparr>hd_arg = 0, hd_handler = 77\<rparr>],
     hh_num_handlers := 1, hh_start := 71, hh_stop := 72, hh_arg := 73, hh_event_loop_running := 1, hh_th := 9\<rparr>"

definition sample_running :: ipc where
  "sample_running = sample_ipc\<lparr>i_handles := [2 \<mapsto> sample_running_handle]\<rparr>"

lemma sample_served: "served sample_env" "served sample_loop_env" "served sample_app_env"
proof -
  show e: "served sample_env" by (rule served) (simp_all add: sample_env_def any_context_def)
  have c: "app_step\<^sup>*\<^sup>* s s'" if "haggle_event_loop_register_callbacks 2 71 72 73 s = Some (r, s')" for s r s'
    using call [OF e api_step.callbacks [OF that]] by blast
  have o: "app_step\<^sup>*\<^sup>* s (s\<lparr>libhaggle_errno := n\<rparr>)" for s n by (intro r_into_rtranclp own) simp
  show l: "served sample_loop_env"
    by (rule served) (auto simp: sample_loop_env_def sample_env_def any_context_def o dest: c)
  show "served sample_app_env"
  proof (rule served)
    show "length (Message_Block (e_sha sample_app_env)) = 64"
      by (simp add: sample_app_env_def sample_loop_env_def sample_env_def any_context_def)
  qed (use l in \<open>auto simp: sample_app_env_def sample_loop_env_def bind_eq_Some_conv o dest: c split: if_splits\<close>)
qed

lemma sample_running_ok: "handles_ok sample_running"
proof -
  have a: "handle_ok sample_app_handle"
    unfolding sample_app_handle_def by (rule new_handle_ok) (simp_all add: sample_env_def any_context_def)
  have "handle_ok (sample_app_handle\<lparr>hh_handlers := (hh_handlers sample_app_handle)[nat 2 := \<lparr>hd_arg = 0, hd_handler = 77\<rparr>], hh_num_handlers := 1\<rparr>)"
    by (rule register_handler_ok [OF a])
      (simp_all add: LIBHAGGLE_NUM_EVENTS_def int_inc_def sample_app_handle_def application_id_def zero_handle_def Let_def)
  then show ?thesis by (simp add: handles_ok_def table_ok_def sample_running_def sample_running_handle_def handle_ok_def)
qed

theorem handles_in_order_witness:
  "handles_ok sample_running \<and> served sample_app_env
     \<and> (\<exists>s' g. haggle_event_loop_stop sample_app_env 2 sample_running = Some (HAGGLE_NO_ERROR, s') \<and> app_step\<^sup>*\<^sup>* sample_running s'
          \<and> libhaggle_errno s' = 72 \<and> i_handles s' 2 = Some g \<and> hh_event_loop_running g = 0 \<and> handles_ok s')"
proof -
  let ?g = "sample_running_handle" and ?w = "\<lparr>w_stops = 0, w_select = Sel_error, w_data = None\<rparr>"
  let ?s = "sample_running\<lparr>os_pipes := (os_pipes sample_running)((4, 5) := Suc (os_pipes sample_running (4, 5)))\<rparr>"
  have g: "i_handles sample_running 2 = Some ?g" "hh_signal ?g = (4, 5)" "hh_th ?g = 9" "hh_stop ?g = 72" "hh_event_loop_running ?g = 1"
    "hh_handle_free_final ?g = 0"
    by (simp_all add: sample_running_def sample_running_handle_def sample_app_handle_def application_id_def zero_handle_def Let_def)
  obtain r s1 where s1: "event_loop_while sample_loop_env (replicate 5 ?w) 2 0 ?s = Some (True, r, s1)"
    "i_handles s1 2 = Some (?g\<lparr>hh_event_loop_running := 0\<rparr>)"
    using raised_loop_left [of ?s 2 ?g 0 "replicate 5 ?w" sample_loop_env] g by auto
  have "event_loop_rest sample_loop_env (replicate 5 ?w) 2 0 ?s = Some (True, s1\<lparr>libhaggle_errno := 72\<rparr>)"
    using s1 g(4,6) by (simp add: event_loop_rest_def event_loop_end_def) (simp add: sample_loop_env_def)
  then have j: "e_join sample_app_env 9 ?s = Some (s1\<lparr>libhaggle_errno := 72\<rparr>)" by (simp add: sample_app_env_def)
  have "e_self sample_app_env = 8" by (simp add: sample_app_env_def)
  then have S: "haggle_event_loop_stop sample_app_env 2 sample_running
      = Some (HAGGLE_NO_ERROR, set_handle 2 (?g\<lparr>hh_event_loop_running := 0, hh_th := 0\<rparr>) (s1\<lparr>libhaggle_errno := 72\<rparr>))"
    using g s1(2) j by (simp add: haggle_event_loop_stop_def event_loop_signal_raise_def is_event_loop_thread_def)
  then have "app_step\<^sup>*\<^sup>* sample_running (set_handle 2 (?g\<lparr>hh_event_loop_running := 0, hh_th := 0\<rparr>) (s1\<lparr>libhaggle_errno := 72\<rparr>))"
    using call [OF sample_served(3) api_step.stop] by blast
  then show ?thesis using handles_in_order [OF _ sample_running_ok] sample_running_ok sample_served(3) S by (fastforce simp: set_handle_def)
qed

end
