(* ===== verification/Spec2Isabelle.thy ===== *)
theory Spec2Isabelle
  imports Base64 SHA1 Bloomfilter Counting_Bloomfilter CList Attribute Metadata Metadata_XML Interface Node Dataobject Dataobject_Raw
    Dataobject_Roundtrip Event_Dispatch Control_Request Handles
begin

text \<open>
  \<^bold>\<open>Haggle: the C libraries.\<close>
  Haggle is a network architecture for opportunistic communication.  A kernel daemon (C++, under
  \<open>src/src/hagglekernel\<close>) keeps data objects and exchanges them with neighbours; applications talk to it through
  the C library \<open>libhaggle\<close> (\<open>src/src/libhaggle\<close>), and both share the C code under \<open>src/src/utils\<close>.  This development
  models the C code: the library, from its codecs over metadata and data objects up to the communication of an application with the
  daemon, and the Bloom filters that nodes use to tell each other which data objects they have.

  The parts build on each other: a request or an event is a data object in its text form; a data object has a list of
  attributes, a hash (\<open>sha1.c\<close>, \<open>base64.c\<close>) and a tree of metadata; the tree and its lists are doubly linked lists in memory; and the event loop takes
  datagrams apart with the same functions with which requests are put together.

  \<^bold>\<open>Theories and sources.\<close>
  \<^item> \<open>Haggle_Prelude\<close>: machine words, bytes in memory, network byte order, C strings, the error codes of \<open>error.h\<close>.
  \<^item> \<open>Base64\<close>: \<open>libhaggle/base64.c\<close> (and its copy in \<open>utils\<close>): the encoder, the streaming decoder with its context, and the
    allocating functions.  The decoder is shown to implement an independent definition of the format (groups
    of four characters, padding, newlines ignored), on whole texts and on texts given in pieces; encoding and
    decoding are inverse; the sizes of the buffers suffice, and the overflow check of the encoder is exact.
  \<^item> \<open>SHA1\<close>: \<open>libhaggle/sha1.c\<close> with the macros of \<open>sha1_private.h\<close>: initialisation, input, padding, result.  Any sequence of
    updates followed by the result gives the digest that the standard defines for the
    concatenated data, up to the length of 2^61 bytes, where the counter wraps and an error is recorded.
  \<^item> \<open>Key_Filter\<close>, \<open>Bloomfilter\<close>, \<open>Counting_Bloomfilter\<close>: \<open>utils/bloomfilter.c\<close> and \<open>utils/counting_bloomfilter.c\<close>.  A locale states the contract of
    a set with false positives only; both filters interpret it.  Refinement to sets of bits and to counters, no false negatives, union by merging,
    conversion between the two, the text forms, and what happens when a counter overflows.  The digest
    function of OpenSSL, the random numbers and the floating-point expressions for the dimensions
    are parameters.
  \<^item> \<open>CList\<close>: \<open>libhaggle/include/libhaggle/list.h\<close>: the doubly linked list whose elements are embedded in structures, and the memory
    all later theories use.  An address is a natural number; the list elements and, in
    extensions of the record, every kind of structure are partial maps from addresses; a list of booleans
    gives the outcomes of the allocations to come.  An access outside the domain is undefined behaviour
    and makes the result \<open>None\<close>.  The operations refine those on sequences (a locale and its interpretation), and the
    loops end after visiting every element.
  \<^item> \<open>Attribute\<close>: \<open>libhaggle/attribute.c\<close>: attributes and attribute lists: the effect of every operation on the represented
    list of attributes, independence of copies, release of exactly the objects of a list, the parser
    of lists of pairs.
  \<^item> \<open>Metadata\<close>: \<open>libhaggle/metadata.c\<close>: trees of metadata with iterators and parameters: moving nodes, enumeration of the children with
    a name, setting and getting parameters, the recursive release of a tree.
  \<^item> \<open>Metadata_Tree\<close>, \<open>Metadata_Edit\<close>: the same code as operations on trees of values: making a node, attaching a tree that was built on its own, content
    and parameters, the iteration over children, changing the child with a name, removing children during the iteration, each with what it leaves alone.
  \<^item> \<open>Metadata_XML\<close>: \<open>libhaggle/metadata_xml.c\<close>: the XML form of metadata.  Documents are a datatype; parsing and printing of text are
    libxml's and are parameters.  What a document describes, what is written, and that reading a document that was written gives
    the same tree (without blank contents).
  \<^item> \<open>Interface\<close>: \<open>libhaggle/interface.c\<close>: network interfaces, one block of memory each with pointers into it; exactly which metadata
    describe an interface and which one is made; copies share the block of the original.
  \<^item> \<open>Node\<close>: \<open>libhaggle/node.c\<close>: nodes and node lists: a node made from metadata has the interfaces that its children describe; node
    lists are counted stacks (a locale and its interpretation).
  \<^item> \<open>Dataobject\<close>: \<open>libhaggle/dataobject.c\<close>: data objects: their identifier and the hash of their file are the digests they should
    be, end to end from the file; thumbnails are read back.  The file system
    is a parameter.
  \<^item> \<open>Dataobject_Raw\<close>: the parsing of data objects in \<open>dataobject.c\<close> (\<open>haggle_dataobject_new_from_raw\<close>, \<open>haggle_dataobject_new_from_buffer\<close>) with \<open>atoi\<close>, \<open>strtoul\<close> and \<open>sscanf\<close> as far as it uses
    them: the object has the members that a specification on trees of values computes; a text with another root is refused and nothing is left in memory.
  \<^item> \<open>Dataobject_Roundtrip\<close>: the conversion of a data object to metadata refines an operation on trees of values; what is written and parsed again is an
    object with the members that the text form has (\<open>sent\<close>: all but the thumbnail, and no file name without data) and the same identifier; this holds for new
    objects and for objects that were written or received before, so an object can be passed on any number of times; writing twice gives the same text.
  \<^item> \<open>Ipc\<close>, \<open>Registration\<close>, \<open>Event_Loop\<close>: \<open>libhaggle/ipc.c\<close>: the handles and the global state of the library; control data objects, sending, interests and event
    interests; starting the daemon, registration and deregistration; the event loop, the dispatch of events, starting and stopping the loop.  After
    \<open>haggle_event_loop_stop\<close> the loop ends within five rounds, whatever they bring, and the call returns.
  \<^item> \<open>Event_Dispatch\<close>: a specification of what happens to a datagram (delivered, dropped, undefined behaviour), and that the loop follows
    it: the handler gets the object that the text describes without the metadata for the application; what is dropped leaves no object, list or tree behind.
  \<^item> \<open>Control_Request\<close>: a request is one datagram whose text describes the object with the name and identifier of the application and the type of the request, and
    the object with its attributes and metadata is released.
  \<^item> \<open>Handles\<close>: the application and the library as a step relation: work of its own, calls of the library, rounds of an event loop in another thread.  The handlers
    and callbacks that the library runs consist of such steps again, and a joined thread is the modelled loop (two mutually inductive predicates, \<open>served\<close> and
    \<open>app_step\<close>).  Every sequence of steps keeps the form of the handles.

  \<^bold>\<open>How the code is translated.\<close>
  A structure is a record, an enumeration a datatype, an unsigned integer a word of its width; a signed integer whose
  overflow is possible is checked, and its overflow undefined.  A function is one definition that passes the
  memory explicitly; every early return, allocation failure and error code is a branch of it.  Loops that walk
  through linked structures are partial functions in the option monad, for which not ending is \<open>None\<close>; the theorems
  state \<open>Some\<close>, so they include that the loop ends and that no undefined behaviour occurs.  The loops over
  buffers are total functions with a termination proof; no fuel is used anywhere.  Local variables that are not
  initialised are arguments, so the theorems hold for every value they may have.  The structures that are linked (list elements, attributes, lists,
  metadata, interfaces, nodes, data objects) live in memory; strings are values inside them, so that the theorems about released memory
  speak of the structures and not of the blocks of characters they point to.  (Interfaces, whose pointers lead into one block, are the exception.)
  \<open>SHA1_Update\<close> takes the bytes it is given, which stands for calls with fewer than \<open>2 ^ 32\<close> bytes, the range of its length parameter.

  The state of \<open>ipc.c\<close> is a record \<open>ipc\<close>: the memory, the handles by address, the global variables, and the operating system as
  a list of the answers that its next calls give, with the descriptors that are open and the datagrams that were sent.  The parameters that do not
  change (libxml, files, time, the functions of the application, the thread that is joined) are the record \<open>env\<close>.  A function of the
  application takes a state and gives a state, or \<open>None\<close> when it does not return.  The event loop runs over a list of wake-ups, each with the result of \<open>select\<close>
  and what can be read; a list that is used up stands for a loop that is waiting, so that theorems about the loop say for which
  lists it has ended.  Five rounds are enough for stopping because four errors in sequence are tolerated and the fifth ends the loop.

  \<^bold>\<open>What the interfaces between the theories are.\<close>
  The components over linked structures rely on \<open>ring\<close> (a list in memory and its sequence of elements), \<open>alist\<close> (an attribute list and
  its attributes), \<open>value_of\<close> (the value of a parameter), \<open>iterating\<close> (the position of an iterator), \<open>describes\<close> (what an interface
  says about itself), and on frame lemmas that say which addresses an operation leaves alone.  Above them, \<open>tree_in\<close> relates memory to a tree of values;
  \<open>becomes\<close> and \<open>changed\<close> say how an operation changes such a tree and nothing else, \<open>walked\<close> that only iterators moved; \<open>object_in\<close> relates memory to
  a data object, and \<open>object_building\<close> adds that the object was made after a given state of the memory and that nothing else was made since.
  Reading a datagram, building a request and releasing either are stated over this relation.

  \<^bold>\<open>Not modelled.\<close>
  The branches for Windows, Mac OS and Android, debug output (the \<open>print\<close> functions and leak reports), the
  portability layer (\<open>platform.c\<close>, \<open>debug.c\<close>, \<open>utils.c\<close>, \<open>thread.c\<close>), which mostly wraps calls of the operating system, and the pseudo-random number
  generator \<open>prng.c\<close>, whose output is a parameter of the filters.  Two threads on one handle are modelled where the code synchronises them (the
  signal and the join in \<open>haggle_event_loop_stop\<close>; the byte written to the pipe of the signal arrives); data races on the members of a handle are not.  The kernel is C++ and is represented only by the
  datagrams that it receives and sends; the language bindings, the applications, the experimental and platform code and the vendored libraries are left out.
\<close>

end
